(* ===== verification/Quic_Prelude.thy ===== *)
theory Quic_Prelude
  imports Main "HOL-Library.Word"
begin

text \<open>
  Shared vocabulary of the development: Go's fixed-width integers as words, the byte reader
  (\<^verbatim>\<open>bytes.Reader\<close>) as the list of the bytes not yet read, Go errors as a datatype,
  fallible functions as values of a sum type, and the arithmetic of
  \<^verbatim>\<open>time.Time\<close> and \<^verbatim>\<open>time.Duration\<close>.
  The generic lemmas on words, bytes and results that the component theories share are at the end.
\<close>

unbundle bit_operations_syntax

section \<open>Machine integers and protocol types\<close>

type_synonym u8 = "8 word"
type_synonym u16 = "16 word"
type_synonym u32 = "32 word"
type_synonym u64 = "64 word"
type_synonym bytes = "u8 list"

text \<open>Types of \<^verbatim>\<open>internal/protocol/protocol.go\<close>.\<close>

type_synonym PacketNumber = u64
type_synonym PacketNumberLen = u8
type_synonym ConnectionID = u64
type_synonym StreamID = u32
type_synonym PathID = u8
type_synonym ByteCount = u64
type_synonym VersionNumber = int

datatype Perspective = PerspectiveServer | PerspectiveClient

section \<open>Errors\<close>

text \<open>
  Every error value the modelled code can return, under the name of the Go variable that holds it.
  \<open>QuicError\<close> is \<^verbatim>\<open>qerr.Error(code, msg)\<close> or a bare \<^verbatim>\<open>qerr.ErrorCode\<close>; the human-readable
  message is dropped, the code is kept. \<open>OtherError\<close> is an \<^verbatim>\<open>errors.New\<close> or \<^verbatim>\<open>fmt.Errorf\<close>
  without a name. \<open>Panic\<close> is a run-time panic, which is a value here so that its absence can be proved.
\<close>

datatype goerror =
    EOF
  | ErrUnexpectedEOF
  | Panic
  | QuicError u32
  | OtherError string
  | ErrInvalidAckRanges
  | ErrInvalidFirstAckRange
  | errInconsistentAckLargestAcked
  | errInconsistentAckLowestAcked
  | errInvalidStreamIDLen
  | errInvalidOffsetLen
  | errLeastUnackedHigherThanPacketNumber
  | errPacketNumberNotSet
  | errPacketNumberLenNotSet
  | ErrTooManyPaths
  | ErrPathsNumber
  | ErrMissingRTT
  | ErrUnknownIPVersion
  | errInconsistentAddrIPVersion
  | ErrPacketWithUnknownVersion
  | errResetAndVersionFlagSet
  | errReceivedTruncatedConnectionID
  | errInvalidConnectionID
  | errGetLengthNotForVersionNegotiation
  | errInvalidPacketNumber
  | errTooManyOutstandingReceivedAckRanges
  | ErrDuplicateOrOutOfOrderAck
  | ErrTooManyTrackedSentPackets
  | ErrAckForSkippedPacket
  | errAckForUnsentPacket
  | errPacketNumberNotIncreasing
  | errTooManyGapsInReceivedStreamData
  | errDuplicateStreamData
  | errEmptyStreamData
  | ErrReceivedSmallerByteOffset
  | errMapAccess

text \<open>The error codes of \<^verbatim>\<open>qerr/error_codes.go\<close> that the modelled code raises.\<close>

abbreviation (input) StreamDataAfterTermination :: u32 where "StreamDataAfterTermination \<equiv> 2"
abbreviation (input) InvalidFrameData :: u32 where "InvalidFrameData \<equiv> 4"
abbreviation (input) InvalidConnectionCloseData :: u32 where "InvalidConnectionCloseData \<equiv> 7"
abbreviation (input) InvalidGoawayData :: u32 where "InvalidGoawayData \<equiv> 8"
abbreviation (input) InvalidVersionNegotiationPacket :: u32 where "InvalidVersionNegotiationPacket \<equiv> 10"
abbreviation (input) InvalidStreamID :: u32 where "InvalidStreamID \<equiv> 17"
abbreviation (input) TooManyOpenStreams :: u32 where "TooManyOpenStreams \<equiv> 18"
abbreviation (input) InvalidStreamData :: u32 where "InvalidStreamData \<equiv> 46"
abbreviation (input) EmptyStreamFrameNoFin :: u32 where "EmptyStreamFrameNoFin \<equiv> 50"
abbreviation (input) FlowControlReceivedTooMuchData :: u32 where "FlowControlReceivedTooMuchData \<equiv> 59"
abbreviation (input) InvalidStopWaitingData :: u32 where "InvalidStopWaitingData \<equiv> 60"
abbreviation (input) InternalError :: u32 where "InternalError \<equiv> 1"
abbreviation (input) InvalidPacketHeader :: u32 where "InvalidPacketHeader \<equiv> 3"
abbreviation (input) InvalidRstStreamData :: u32 where "InvalidRstStreamData \<equiv> 6"
abbreviation (input) InvalidAckData :: u32 where "InvalidAckData \<equiv> 9"
abbreviation (input) DecryptionFailure :: u32 where "DecryptionFailure \<equiv> 12"
abbreviation (input) CryptoTooManyEntries :: u32 where "CryptoTooManyEntries \<equiv> 30"
abbreviation (input) CryptoInvalidValueLength :: u32 where "CryptoInvalidValueLength \<equiv> 31"
abbreviation (input) MissingPayload :: u32 where "MissingPayload \<equiv> 48"
abbreviation (input) InvalidWindowUpdateData :: u32 where "InvalidWindowUpdateData \<equiv> 57"
abbreviation (input) InvalidBlockedData :: u32 where "InvalidBlockedData \<equiv> 58"
abbreviation (input) UnencryptedStreamData :: u32 where "UnencryptedStreamData \<equiv> 61"
abbreviation (input) FlowControlSentTooMuchData :: u32 where "FlowControlSentTooMuchData \<equiv> 63"
abbreviation (input) TooManyOutstandingSentPackets :: u32 where "TooManyOutstandingSentPackets \<equiv> 68"
abbreviation (input) TooManyOutstandingReceivedPackets :: u32 where "TooManyOutstandingReceivedPackets \<equiv> 69"

type_synonym 'a result = "goerror + 'a"

text \<open>\<open>andThen m k\<close> is Go's \<^verbatim>\<open>x, err := m; if err != nil { return nil, err }; k(x)\<close>.\<close>

fun andThen :: "'a result \<Rightarrow> ('a \<Rightarrow> 'b result) \<Rightarrow> 'b result" where
  "andThen (Inl e) k = Inl e"
| "andThen (Inr x) k = k x"

fun is_ok :: "'a result \<Rightarrow> bool" where
  "is_ok (Inl e) = False"
| "is_ok (Inr x) = True"

section \<open>The byte reader\<close>

text \<open>
  A \<^verbatim>\<open>bytes.Reader\<close> is the list of bytes still to be read. A parser that fails drops the reader:
  every caller of the modelled parsers abandons the packet on an error.
\<close>

fun ReadByte :: "bytes \<Rightarrow> (u8 \<times> bytes) result" where
  "ReadByte [] = Inl EOF"
| "ReadByte (b # r) = Inr (b, r)"

definition ReadFull :: "bytes \<Rightarrow> nat \<Rightarrow> (bytes \<times> bytes) result" where
  "ReadFull r n =
     (if n \<le> length r then Inr (take n r, drop n r)
      else if r = [] then Inl EOF else Inl ErrUnexpectedEOF)"

section \<open>Time\<close>

text \<open>
  A \<^verbatim>\<open>time.Time\<close> is the number of nanoseconds since the zero \<^verbatim>\<open>Time\<close>, so that \<^verbatim>\<open>IsZero\<close> is
  equality with 0. A \<^verbatim>\<open>time.Duration\<close> is an \<^verbatim>\<open>int64\<close> number of nanoseconds, held as an \<open>int\<close>;
  \<open>i64\<close> is the wrap-around of the \<^verbatim>\<open>int64\<close> operations, \<open>time_sub\<close> the saturating
  \<^verbatim>\<open>Time.Sub\<close>, and \<open>quot\<close> Go's integer division, which truncates towards zero.
\<close>

type_synonym gotime = int
type_synonym duration = int

abbreviation (input) zero_time :: gotime where "zero_time \<equiv> 0"
abbreviation (input) Microsecond :: duration where "Microsecond \<equiv> 1000"
abbreviation (input) Millisecond :: duration where "Millisecond \<equiv> 1000000"
abbreviation (input) Second :: duration where "Second \<equiv> 1000000000"

definition maxInt64 :: int where "maxInt64 = 9223372036854775807"
definition minInt64 :: int where "minInt64 = - 9223372036854775808"

definition i64 :: "int \<Rightarrow> int" where
  "i64 x = (x + 9223372036854775808) mod 18446744073709551616 - 9223372036854775808"

definition time_add :: "gotime \<Rightarrow> duration \<Rightarrow> gotime" where
  "time_add t d = t + d"

definition time_sub :: "gotime \<Rightarrow> gotime \<Rightarrow> duration" where
  "time_sub t u = max minInt64 (min maxInt64 (t - u))"

definition quot :: "int \<Rightarrow> int \<Rightarrow> int" where
  "quot a b = sgn a * sgn b * (\<bar>a\<bar> div \<bar>b\<bar>)"

section \<open>Lemmas on results and readers\<close>

lemma andThen_Inr_iff [simp]:
  "andThen m k = Inr y \<longleftrightarrow> (\<exists>x. m = Inr x \<and> k x = Inr y)"
  by (cases m) auto

lemma andThen_InrE:
  assumes "andThen m k = Inr y"
  obtains x where "m = Inr x" "k x = Inr y"
  using assms by (cases m) auto

lemma andThen_Inl_iff:
  "andThen m k = Inl e \<longleftrightarrow> m = Inl e \<or> (\<exists>x. m = Inr x \<and> k x = Inl e)"
  by (cases m) auto

lemma andThen_assoc: "andThen (andThen m f) g = andThen m (\<lambda>x. andThen (f x) g)"
  by (cases m) auto

lemma andThen_cong [fundef_cong]:
  "m = m' \<Longrightarrow> (\<And>x. m' = Inr x \<Longrightarrow> k x = k' x) \<Longrightarrow> andThen m k = andThen m' k'"
  by (cases m') auto

lemma is_ok_iff: "is_ok m \<longleftrightarrow> (\<exists>x. m = Inr x)"
  by (cases m) auto

lemma ReadByte_Inr_iff [simp]: "ReadByte bs = Inr (b, r) \<longleftrightarrow> bs = b # r"
  by (cases bs) auto

lemma ReadFull_append [simp]: "n = length bs \<Longrightarrow> ReadFull (bs @ r) n = Inr (bs, r)"
  by (simp add: ReadFull_def)

lemma ReadFull_Inr_iff: "ReadFull bs n = Inr (x, r) \<longleftrightarrow> length x = n \<and> bs = x @ r"
  by (auto simp: ReadFull_def split: if_splits)

text \<open>A computation that does not panic, and the rules that reduce this to its parts.\<close>

definition no_panic :: "'a result \<Rightarrow> bool" where
  "no_panic m \<longleftrightarrow> m \<noteq> Inl Panic"

named_theorems no_panic_rules

lemma no_panic_Inr [no_panic_rules]: "no_panic (Inr x)"
  and no_panic_Inl [no_panic_rules]: "no_panic (Inl e) \<longleftrightarrow> e \<noteq> Panic"
  and no_panic_ReadByte [no_panic_rules]: "no_panic (ReadByte bs)"
  and no_panic_ReadFull [no_panic_rules]: "no_panic (ReadFull bs n)"
  by (auto simp: no_panic_def ReadFull_def elim!: ReadByte.elims)

lemma no_panic_andThen [no_panic_rules]:
  "no_panic (andThen m k) \<longleftrightarrow> no_panic m \<and> (\<forall>x. m = Inr x \<longrightarrow> no_panic (k x))"
  by (cases m) (auto simp: no_panic_def)

lemma no_panic_if [no_panic_rules]:
  "no_panic (if c then m else m') \<longleftrightarrow> (c \<longrightarrow> no_panic m) \<and> (\<not> c \<longrightarrow> no_panic m')"
  by simp

lemma no_panic_intros:
  "no_panic m \<Longrightarrow> (\<And>x. m = Inr x \<Longrightarrow> no_panic (k x)) \<Longrightarrow> no_panic (andThen m k)"
  "(c \<Longrightarrow> no_panic m) \<Longrightarrow> (\<not> c \<Longrightarrow> no_panic m') \<Longrightarrow> no_panic (if c then m else m')"
  "(\<And>a b. p = (a, b) \<Longrightarrow> no_panic (f a b)) \<Longrightarrow> no_panic (case p of (a, b) \<Rightarrow> f a b)"
  "(\<And>a b. p = (a, b) \<Longrightarrow> no_panic (g a b r)) \<Longrightarrow> no_panic ((case p of (a, b) \<Rightarrow> g a b) r)"
  "no_panic (Inr y)" "e \<noteq> Panic \<Longrightarrow> no_panic (Inl e)"
  by (auto simp: no_panic_rules split: prod.splits)

section \<open>Lemmas on time\<close>

lemma i64_id: "minInt64 \<le> x \<Longrightarrow> x \<le> maxInt64 \<Longrightarrow> i64 x = x"
  by (simp add: i64_def minInt64_def maxInt64_def)

lemma quot_nonneg: "0 \<le> a \<Longrightarrow> 0 < b \<Longrightarrow> quot a b = a div b"
  by (cases "a = 0") (simp_all add: quot_def)

section \<open>Lemmas on words and bytes\<close>

lemma take_bit_append:
  "take_bit (m + k) x = take_bit m x OR push_bit m (take_bit k (drop_bit m (x :: 'a::len word)))"
  by (rule bit_eqI) (auto simp: bit_simps)

lemma ucast_byte_eq: "ucast (ucast (x :: 'a::len word) :: u8) = take_bit 8 x"
  by (rule bit_eqI) (auto simp: bit_simps)

lemma take_bit_and_push_bit: "take_bit n x AND push_bit n (y :: 'a::len word) = 0"
  by (rule bit_eqI) (auto simp: bit_simps)

lemma push_bit_and_take_bit: "push_bit n y AND take_bit n (x :: 'a::len word) = 0"
  by (rule bit_eqI) (auto simp: bit_simps)

lemma or_eq_plus: "a AND b = 0 \<Longrightarrow> a OR b = a + (b :: 'a::len word)"
  by (simp add: disjunctive_add_eq_or)

lemma or_eq_xor: "a AND b = 0 \<Longrightarrow> a OR b = a XOR (b :: 'a::len word)"
  by (simp add: or_eq_plus disjunctive_add_eq_xor)

lemma take_bit_word_self: "unat (x :: 'a::len word) < 2 ^ n \<Longrightarrow> take_bit n x = x"
  by (metis take_bit_nat_eq_self_iff unsigned_take_bit_eq word_unat_eq_iff)

lemma take_bit_word_length: "take_bit LENGTH('a) (x :: 'a::len word) = x"
  by (rule bit_eqI) (auto simp: bit_simps dest: bit_imp_le_length)

end
