(* ===== verification/Byte_Order.thy ===== *)
theory Byte_Order
  imports Quic_Prelude
begin

text \<open>
  The byte orders of \<^verbatim>\<open>internal/utils\<close>: \<^verbatim>\<open>byteorder_big_endian.go\<close>,
  \<^verbatim>\<open>byteorder_little_endian.go\<close>, the selection by version of \<^verbatim>\<open>byteorder.go\<close>, and the 16-bit
  floating point format of \<^verbatim>\<open>float16.go\<close>. A writer returns the bytes it appends to the buffer; the
  writers of odd widths panic when the value does not fit. The interface \<^verbatim>\<open>ByteOrder\<close> is the
  locale \<open>byte_order\<close>: its laws say that reading what was written gives the value back, and it is
  interpreted for both implementations and for the one \<^verbatim>\<open>GetByteOrder\<close> selects.
\<close>

section \<open>Big endian\<close>

text \<open>
  The loop of \<^verbatim>\<open>ReadUintN\<close>; \<open>k\<close> counts the iterations left, so that the loop variable is
  \<open>i = length - k\<close>. The shift amount is computed in \<^verbatim>\<open>uint8\<close>, as in the code.
\<close>

fun be_ReadUintN_loop :: "u8 \<Rightarrow> nat \<Rightarrow> u64 \<Rightarrow> bytes \<Rightarrow> (u64 \<times> bytes) result" where
  "be_ReadUintN_loop len 0 res b = Inr (res, b)"
| "be_ReadUintN_loop len (Suc k) res b =
     (let i = len - of_nat (Suc k) in
      andThen (ReadByte b) (\<lambda>(bt, b).
        be_ReadUintN_loop len k (res XOR push_bit (unat ((len - 1 - i) * 8)) (ucast bt)) b))"

definition be_ReadUintN :: "bytes \<Rightarrow> u8 \<Rightarrow> (u64 \<times> bytes) result" where
  "be_ReadUintN b len = be_ReadUintN_loop len (unat len) 0 b"

definition be_ReadUint64 :: "bytes \<Rightarrow> (u64 \<times> bytes) result" where
  "be_ReadUint64 b =
     andThen (ReadByte b) (\<lambda>(b8, b). andThen (ReadByte b) (\<lambda>(b7, b).
     andThen (ReadByte b) (\<lambda>(b6, b). andThen (ReadByte b) (\<lambda>(b5, b).
     andThen (ReadByte b) (\<lambda>(b4, b). andThen (ReadByte b) (\<lambda>(b3, b).
     andThen (ReadByte b) (\<lambda>(b2, b). andThen (ReadByte b) (\<lambda>(b1, b).
       Inr (ucast b1 + push_bit 8 (ucast b2) + push_bit 16 (ucast b3) + push_bit 24 (ucast b4)
            + push_bit 32 (ucast b5) + push_bit 40 (ucast b6) + push_bit 48 (ucast b7)
            + push_bit 56 (ucast b8), b)))))))))"

definition be_ReadUint32 :: "bytes \<Rightarrow> (u32 \<times> bytes) result" where
  "be_ReadUint32 b =
     andThen (ReadByte b) (\<lambda>(b4, b). andThen (ReadByte b) (\<lambda>(b3, b).
     andThen (ReadByte b) (\<lambda>(b2, b). andThen (ReadByte b) (\<lambda>(b1, b).
       Inr (ucast b1 + push_bit 8 (ucast b2) + push_bit 16 (ucast b3) + push_bit 24 (ucast b4), b)))))"

definition be_ReadUint16 :: "bytes \<Rightarrow> (u16 \<times> bytes) result" where
  "be_ReadUint16 b =
     andThen (ReadByte b) (\<lambda>(b2, b). andThen (ReadByte b) (\<lambda>(b1, b).
       Inr (ucast b1 + push_bit 8 (ucast b2), b)))"

definition be_WriteUint64 :: "u64 \<Rightarrow> bytes" where
  "be_WriteUint64 i =
     [ucast (drop_bit 56 i), ucast (drop_bit 48 i), ucast (drop_bit 40 i), ucast (drop_bit 32 i),
      ucast (drop_bit 24 i), ucast (drop_bit 16 i), ucast (drop_bit 8 i), ucast i]"

definition be_WriteUint56 :: "u64 \<Rightarrow> bytes result" where
  "be_WriteUint56 i =
     (if i \<ge> 2 ^ 56 then Inl Panic
      else Inr [ucast (drop_bit 48 i), ucast (drop_bit 40 i), ucast (drop_bit 32 i),
                ucast (drop_bit 24 i), ucast (drop_bit 16 i), ucast (drop_bit 8 i), ucast i])"

definition be_WriteUint48 :: "u64 \<Rightarrow> bytes result" where
  "be_WriteUint48 i =
     (if i \<ge> 2 ^ 48 then Inl Panic
      else Inr [ucast (drop_bit 40 i), ucast (drop_bit 32 i),
                ucast (drop_bit 24 i), ucast (drop_bit 16 i), ucast (drop_bit 8 i), ucast i])"

definition be_WriteUint40 :: "u64 \<Rightarrow> bytes result" where
  "be_WriteUint40 i =
     (if i \<ge> 2 ^ 40 then Inl Panic
      else Inr [ucast (drop_bit 32 i),
                ucast (drop_bit 24 i), ucast (drop_bit 16 i), ucast (drop_bit 8 i), ucast i])"

definition be_WriteUint32 :: "u32 \<Rightarrow> bytes" where
  "be_WriteUint32 i =
     [ucast (drop_bit 24 i), ucast (drop_bit 16 i), ucast (drop_bit 8 i), ucast i]"

definition be_WriteUint24 :: "u32 \<Rightarrow> bytes result" where
  "be_WriteUint24 i =
     (if i \<ge> 2 ^ 24 then Inl Panic
      else Inr [ucast (drop_bit 16 i), ucast (drop_bit 8 i), ucast i])"

definition be_WriteUint16 :: "u16 \<Rightarrow> bytes" where
  "be_WriteUint16 i = [ucast (drop_bit 8 i), ucast i]"

section \<open>Little endian\<close>

fun le_ReadUintN_loop :: "u8 \<Rightarrow> nat \<Rightarrow> u64 \<Rightarrow> bytes \<Rightarrow> (u64 \<times> bytes) result" where
  "le_ReadUintN_loop len 0 res b = Inr (res, b)"
| "le_ReadUintN_loop len (Suc k) res b =
     (let i = len - of_nat (Suc k) in
      andThen (ReadByte b) (\<lambda>(bt, b).
        le_ReadUintN_loop len k (res XOR push_bit (unat (i * 8)) (ucast bt)) b))"

definition le_ReadUintN :: "bytes \<Rightarrow> u8 \<Rightarrow> (u64 \<times> bytes) result" where
  "le_ReadUintN b len = le_ReadUintN_loop len (unat len) 0 b"

definition le_ReadUint64 :: "bytes \<Rightarrow> (u64 \<times> bytes) result" where
  "le_ReadUint64 b =
     andThen (ReadByte b) (\<lambda>(b1, b). andThen (ReadByte b) (\<lambda>(b2, b).
     andThen (ReadByte b) (\<lambda>(b3, b). andThen (ReadByte b) (\<lambda>(b4, b).
     andThen (ReadByte b) (\<lambda>(b5, b). andThen (ReadByte b) (\<lambda>(b6, b).
     andThen (ReadByte b) (\<lambda>(b7, b). andThen (ReadByte b) (\<lambda>(b8, b).
       Inr (ucast b1 + push_bit 8 (ucast b2) + push_bit 16 (ucast b3) + push_bit 24 (ucast b4)
            + push_bit 32 (ucast b5) + push_bit 40 (ucast b6) + push_bit 48 (ucast b7)
            + push_bit 56 (ucast b8), b)))))))))"

definition le_ReadUint32 :: "bytes \<Rightarrow> (u32 \<times> bytes) result" where
  "le_ReadUint32 b =
     andThen (ReadByte b) (\<lambda>(b1, b). andThen (ReadByte b) (\<lambda>(b2, b).
     andThen (ReadByte b) (\<lambda>(b3, b). andThen (ReadByte b) (\<lambda>(b4, b).
       Inr (ucast b1 + push_bit 8 (ucast b2) + push_bit 16 (ucast b3) + push_bit 24 (ucast b4), b)))))"

definition le_ReadUint16 :: "bytes \<Rightarrow> (u16 \<times> bytes) result" where
  "le_ReadUint16 b =
     andThen (ReadByte b) (\<lambda>(b1, b). andThen (ReadByte b) (\<lambda>(b2, b).
       Inr (ucast b1 + push_bit 8 (ucast b2), b)))"

definition le_WriteUint64 :: "u64 \<Rightarrow> bytes" where
  "le_WriteUint64 i =
     [ucast i, ucast (drop_bit 8 i), ucast (drop_bit 16 i), ucast (drop_bit 24 i),
      ucast (drop_bit 32 i), ucast (drop_bit 40 i), ucast (drop_bit 48 i), ucast (drop_bit 56 i)]"

definition le_WriteUint56 :: "u64 \<Rightarrow> bytes result" where
  "le_WriteUint56 i =
     (if i \<ge> 2 ^ 56 then Inl Panic
      else Inr [ucast i, ucast (drop_bit 8 i), ucast (drop_bit 16 i), ucast (drop_bit 24 i),
                ucast (drop_bit 32 i), ucast (drop_bit 40 i), ucast (drop_bit 48 i)])"

definition le_WriteUint48 :: "u64 \<Rightarrow> bytes result" where
  "le_WriteUint48 i =
     (if i \<ge> 2 ^ 48 then Inl Panic
      else Inr [ucast i, ucast (drop_bit 8 i), ucast (drop_bit 16 i), ucast (drop_bit 24 i),
                ucast (drop_bit 32 i), ucast (drop_bit 40 i)])"

definition le_WriteUint40 :: "u64 \<Rightarrow> bytes result" where
  "le_WriteUint40 i =
     (if i \<ge> 2 ^ 40 then Inl Panic
      else Inr [ucast i, ucast (drop_bit 8 i), ucast (drop_bit 16 i),
                ucast (drop_bit 24 i), ucast (drop_bit 32 i)])"

definition le_WriteUint32 :: "u32 \<Rightarrow> bytes" where
  "le_WriteUint32 i =
     [ucast i, ucast (drop_bit 8 i), ucast (drop_bit 16 i), ucast (drop_bit 24 i)]"

definition le_WriteUint24 :: "u32 \<Rightarrow> bytes result" where
  "le_WriteUint24 i =
     (if i \<ge> 2 ^ 24 then Inl Panic
      else Inr [ucast i, ucast (drop_bit 8 i), ucast (drop_bit 16 i)])"

definition le_WriteUint16 :: "u16 \<Rightarrow> bytes" where
  "le_WriteUint16 i = [ucast i, ucast (drop_bit 8 i)]"

section \<open>Selection by version\<close>

datatype ByteOrder = LittleEndian | BigEndian

definition Version39 :: VersionNumber where "Version39 = 39"

definition GetByteOrder :: "VersionNumber \<Rightarrow> ByteOrder" where
  "GetByteOrder v = (if v < Version39 then LittleEndian else BigEndian)"

text \<open>The dynamic dispatch of the interface's methods.\<close>

fun ReadUintN :: "ByteOrder \<Rightarrow> bytes \<Rightarrow> u8 \<Rightarrow> (u64 \<times> bytes) result" where
  "ReadUintN BigEndian = be_ReadUintN" | "ReadUintN LittleEndian = le_ReadUintN"

fun ReadUint64 :: "ByteOrder \<Rightarrow> bytes \<Rightarrow> (u64 \<times> bytes) result" where
  "ReadUint64 BigEndian = be_ReadUint64" | "ReadUint64 LittleEndian = le_ReadUint64"

fun ReadUint32 :: "ByteOrder \<Rightarrow> bytes \<Rightarrow> (u32 \<times> bytes) result" where
  "ReadUint32 BigEndian = be_ReadUint32" | "ReadUint32 LittleEndian = le_ReadUint32"

fun ReadUint16 :: "ByteOrder \<Rightarrow> bytes \<Rightarrow> (u16 \<times> bytes) result" where
  "ReadUint16 BigEndian = be_ReadUint16" | "ReadUint16 LittleEndian = le_ReadUint16"

fun WriteUint64 :: "ByteOrder \<Rightarrow> u64 \<Rightarrow> bytes" where
  "WriteUint64 BigEndian = be_WriteUint64" | "WriteUint64 LittleEndian = le_WriteUint64"

fun WriteUint56 :: "ByteOrder \<Rightarrow> u64 \<Rightarrow> bytes result" where
  "WriteUint56 BigEndian = be_WriteUint56" | "WriteUint56 LittleEndian = le_WriteUint56"

fun WriteUint48 :: "ByteOrder \<Rightarrow> u64 \<Rightarrow> bytes result" where
  "WriteUint48 BigEndian = be_WriteUint48" | "WriteUint48 LittleEndian = le_WriteUint48"

fun WriteUint40 :: "ByteOrder \<Rightarrow> u64 \<Rightarrow> bytes result" where
  "WriteUint40 BigEndian = be_WriteUint40" | "WriteUint40 LittleEndian = le_WriteUint40"

fun WriteUint32 :: "ByteOrder \<Rightarrow> u32 \<Rightarrow> bytes" where
  "WriteUint32 BigEndian = be_WriteUint32" | "WriteUint32 LittleEndian = le_WriteUint32"

fun WriteUint24 :: "ByteOrder \<Rightarrow> u32 \<Rightarrow> bytes result" where
  "WriteUint24 BigEndian = be_WriteUint24" | "WriteUint24 LittleEndian = le_WriteUint24"

fun WriteUint16 :: "ByteOrder \<Rightarrow> u16 \<Rightarrow> bytes" where
  "WriteUint16 BigEndian = be_WriteUint16" | "WriteUint16 LittleEndian = le_WriteUint16"

section \<open>Lemmas on byte strings of words\<close>

text \<open>The \<open>n\<close> low bytes of a word, least significant first.\<close>

definition le_bytes :: "nat \<Rightarrow> u64 \<Rightarrow> bytes" where
  "le_bytes n x = map (\<lambda>i. ucast (drop_bit (8 * i) x)) [0..<n]"

lemma length_le_bytes [simp]: "length (le_bytes n x) = n"
  by (simp add: le_bytes_def)

lemma rev_le_bytes_Suc: "rev (le_bytes (Suc k) x) = ucast (drop_bit (8 * k) x) # rev (le_bytes k x)"
  by (simp add: le_bytes_def)

lemma take_bit_join:
  "take_bit m x + push_bit m (take_bit k (drop_bit m x)) = take_bit (m + k) (x :: 'a::len word)"
  by (simp add: take_bit_append or_eq_plus take_bit_and_push_bit)

lemma take_bit_join_xor:
  "push_bit m (take_bit k (drop_bit m x)) XOR take_bit m x = take_bit (m + k) (x :: 'a::len word)"
  by (metis (no_types) or_eq_xor push_bit_and_take_bit take_bit_append or.commute)

lemma word_take_bit_ids [simp]:
  "take_bit 16 (x :: u16) = x" "take_bit 32 (y :: u32) = y" "take_bit 64 (z :: u64) = z"
  by (rule bit_eqI; auto simp: bit_simps dest: bit_imp_le_length)+

lemma join16: "ucast (ucast x :: u8) + push_bit 8 (ucast (ucast (drop_bit 8 x) :: u8)) = (x :: u16)"
  by (simp add: ucast_byte_eq take_bit_join)

lemma join32:
  "ucast (ucast x :: u8) + push_bit 8 (ucast (ucast (drop_bit 8 x) :: u8))
   + push_bit 16 (ucast (ucast (drop_bit 16 x) :: u8))
   + push_bit 24 (ucast (ucast (drop_bit 24 x) :: u8)) = (x :: u32)"
  by (simp only: ucast_byte_eq take_bit_join) (simp add: take_bit_join)

lemma join64:
  "ucast (ucast x :: u8) + push_bit 8 (ucast (ucast (drop_bit 8 x) :: u8))
   + push_bit 16 (ucast (ucast (drop_bit 16 x) :: u8))
   + push_bit 24 (ucast (ucast (drop_bit 24 x) :: u8))
   + push_bit 32 (ucast (ucast (drop_bit 32 x) :: u8))
   + push_bit 40 (ucast (ucast (drop_bit 40 x) :: u8))
   + push_bit 48 (ucast (ucast (drop_bit 48 x) :: u8))
   + push_bit 56 (ucast (ucast (drop_bit 56 x) :: u8)) = (x :: u64)"
  by (simp only: ucast_byte_eq take_bit_join) (simp add: take_bit_join)

lemma unat_of_nat_times_8: "k < 8 \<Longrightarrow> unat (of_nat k * 8 :: u8) = 8 * k"
  by (simp add: unat_word_ariths unat_of_nat)

lemma be_loop_rev_le_bytes:
  assumes "k \<le> 8"
  shows "be_ReadUintN_loop len k res (rev (le_bytes k x) @ r) = Inr (res XOR take_bit (8 * k) x, r)"
  using assms
proof (induction k arbitrary: res)
  case 0
  then show ?case by (simp add: le_bytes_def)
next
  case (Suc k)
  have shift: "unat ((len - 1 - (len - of_nat (Suc k))) * 8) = 8 * k"
    using Suc.prems unat_of_nat_times_8 [of k] by (simp add: algebra_simps)
  have "(res XOR push_bit (8 * k) (take_bit 8 (drop_bit (8 * k) x))) XOR take_bit (8 * k) x
      = res XOR take_bit (8 * Suc k) x"
    by (simp add: xor.assoc take_bit_join_xor add.commute)
  then show ?case
    using Suc.IH Suc.prems
    by (simp only: rev_le_bytes_Suc be_ReadUintN_loop.simps Let_def append_Cons ReadByte.simps
          andThen.simps case_prod_conv shift ucast_byte_eq)
qed

lemma le_loop_le_bytes:
  assumes "j + k \<le> 8"
  shows "le_ReadUintN_loop (of_nat (j + k)) k (take_bit (8 * j) x)
           (map (\<lambda>i. ucast (drop_bit (8 * i) x)) [j..<j + k] @ r)
         = Inr (take_bit (8 * (j + k)) x, r)"
  using assms
proof (induction k arbitrary: j)
  case 0
  then show ?case by simp
next
  case (Suc k)
  have shift: "unat ((of_nat (j + Suc k) - of_nat (Suc k) :: u8) * 8) = 8 * j"
    using Suc.prems unat_of_nat_times_8 [of j] by simp
  have ext: "take_bit (8 * j) x XOR push_bit (8 * j) (take_bit 8 (drop_bit (8 * j) x))
      = take_bit (8 * Suc j) x"
    using take_bit_join_xor [of "8 * j" 8 x] by (simp add: xor.commute [of "take_bit _ _"] add.commute)
  have upt: "[j..<j + Suc k] = j # [Suc j..<j + Suc k]"
    by (simp add: upt_conv_Cons)
  have "le_ReadUintN_loop (of_nat (j + Suc k)) k (take_bit (8 * Suc j) x)
           (map (\<lambda>i. ucast (drop_bit (8 * i) x)) [Suc j..<j + Suc k] @ r)
         = Inr (take_bit (8 * (j + Suc k)) x, r)"
    using Suc.IH [of "Suc j"] Suc.prems by simp
  then show ?case
    by (simp only: upt list.map append_Cons le_ReadUintN_loop.simps Let_def ReadByte.simps
          andThen.simps case_prod_conv shift ucast_byte_eq ext)
qed

lemma be_ReadUintN_bytes:
  "n \<le> 8 \<Longrightarrow> be_ReadUintN (rev (le_bytes n x) @ r) (of_nat n) = Inr (take_bit (8 * n) x, r)"
  by (simp add: be_ReadUintN_def be_loop_rev_le_bytes unat_of_nat)

lemma le_ReadUintN_bytes:
  "n \<le> 8 \<Longrightarrow> le_ReadUintN (le_bytes n x @ r) (of_nat n) = Inr (take_bit (8 * n) x, r)"
  using le_loop_le_bytes [of 0 n x r]
  by (simp add: le_ReadUintN_def le_bytes_def unat_of_nat)

lemma ucast_drop_bit_16 [simp]:
  "ucast (drop_bit n (ucast (x :: u16) :: u64)) = (ucast (drop_bit n x) :: u8)"
  by (rule bit_eqI) (auto simp: bit_simps dest: bit_imp_le_length)

lemma ucast_drop_bit_32 [simp]:
  "ucast (drop_bit n (ucast (x :: u32) :: u64)) = (ucast (drop_bit n x) :: u8)"
  by (rule bit_eqI) (auto simp: bit_simps dest: bit_imp_le_length)

lemma ucast_ucast_16 [simp]: "(ucast (ucast (x :: u16) :: u64) :: u8) = ucast x"
  by (rule bit_eqI) (auto simp: bit_simps dest: bit_imp_le_length)

lemma ucast_ucast_32 [simp]: "(ucast (ucast (x :: u32) :: u64) :: u8) = ucast x"
  by (rule bit_eqI) (auto simp: bit_simps dest: bit_imp_le_length)

lemma le_bytes_expand:
  "le_bytes 2 x = [ucast x, ucast (drop_bit 8 x)]"
  "le_bytes 3 x = [ucast x, ucast (drop_bit 8 x), ucast (drop_bit 16 x)]"
  "le_bytes 4 x = [ucast x, ucast (drop_bit 8 x), ucast (drop_bit 16 x), ucast (drop_bit 24
     x)]"
  "le_bytes 5 x = [ucast x, ucast (drop_bit 8 x), ucast (drop_bit 16 x), ucast (drop_bit 24 x),
     ucast (drop_bit 32 x)]"
  "le_bytes 6 x = [ucast x, ucast (drop_bit 8 x), ucast (drop_bit 16 x), ucast (drop_bit 24 x),
     ucast (drop_bit 32 x), ucast (drop_bit 40 x)]"
  "le_bytes 7 x = [ucast x, ucast (drop_bit 8 x), ucast (drop_bit 16 x), ucast (drop_bit 24 x),
     ucast (drop_bit 32 x), ucast (drop_bit 40 x), ucast (drop_bit 48 x)]"
  "le_bytes 8 x = [ucast x, ucast (drop_bit 8 x), ucast (drop_bit 16 x), ucast (drop_bit 24 x),
     ucast (drop_bit 32 x), ucast (drop_bit 40 x), ucast (drop_bit 48 x), ucast (drop_bit 56
     x)]"
  by (simp_all add: le_bytes_def upt_rec)

section \<open>The interface and its laws\<close>

locale byte_order =
  fixes readN :: "bytes \<Rightarrow> u8 \<Rightarrow> (u64 \<times> bytes) result"
    and read64 :: "bytes \<Rightarrow> (u64 \<times> bytes) result"
    and read32 :: "bytes \<Rightarrow> (u32 \<times> bytes) result"
    and read16 :: "bytes \<Rightarrow> (u16 \<times> bytes) result"
    and write64 :: "u64 \<Rightarrow> bytes"
    and write56 :: "u64 \<Rightarrow> bytes result"
    and write48 :: "u64 \<Rightarrow> bytes result"
    and write40 :: "u64 \<Rightarrow> bytes result"
    and write32 :: "u32 \<Rightarrow> bytes"
    and write24 :: "u32 \<Rightarrow> bytes result"
    and write16 :: "u16 \<Rightarrow> bytes"
  assumes readN_0: "readN r 0 = Inr (0, r)"
    and readN_1: "readN (b # r) 1 = Inr (ucast b, r)"
    and read64_write64: "read64 (write64 x @ r) = Inr (x, r)"
    and read32_write32: "read32 (write32 y @ r) = Inr (y, r)"
    and read16_write16: "read16 (write16 z @ r) = Inr (z, r)"
    and readN_write64: "readN (write64 x @ r) 8 = Inr (x, r)"
    and readN_write32: "readN (write32 y @ r) 4 = Inr (ucast y, r)"
    and readN_write16: "readN (write16 z @ r) 2 = Inr (ucast z, r)"
    and write56_ok: "unat x < 2 ^ 56 \<Longrightarrow>
       \<exists>bs. write56 x = Inr bs \<and> length bs = 7 \<and> (\<forall>r. readN (bs @ r) 7 = Inr (x, r))"
    and write48_ok: "unat x < 2 ^ 48 \<Longrightarrow>
       \<exists>bs. write48 x = Inr bs \<and> length bs = 6 \<and> (\<forall>r. readN (bs @ r) 6 = Inr (x, r))"
    and write40_ok: "unat x < 2 ^ 40 \<Longrightarrow>
       \<exists>bs. write40 x = Inr bs \<and> length bs = 5 \<and> (\<forall>r. readN (bs @ r) 5 = Inr (x, r))"
    and write24_ok: "unat y < 2 ^ 24 \<Longrightarrow>
       \<exists>bs. write24 y = Inr bs \<and> length bs = 3 \<and> (\<forall>r. readN (bs @ r) 3 = Inr (ucast y, r))"
    and length_write64: "length (write64 x) = 8"
    and length_write32: "length (write32 y) = 4"
    and length_write16: "length (write16 z) = 2"
    and readN_consumes: "readN bs n = Inr (x, r) \<Longrightarrow> length bs = unat n + length r"
    and readN_bound: "readN bs n = Inr (x, r) \<Longrightarrow> unat n \<le> 8 \<Longrightarrow> unat x < 2 ^ (8 * unat n)"
    and read64_consumes: "read64 bs = Inr (x, r) \<Longrightarrow> length bs = 8 + length r"
    and read32_consumes: "read32 bs = Inr (y, r) \<Longrightarrow> length bs = 4 + length r"
    and read16_consumes: "read16 bs = Inr (z, r) \<Longrightarrow> length bs = 2 + length r"

lemma be_ReadUintN_loop_consumes:
  "be_ReadUintN_loop len n acc b = Inr (x, r) \<Longrightarrow> length b = n + length r"
  by (induction n arbitrary: acc b) auto

lemma le_ReadUintN_loop_consumes:
  "le_ReadUintN_loop len n acc b = Inr (x, r) \<Longrightarrow> length b = n + length r"
  by (induction n arbitrary: acc b) auto

lemma bit_xor_byte_less:
  assumes "bit (res XOR push_bit s (ucast (bt :: u8) :: u64)) i"
    and "\<And>i. bit res i \<Longrightarrow> i < n" "s + 8 \<le> n"
  shows "i < n"
proof (cases "bit res i")
  case False
  with assms(1) have "bit bt (i - s)" "s \<le> i" by (auto simp: bit_simps)
  with assms(3) show ?thesis using bit_imp_le_length [of bt "i - s"] by simp
qed (rule assms(2))

lemma le_ReadUintN_loop_bound:
  assumes "le_ReadUintN_loop len k res b = Inr (x, r)" "k \<le> unat len" "unat len \<le> 8"
    and "\<And>i. bit res i \<Longrightarrow> i < 8 * unat len" "bit x j"
  shows "j < 8 * unat len"
  using assms
proof (induction k arbitrary: res b)
  case (Suc k)
  let ?i = "len - of_nat (Suc k)"
  have "unat (of_nat (Suc k) :: u8) = Suc k" using Suc.prems(2,3) by (simp add: unat_of_nat take_bit_nat_eq_self del: of_nat_Suc)
  then have "unat ?i = unat len - Suc k" using Suc.prems(2) by (subst unat_sub) (simp_all add: word_le_nat_alt del: of_nat_Suc)
  then have s: "unat (?i * 8) = 8 * (unat len - Suc k)" using Suc.prems(3)
    by (subst unat_mult_lem [THEN iffD1]) (simp_all del: of_nat_Suc)
  obtain bt b' where b: "b = bt # b'"
    and rec: "le_ReadUintN_loop len k (res XOR push_bit (unat (?i * 8)) (ucast bt)) b' = Inr (x, r)"
    using Suc.prems(1) by (auto simp: Let_def simp del: of_nat_Suc)
  have "i < 8 * unat len" if "bit (res XOR push_bit (unat (?i * 8)) (ucast bt)) i" for i
    by (rule bit_xor_byte_less [OF that Suc.prems(4)]) (use Suc.prems(2) s in linarith)+
  from Suc.IH [OF rec _ Suc.prems(3) this Suc.prems(5)] Suc.prems(2) show ?case by simp
qed simp

lemma be_ReadUintN_loop_bound:
  assumes "be_ReadUintN_loop len k res b = Inr (x, r)" "k \<le> unat len" "unat len \<le> 8"
    and "\<And>i. bit res i \<Longrightarrow> i < 8 * unat len" "bit x j"
  shows "j < 8 * unat len"
  using assms
proof (induction k arbitrary: res b)
  case (Suc k)
  let ?s = "unat ((len - 1 - (len - of_nat (Suc k))) * 8)"
  have "len - 1 - (len - of_nat (Suc k)) = of_nat k" by simp
  moreover have "unat (of_nat k :: u8) = k" using Suc.prems(2,3) by (simp add: unat_of_nat take_bit_nat_eq_self)
  ultimately have s: "?s = 8 * k" using Suc.prems(2,3) by (simp add: unat_word_ariths)
  obtain bt b' where b: "b = bt # b'"
    and rec: "be_ReadUintN_loop len k (res XOR push_bit ?s (ucast bt)) b' = Inr (x, r)"
    using Suc.prems(1) by (auto simp: Let_def simp del: of_nat_Suc)
  have "i < 8 * unat len" if "bit (res XOR push_bit ?s (ucast bt)) i" for i
    by (rule bit_xor_byte_less [OF that Suc.prems(4)]) (use Suc.prems(2) s in linarith)+
  from Suc.IH [OF rec _ Suc.prems(3) this Suc.prems(5)] Suc.prems(2) show ?case by simp
qed simp

lemma unat_less_of_bits:
  fixes x :: u64
  assumes "\<And>j. bit x j \<Longrightarrow> j < n"
  shows "unat x < 2 ^ n"
proof -
  have "take_bit n x = x" using assms by (intro bit_eqI) (auto simp: bit_simps)
  then show ?thesis by (metis take_bit_nat_less_exp unsigned_take_bit_eq)
qed

lemma be_ReadUintN_bound: "be_ReadUintN b n = Inr (x, r) \<Longrightarrow> unat n \<le> 8 \<Longrightarrow> unat x < 2 ^ (8 * unat n)"
  by (rule unat_less_of_bits, rule be_ReadUintN_loop_bound) (auto simp: be_ReadUintN_def)

lemma le_ReadUintN_bound: "le_ReadUintN b n = Inr (x, r) \<Longrightarrow> unat n \<le> 8 \<Longrightarrow> unat x < 2 ^ (8 * unat n)"
  by (rule unat_less_of_bits, rule le_ReadUintN_loop_bound) (auto simp: le_ReadUintN_def)
lemma be_short_writes:
  "unat x < 2 ^ 56 \<Longrightarrow> be_WriteUint56 x = Inr (rev (le_bytes 7 x))"
  "unat x < 2 ^ 48 \<Longrightarrow> be_WriteUint48 x = Inr (rev (le_bytes 6 x))"
  "unat x < 2 ^ 40 \<Longrightarrow> be_WriteUint40 x = Inr (rev (le_bytes 5 x))"
  "unat y < 2 ^ 24 \<Longrightarrow> be_WriteUint24 y = Inr (rev (le_bytes 3 (ucast y)))"
  by (simp_all add: be_WriteUint56_def be_WriteUint48_def be_WriteUint40_def be_WriteUint24_def
      word_le_nat_alt le_bytes_expand)

lemma le_short_writes:
  "unat x < 2 ^ 56 \<Longrightarrow> le_WriteUint56 x = Inr (le_bytes 7 x)"
  "unat x < 2 ^ 48 \<Longrightarrow> le_WriteUint48 x = Inr (le_bytes 6 x)"
  "unat x < 2 ^ 40 \<Longrightarrow> le_WriteUint40 x = Inr (le_bytes 5 x)"
  "unat y < 2 ^ 24 \<Longrightarrow> le_WriteUint24 y = Inr (le_bytes 3 (ucast y))"
  by (simp_all add: le_WriteUint56_def le_WriteUint48_def le_WriteUint40_def le_WriteUint24_def
      word_le_nat_alt le_bytes_expand)

lemma be_full_writes:
  "be_WriteUint64 x = rev (le_bytes 8 x)"
  "be_WriteUint32 y = rev (le_bytes 4 (ucast y))"
  "be_WriteUint16 z = rev (le_bytes 2 (ucast z))"
  by (simp_all add: be_WriteUint64_def be_WriteUint32_def be_WriteUint16_def le_bytes_expand)

lemma le_full_writes:
  "le_WriteUint64 x = le_bytes 8 x"
  "le_WriteUint32 y = le_bytes 4 (ucast y)"
  "le_WriteUint16 z = le_bytes 2 (ucast z)"
  by (simp_all add: le_WriteUint64_def le_WriteUint32_def le_WriteUint16_def le_bytes_expand)

lemma take_bit_ucast_ids:
  "take_bit 32 (ucast (y :: u32) :: u64) = ucast y"
  "take_bit 16 (ucast (z :: u16) :: u64) = ucast z"
  by (rule bit_eqI; auto simp: bit_simps dest: bit_imp_le_length)+

lemma unat_ucast_32_64 [simp]: "unat (ucast (y :: u32) :: u64) = unat y"
  by (simp add: unsigned_ucast_eq take_bit_nat_eq_self unsigned_less [THEN less_le_trans])

interpretation be: byte_order be_ReadUintN be_ReadUint64 be_ReadUint32 be_ReadUint16
  be_WriteUint64 be_WriteUint56 be_WriteUint48 be_WriteUint40
  be_WriteUint32 be_WriteUint24 be_WriteUint16
proof unfold_locales
  show "unat x < 2 ^ (8 * unat n)" if "be_ReadUintN bs n = Inr (x, r)" "unat n \<le> 8" for bs r :: bytes and n x
    using that by (rule be_ReadUintN_bound)
  show "length bs = unat n + length r" if "be_ReadUintN bs n = Inr (x, r)" for bs r :: bytes and n x
    using that by (simp add: be_ReadUintN_def be_ReadUintN_loop_consumes)
  show "length bs = 8 + length r" if "be_ReadUint64 bs = Inr (x, r)" for bs r :: bytes and x
    using that by (auto simp: be_ReadUint64_def)
  show "length bs = 4 + length r" if "be_ReadUint32 bs = Inr (x, r)" for bs r :: bytes and x
    using that by (auto simp: be_ReadUint32_def)
  show "length bs = 2 + length r" if "be_ReadUint16 bs = Inr (x, r)" for bs r :: bytes and x
    using that by (auto simp: be_ReadUint16_def)
  fix x :: u64 and y :: u32 and z :: u16 and b :: u8 and r :: bytes
  show "be_ReadUintN r 0 = Inr (0, r)" "be_ReadUintN (b # r) 1 = Inr (ucast b, r)"
    by (simp_all add: be_ReadUintN_def)
  show "be_ReadUint64 (be_WriteUint64 x @ r) = Inr (x, r)"
    by (simp add: be_ReadUint64_def be_WriteUint64_def join64)
  show "be_ReadUint32 (be_WriteUint32 y @ r) = Inr (y, r)"
    by (simp add: be_ReadUint32_def be_WriteUint32_def join32)
  show "be_ReadUint16 (be_WriteUint16 z @ r) = Inr (z, r)"
    by (simp add: be_ReadUint16_def be_WriteUint16_def join16)
  show "be_ReadUintN (be_WriteUint64 x @ r) 8 = Inr (x, r)"
    using be_ReadUintN_bytes [of 8 x r] by (simp add: be_full_writes)
  show "be_ReadUintN (be_WriteUint32 y @ r) 4 = Inr (ucast y, r)"
    using be_ReadUintN_bytes [of 4 "ucast y" r] by (simp add: be_full_writes take_bit_ucast_ids)
  show "be_ReadUintN (be_WriteUint16 z @ r) 2 = Inr (ucast z, r)"
    using be_ReadUintN_bytes [of 2 "ucast z" r] by (simp add: be_full_writes take_bit_ucast_ids)
  show "length (be_WriteUint64 x) = 8" "length (be_WriteUint32 y) = 4" "length (be_WriteUint16 z) = 2"
    by (simp_all add: be_full_writes)
  show "\<exists>bs. be_WriteUint56 x = Inr bs \<and> length bs = 7 \<and> (\<forall>r. be_ReadUintN (bs @ r) 7 = Inr (x, r))"
    if "unat x < 2 ^ 56"
    using that be_ReadUintN_bytes [of 7 x] by (simp add: be_short_writes take_bit_word_self)
  show "\<exists>bs. be_WriteUint48 x = Inr bs \<and> length bs = 6 \<and> (\<forall>r. be_ReadUintN (bs @ r) 6 = Inr (x, r))"
    if "unat x < 2 ^ 48"
    using that be_ReadUintN_bytes [of 6 x] by (simp add: be_short_writes take_bit_word_self)
  show "\<exists>bs. be_WriteUint40 x = Inr bs \<and> length bs = 5 \<and> (\<forall>r. be_ReadUintN (bs @ r) 5 = Inr (x, r))"
    if "unat x < 2 ^ 40"
    using that be_ReadUintN_bytes [of 5 x] by (simp add: be_short_writes take_bit_word_self)
  show "\<exists>bs. be_WriteUint24 y = Inr bs \<and> length bs = 3
      \<and> (\<forall>r. be_ReadUintN (bs @ r) 3 = Inr (ucast y, r))" if "unat y < 2 ^ 24"
    using that be_ReadUintN_bytes [of 3 "ucast y"] by (simp add: be_short_writes take_bit_word_self)
qed

interpretation le: byte_order le_ReadUintN le_ReadUint64 le_ReadUint32 le_ReadUint16
  le_WriteUint64 le_WriteUint56 le_WriteUint48 le_WriteUint40
  le_WriteUint32 le_WriteUint24 le_WriteUint16
proof unfold_locales
  show "unat x < 2 ^ (8 * unat n)" if "le_ReadUintN bs n = Inr (x, r)" "unat n \<le> 8" for bs r :: bytes and n x
    using that by (rule le_ReadUintN_bound)
  show "length bs = unat n + length r" if "le_ReadUintN bs n = Inr (x, r)" for bs r :: bytes and n x
    using that by (simp add: le_ReadUintN_def le_ReadUintN_loop_consumes)
  show "length bs = 8 + length r" if "le_ReadUint64 bs = Inr (x, r)" for bs r :: bytes and x
    using that by (auto simp: le_ReadUint64_def)
  show "length bs = 4 + length r" if "le_ReadUint32 bs = Inr (x, r)" for bs r :: bytes and x
    using that by (auto simp: le_ReadUint32_def)
  show "length bs = 2 + length r" if "le_ReadUint16 bs = Inr (x, r)" for bs r :: bytes and x
    using that by (auto simp: le_ReadUint16_def)
  fix x :: u64 and y :: u32 and z :: u16 and b :: u8 and r :: bytes
  show "le_ReadUintN r 0 = Inr (0, r)" "le_ReadUintN (b # r) 1 = Inr (ucast b, r)"
    by (simp_all add: le_ReadUintN_def)
  show "le_ReadUint64 (le_WriteUint64 x @ r) = Inr (x, r)"
    by (simp add: le_ReadUint64_def le_WriteUint64_def join64)
  show "le_ReadUint32 (le_WriteUint32 y @ r) = Inr (y, r)"
    by (simp add: le_ReadUint32_def le_WriteUint32_def join32)
  show "le_ReadUint16 (le_WriteUint16 z @ r) = Inr (z, r)"
    by (simp add: le_ReadUint16_def le_WriteUint16_def join16)
  show "le_ReadUintN (le_WriteUint64 x @ r) 8 = Inr (x, r)"
    using le_ReadUintN_bytes [of 8 x r] by (simp add: le_full_writes)
  show "le_ReadUintN (le_WriteUint32 y @ r) 4 = Inr (ucast y, r)"
    using le_ReadUintN_bytes [of 4 "ucast y" r] by (simp add: le_full_writes take_bit_ucast_ids)
  show "le_ReadUintN (le_WriteUint16 z @ r) 2 = Inr (ucast z, r)"
    using le_ReadUintN_bytes [of 2 "ucast z" r] by (simp add: le_full_writes take_bit_ucast_ids)
  show "length (le_WriteUint64 x) = 8" "length (le_WriteUint32 y) = 4" "length (le_WriteUint16 z) = 2"
    by (simp_all add: le_full_writes)
  show "\<exists>bs. le_WriteUint56 x = Inr bs \<and> length bs = 7 \<and> (\<forall>r. le_ReadUintN (bs @ r) 7 = Inr (x, r))"
    if "unat x < 2 ^ 56"
    using that le_ReadUintN_bytes [of 7 x] by (simp add: le_short_writes take_bit_word_self)
  show "\<exists>bs. le_WriteUint48 x = Inr bs \<and> length bs = 6 \<and> (\<forall>r. le_ReadUintN (bs @ r) 6 = Inr (x, r))"
    if "unat x < 2 ^ 48"
    using that le_ReadUintN_bytes [of 6 x] by (simp add: le_short_writes take_bit_word_self)
  show "\<exists>bs. le_WriteUint40 x = Inr bs \<and> length bs = 5 \<and> (\<forall>r. le_ReadUintN (bs @ r) 5 = Inr (x, r))"
    if "unat x < 2 ^ 40"
    using that le_ReadUintN_bytes [of 5 x] by (simp add: le_short_writes take_bit_word_self)
  show "\<exists>bs. le_WriteUint24 y = Inr bs \<and> length bs = 3
      \<and> (\<forall>r. le_ReadUintN (bs @ r) 3 = Inr (ucast y, r))" if "unat y < 2 ^ 24"
    using that le_ReadUintN_bytes [of 3 "ucast y"] by (simp add: le_short_writes take_bit_word_self)
qed

interpretation bo: byte_order "ReadUintN ord" "ReadUint64 ord" "ReadUint32 ord" "ReadUint16 ord"
  "WriteUint64 ord" "WriteUint56 ord" "WriteUint48 ord" "WriteUint40 ord"
  "WriteUint32 ord" "WriteUint24 ord" "WriteUint16 ord" for ord
proof (cases ord)
  case LittleEndian
  then show "byte_order (ReadUintN ord) (ReadUint64 ord) (ReadUint32 ord) (ReadUint16 ord)
    (WriteUint64 ord) (WriteUint56 ord) (WriteUint48 ord) (WriteUint40 ord)
    (WriteUint32 ord) (WriteUint24 ord) (WriteUint16 ord)"
    using le.byte_order_axioms by simp
next
  case BigEndian
  then show "byte_order (ReadUintN ord) (ReadUint64 ord) (ReadUint32 ord) (ReadUint16 ord)
    (WriteUint64 ord) (WriteUint56 ord) (WriteUint48 ord) (WriteUint40 ord)
    (WriteUint32 ord) (WriteUint24 ord) (WriteUint16 ord)"
    using be.byte_order_axioms by simp
qed

lemmas bo_codec [simp] =
  bo.readN_0 bo.readN_1 bo.read64_write64 bo.read32_write32 bo.read16_write16
  bo.readN_write64 bo.readN_write32 bo.readN_write16
  bo.length_write64 bo.length_write32 bo.length_write16

lemmas bo_consumes = bo.readN_consumes bo.read64_consumes bo.read32_consumes bo.read16_consumes

text \<open>The readers fail with an error at the end of the input, and never panic.\<close>

lemma no_panic_readN_loop:
  "no_panic (be_ReadUintN_loop len k res b)" "no_panic (le_ReadUintN_loop len k res b)"
  by (induction k arbitrary: res b) (auto simp: no_panic_rules Let_def)

lemma no_panic_read [no_panic_rules]:
  "no_panic (ReadUintN ord b len)" "no_panic (ReadUint64 ord b)"
  "no_panic (ReadUint32 ord b)" "no_panic (ReadUint16 ord b)"
  by (cases ord; auto simp: no_panic_rules be_ReadUintN_def le_ReadUintN_def no_panic_readN_loop
      be_ReadUint64_def le_ReadUint64_def be_ReadUint32_def le_ReadUint32_def be_ReadUint16_def le_ReadUint16_def)+

section \<open>The 16-bit floating point format\<close>

definition uFloat16MantissaBits :: nat where "uFloat16MantissaBits = 11"
definition uFloat16MantissaEffectiveBits :: nat where "uFloat16MantissaEffectiveBits = 12"
definition uFloat16MaxValue :: u64 where "uFloat16MaxValue = 0x3FFC0000000"

text \<open>The value a 16-bit pattern stands for, and the reader of such a value.\<close>

definition ufloat16_decode :: "u16 \<Rightarrow> u64" where
  "ufloat16_decode val =
     (let res = ucast val :: u64 in
      if res < 2 ^ uFloat16MantissaEffectiveBits then res
      else
        let exponent = drop_bit uFloat16MantissaBits val - 1;
            res = res - push_bit uFloat16MantissaBits (ucast exponent)
        in push_bit (unat exponent) res)"

definition readUfloat16 :: "ByteOrder \<Rightarrow> bytes \<Rightarrow> (u64 \<times> bytes) result" where
  "readUfloat16 byteOrder b =
     andThen (ReadUint16 byteOrder b) (\<lambda>(val, b). Inr (ufloat16_decode val, b))"

lemma no_panic_readUfloat16 [no_panic_rules]: "no_panic (readUfloat16 ord b)"
  by (auto simp: readUfloat16_def no_panic_rules)

lemma unat_half_less: "(0 :: u16) < offset \<Longrightarrow> unat (offset div 2) < unat offset"
  by (simp add: unat_div word_less_nat_alt)

text \<open>The binary search for the exponent: \<^verbatim>\<open>for offset := uint16(16); offset > 0; offset /= 2\<close>.\<close>

function ufloat16_normalize :: "u16 \<Rightarrow> u16 \<Rightarrow> u64 \<Rightarrow> u16 \<times> u64" where
  "ufloat16_normalize offset exponent value =
     (if offset > 0 then
        (if value \<ge> push_bit (uFloat16MantissaBits + unat offset) 1
         then ufloat16_normalize (offset div 2) (exponent + offset) (drop_bit (unat offset) value)
         else ufloat16_normalize (offset div 2) exponent value)
      else (exponent, value))"
  by pat_completeness auto
termination
  by (relation "measure (\<lambda>(offset, exponent, value). unat offset)")
    (simp_all add: unat_half_less)

declare ufloat16_normalize.simps [simp del]

definition ufloat16_encode :: "u64 \<Rightarrow> u16" where
  "ufloat16_encode value =
     (if value < 2 ^ uFloat16MantissaEffectiveBits then ucast value
      else if value \<ge> uFloat16MaxValue then 0xFFFF
      else
        let (exponent, value) = ufloat16_normalize 16 0 value
        in ucast value + push_bit uFloat16MantissaBits exponent)"

definition writeUfloat16 :: "ByteOrder \<Rightarrow> u64 \<Rightarrow> bytes" where
  "writeUfloat16 byteOrder value = WriteUint16 byteOrder (ufloat16_encode value)"

subsection \<open>Rounding of the format\<close>

lemma unat_push_bit_one: "n < 64 \<Longrightarrow> unat (push_bit n 1 :: u64) = 2 ^ n"
  unfolding unsigned_push_bit_eq by (simp add: take_bit_nat_eq_self)

lemma ufloat16_normalize_bounds:
  assumes "unat offset = 2 ^ j" "j \<le> 4" "2 ^ 11 \<le> unat x" "unat x < 2 ^ (11 + 2 * 2 ^ j)"
    and "unat exponent + 2 * 2 ^ j \<le> 64"
  shows "\<exists>d e v. ufloat16_normalize offset exponent x = (e, v) \<and> unat e = unat exponent + d
    \<and> unat v = unat x div 2 ^ d \<and> 2 ^ 11 \<le> unat v \<and> unat v < 2 ^ 12 \<and> d < 2 * 2 ^ j"
  using assms
proof (induction j arbitrary: offset exponent x)
  case 0
  then have off: "offset = 1" by (simp add: word_unat_eq_iff)
  have half: "(1 :: u16) div 2 = 0" by (simp add: word_arith_nat_div)
  have e1: "unat (exponent + 1) = unat exponent + 1"
    using 0 by (simp add: unat_word_ariths)
  have ge: "(4096 \<le> x) = (4096 \<le> unat x)"
    by (simp add: word_le_nat_alt)
  show ?case
  proof (cases "4096 \<le> unat x")
    case True
    then have "ufloat16_normalize offset exponent x = (exponent + 1, drop_bit 1 x)"
      by (simp add: off ufloat16_normalize.simps [of 1] ufloat16_normalize.simps [of 0] half ge uFloat16MantissaBits_def)
    moreover have "unat (drop_bit 1 x) = unat x div 2 ^ 1"
      by (simp add: unat_drop_bit_eq drop_bit_eq_div unat_div)
    ultimately show ?thesis using True 0 e1
      by (intro exI [of _ "1::nat"] exI [of _ "exponent + 1"] exI [of _ "drop_bit 1 x"]) (simp, linarith)
  next
    case False
    then have "ufloat16_normalize offset exponent x = (exponent, x)"
      by (simp add: off ufloat16_normalize.simps [of 1] ufloat16_normalize.simps [of 0] half ge uFloat16MantissaBits_def)
    with False 0 show ?thesis
      by (intro exI [of _ "0::nat"] exI [of _ exponent] exI [of _ x]) simp
  qed
next
  case (Suc j)
  let ?o = "2 ^ Suc j :: nat"
  have o64: "?o \<le> 16" using Suc.prems(2) power_increasing [of "Suc j" 4 "2::nat"] by simp
  have pos: "0 < offset" using Suc.prems(1) by (simp add: word_less_nat_alt)
  have half: "unat (offset div 2) = 2 ^ j" using Suc.prems(1) by (simp add: unat_div)
  have ge: "(push_bit (uFloat16MantissaBits + unat offset) 1 \<le> x) = (2 ^ (11 + ?o) \<le> unat x)"
  proof -
    have "unat (push_bit (11 + ?o) 1 :: u64) = 2 ^ (11 + ?o)"
      using o64 by (intro unat_push_bit_one) linarith
    then show ?thesis by (simp add: uFloat16MantissaBits_def word_le_nat_alt Suc.prems(1))
  qed
  show ?case
  proof (cases "2 ^ (11 + ?o) \<le> unat x")
    case True
    have step: "ufloat16_normalize offset exponent x
        = ufloat16_normalize (offset div 2) (exponent + offset) (drop_bit (unat offset) x)"
      using pos True ge by (subst ufloat16_normalize.simps) simp
    have v: "unat (drop_bit (unat offset) x) = unat x div 2 ^ ?o"
      unfolding unat_drop_bit_eq by (simp add: drop_bit_eq_div Suc.prems(1))
    have e: "unat (exponent + offset) = unat exponent + ?o"
      using Suc.prems o64 by (simp add: unat_word_ariths)
    have b1: "2 ^ 11 \<le> unat x div 2 ^ ?o"
      using True by (subst less_eq_div_iff_mult_less_eq) (simp_all add: power_add)
    have b2: "unat x div 2 ^ ?o < 2 ^ (11 + 2 * 2 ^ j)"
      by (rule less_mult_imp_div_less) (use Suc.prems(4) in \<open>simp flip: power_add add: algebra_simps\<close>)
    obtain d e' v' where "ufloat16_normalize (offset div 2) (exponent + offset) (drop_bit (unat offset) x) = (e', v')"
      "unat e' = unat (exponent + offset) + d" "unat v' = unat (drop_bit (unat offset) x) div 2 ^ d"
      "2 ^ 11 \<le> unat v'" "unat v' < 2 ^ 12" "d < 2 * 2 ^ j"
      using Suc.IH [OF half, of "drop_bit (unat offset) x" "exponent + offset"] Suc.prems b1 b2 v e
      by auto
    then show ?thesis
      using v e step by (intro exI [of _ "?o + d"] exI [of _ e'] exI [of _ v']) (simp add: div_mult2_eq power_add)
  next
    case False
    have step: "ufloat16_normalize offset exponent x = ufloat16_normalize (offset div 2) exponent x"
      using pos False ge by (subst ufloat16_normalize.simps) simp
    show ?thesis using Suc.IH [OF half, of x exponent] Suc.prems False step by fastforce
  qed
qed

lemma unat_ufloat16_decode:
  "unat (ufloat16_decode w) =
     (if unat w < 4096 then unat w else (unat w mod 2048 + 2048) * 2 ^ (unat w div 2048 - 1))"
proof (cases "unat w < 4096")
  case True
  then show ?thesis
    by (simp add: ufloat16_decode_def Let_def uFloat16MantissaEffectiveBits_def word_less_nat_alt
        unsigned_ucast_eq take_bit_nat_eq_self)
next
  case False
  let ?e = "unat w div 2048 - 1"
  have w16: "unat w < 65536" using unsigned_less [of w] by simp
  have "unat (drop_bit 11 w) = unat w div 2048"
    unfolding unat_drop_bit_eq by (simp add: drop_bit_eq_div)
  with False have e: "unat (drop_bit 11 w - 1) = ?e"
    by (subst unat_sub) (simp_all add: word_le_nat_alt)
  have "unat (push_bit 11 (ucast (drop_bit 11 w - 1)) :: u64) = 2048 * ?e"
    unfolding unsigned_push_bit_eq using e w16
    by (simp add: push_bit_eq_mult unsigned_ucast_eq take_bit_nat_eq_self)
  moreover have mod: "2048 * ?e + (unat w mod 2048 + 2048) = unat w"
    using False div_mult_mod_eq [of "unat w" 2048] by (simp add: algebra_simps)
  ultimately have m: "unat (ucast w - push_bit 11 (ucast (drop_bit 11 w - 1)) :: u64) = unat w mod 2048 + 2048"
    using w16 by (subst unat_sub) (simp_all add: word_le_nat_alt unsigned_ucast_eq take_bit_nat_eq_self)
  have "?e \<le> 30" using w16 by linarith
  then have "(unat w mod 2048 + 2048) * 2 ^ ?e < 4096 * 2 ^ 30"
    using power_increasing [of ?e 30 "2::nat"] by (intro mult_less_le_imp_less) simp_all
  then have "unat (push_bit ?e (ucast w - push_bit 11 (ucast (drop_bit 11 w - 1))) :: u64)
      = (unat w mod 2048 + 2048) * 2 ^ ?e"
    unfolding unsigned_push_bit_eq m by (simp add: push_bit_eq_mult take_bit_nat_eq_self)
  with False e w16 show ?thesis
    by (simp add: ufloat16_decode_def Let_def uFloat16MantissaEffectiveBits_def
        uFloat16MantissaBits_def word_less_nat_alt unsigned_ucast_eq take_bit_nat_eq_self)
qed

lemma unat_ufloat16_encode:
  assumes "4096 \<le> unat v" "v < uFloat16MaxValue"
  shows "\<exists>d. unat (ufloat16_encode v) = unat v div 2 ^ d + 2048 * d
    \<and> 2048 \<le> unat v div 2 ^ d \<and> unat v div 2 ^ d < 4096 \<and> 1 \<le> d \<and> d \<le> 30"
proof -
  have max: "unat v < 4095 * 2 ^ 30"
    using assms(2) by (simp add: uFloat16MaxValue_def word_less_nat_alt)
  with assms(1) obtain d e x where n: "ufloat16_normalize 16 0 v = (e, x)" and "unat e = d"
    and x: "unat x = unat v div 2 ^ d" "2 ^ 11 \<le> unat x" "unat x < 2 ^ 12" and "d < 32"
    using ufloat16_normalize_bounds [of 16 4 v 0] by auto
  have "d \<le> 30"
  proof (rule ccontr)
    assume "\<not> d \<le> 30"
    with \<open>d < 32\<close> have "d = 31" by simp
    with x max show False by simp
  qed
  have "d \<noteq> 0" using x assms(1) by (intro notI) simp
  have "unat (push_bit 11 e) = 2048 * d"
    unfolding unsigned_push_bit_eq
    using \<open>d \<le> 30\<close> \<open>unat e = d\<close> by (simp add: push_bit_eq_mult take_bit_nat_eq_self)
  then have "unat (ucast x + push_bit 11 e) = unat x + 2048 * d"
    using x \<open>d \<le> 30\<close>
    by (simp add: unat_word_ariths unsigned_ucast_eq take_bit_nat_eq_self)
  then show ?thesis
    using n x \<open>d \<le> 30\<close> \<open>d \<noteq> 0\<close> assms
    by (intro exI [of _ d]) (auto simp: ufloat16_encode_def uFloat16MantissaEffectiveBits_def
        uFloat16MantissaBits_def word_less_nat_alt word_le_nat_alt)
qed

lemma ufloat16_encode_small:
  "unat v < 4096 \<Longrightarrow> unat (ufloat16_encode v) = unat v"
  by (simp add: ufloat16_encode_def uFloat16MantissaEffectiveBits_def word_less_nat_alt
      unsigned_ucast_eq take_bit_nat_eq_self)

lemma ufloat16_encode_max:
  "uFloat16MaxValue \<le> v \<Longrightarrow> ufloat16_encode v = 0xFFFF"
  by (simp add: ufloat16_encode_def uFloat16MantissaEffectiveBits_def uFloat16MaxValue_def
      word_less_nat_alt word_le_nat_alt)

lemma binary_exponent_unique:
  fixes k x :: nat
  assumes "k * 2 ^ d \<le> x" "x < 2 * k * 2 ^ d" "k * 2 ^ e \<le> x" "x < 2 * k * 2 ^ e"
  shows "d = e"
proof -
  have False if "a < b" "x < 2 * k * 2 ^ a" "k * 2 ^ b \<le> x" for a b :: nat
  proof -
    have "2 * k * 2 ^ a \<le> k * 2 ^ b"
      using power_increasing [of "Suc a" b "2::nat"] that(1) by (simp add: Suc_leI)
    with that show False by simp
  qed
  with assms show ?thesis by (metis nat_neq_iff)
qed

lemma ufloat16_rounding:
  assumes "v < uFloat16MaxValue"
  shows "unat (ufloat16_decode (ufloat16_encode v)) \<le> unat v
    \<and> 2048 * (unat v - unat (ufloat16_decode (ufloat16_encode v))) \<le> unat v
    \<and> (unat v < 4096 \<longrightarrow> ufloat16_decode (ufloat16_encode v) = v)"
proof (cases "unat v < 4096")
  case True
  then show ?thesis
    by (simp add: word_unat_eq_iff unat_ufloat16_decode ufloat16_encode_small)
next
  case False
  then obtain d where w: "unat (ufloat16_encode v) = unat v div 2 ^ d + 2048 * d"
    and b: "2048 \<le> unat v div 2 ^ d" "unat v div 2 ^ d < 4096" "1 \<le> d"
    using unat_ufloat16_encode [of v] assms by auto
  have q: "unat v div 2 ^ d = 2048 + unat v div 2 ^ d mod 2048"
    using b(1,2) by (simp add: le_mod_geq)
  then have "(unat v div 2 ^ d + 2048 * d) div 2048 = 1 + d" using b by simp
  with b w q have dec: "unat (ufloat16_decode (ufloat16_encode v)) = unat v div 2 ^ d * 2 ^ d"
    by (simp add: unat_ufloat16_decode)
  have "unat v - unat v div 2 ^ d * 2 ^ d < 2 ^ d"
    by (simp add: minus_div_mult_eq_mod)
  moreover have "2048 * 2 ^ d \<le> unat v"
    using b(1) by (simp add: less_eq_div_iff_mult_less_eq)
  ultimately show ?thesis using False dec by (simp add: div_times_less_eq_dividend)
qed

text \<open>C23. Encoding a value below the maximum as a 16-bit float and reading it back never
  increases it, loses at most one part in 2048, and is exact below 4096.\<close>

theorem ufloat16_error_bound:
  assumes "v < uFloat16MaxValue"
  shows "unat (ufloat16_decode (ufloat16_encode v)) \<le> unat v
    \<and> 2048 * (unat v - unat (ufloat16_decode (ufloat16_encode v))) \<le> unat v
    \<and> (unat v < 4096 \<longrightarrow> ufloat16_decode (ufloat16_encode v) = v)"
  using ufloat16_rounding [OF assms] .

lemma ufloat16_error_bound_witness:
  "(5001 :: u64) < uFloat16MaxValue
    \<and> unat (ufloat16_decode (ufloat16_encode 5001)) \<le> 5001
    \<and> 2048 * (5001 - unat (ufloat16_decode (ufloat16_encode 5001))) \<le> 5001"
  using ufloat16_error_bound [of 5001] by (simp add: uFloat16MaxValue_def)

text \<open>Every 16-bit pattern is the encoding of the value it stands for, so that no two
  patterns share a value and writing a value that was read gives the same bytes.\<close>

theorem ufloat16_encode_decode: "ufloat16_encode (ufloat16_decode w) = w"
proof (cases "unat w < 4096")
  case True
  then show ?thesis
    by (simp add: word_unat_eq_iff unat_ufloat16_decode ufloat16_encode_small)
next
  case False
  let ?v = "ufloat16_decode w" and ?e = "unat w div 2048 - 1" and ?m = "unat w mod 2048 + 2048"
  have v: "unat ?v = ?m * 2 ^ ?e" using False by (simp add: unat_ufloat16_decode)
  have w: "unat w = 2048 * ?e + ?m"
    using False div_mult_mod_eq [of "unat w" 2048] by (simp add: algebra_simps)
  have w16: "unat w < 65536" using unsigned_less [of w] by simp
  have e: "1 \<le> ?e" "?e \<le> 30" using w16 False by linarith+
  show ?thesis
  proof (cases "?v < uFloat16MaxValue")
    case True
    have "4096 \<le> unat ?v"
      unfolding v using e mult_le_mono [of 2048 ?m 2 "2 ^ ?e"] power_increasing [of 1 ?e "2::nat"] by simp
    with True obtain d where enc: "unat (ufloat16_encode ?v) = unat ?v div 2 ^ d + 2048 * d"
      and b: "2048 \<le> unat ?v div 2 ^ d" "unat ?v div 2 ^ d < 4096"
      using unat_ufloat16_encode [of ?v] by auto
    have "d = ?e"
      by (rule binary_exponent_unique [where k = 2048 and x = "unat ?v"])
        (use b in \<open>simp_all add: v div_less_iff_less_mult less_eq_div_iff_mult_less_eq\<close>)
    with enc v w show ?thesis by (simp add: word_unat_eq_iff)
  next
    case False
    then have "4095 * 2 ^ 30 \<le> ?m * 2 ^ ?e" 
      using v by (simp add: uFloat16MaxValue_def word_le_nat_alt not_less)
    moreover have "?e = 30"
    proof (rule ccontr)
      assume "?e \<noteq> 30"
      with e have "?m * 2 ^ ?e \<le> 4095 * 2 ^ 29"
        by (intro mult_le_mono power_increasing) linarith+
      with calculation show False by simp
    qed
    ultimately have "unat w = 65535" using w by simp
    with False show ?thesis by (simp add: word_unat_eq_iff ufloat16_encode_max)
  qed
qed

end
