(* ===== verification/Protocol_Numbers.thy ===== *)
theory Protocol_Numbers
  imports Byte_Order
begin

text \<open>Numbers of the protocol: packet number inference and the length of an encoded packet
  number (\<^verbatim>\<open>internal/protocol/packet_number.go\<close>), versions and their tags
  (\<^verbatim>\<open>internal/protocol/version.go\<close>), the minimum and maximum helpers
  (\<^verbatim>\<open>internal/utils/minmax.go\<close>), and the packet number generator
  (\<^verbatim>\<open>packet_number_generator.go\<close>).\<close>

section \<open>Minimum and maximum\<close>

definition InfDuration :: duration where "InfDuration = maxInt64"

definition Max_int :: "int \<Rightarrow> int \<Rightarrow> int" where "Max_int a b = (if a < b then b else a)"
definition MaxUint32 :: "u32 \<Rightarrow> u32 \<Rightarrow> u32" where "MaxUint32 a b = (if a < b then b else a)"
definition MaxUint64 :: "u64 \<Rightarrow> u64 \<Rightarrow> u64" where "MaxUint64 a b = (if a < b then b else a)"
definition MinUint64 :: "u64 \<Rightarrow> u64 \<Rightarrow> u64" where "MinUint64 a b = (if a < b then a else b)"
definition Min_int :: "int \<Rightarrow> int \<Rightarrow> int" where "Min_int a b = (if a < b then a else b)"
definition MinUint32 :: "u32 \<Rightarrow> u32 \<Rightarrow> u32" where "MinUint32 a b = (if a < b then a else b)"
definition MinInt64 :: "int \<Rightarrow> int \<Rightarrow> int" where "MinInt64 a b = (if a < b then a else b)"
definition MaxInt64 :: "int \<Rightarrow> int \<Rightarrow> int" where "MaxInt64 a b = (if a > b then a else b)"
definition MinByteCount :: "ByteCount \<Rightarrow> ByteCount \<Rightarrow> ByteCount" where
  "MinByteCount a b = (if a < b then a else b)"
definition MaxByteCount :: "ByteCount \<Rightarrow> ByteCount \<Rightarrow> ByteCount" where
  "MaxByteCount a b = (if a > b then a else b)"
definition MaxDuration :: "duration \<Rightarrow> duration \<Rightarrow> duration" where
  "MaxDuration a b = (if a > b then a else b)"
definition MinDuration :: "duration \<Rightarrow> duration \<Rightarrow> duration" where
  "MinDuration a b = (if a > b then b else a)"
definition AbsDuration :: "duration \<Rightarrow> duration" where
  "AbsDuration d = (if d \<ge> 0 then d else i64 (- d))"
definition MinTime :: "gotime \<Rightarrow> gotime \<Rightarrow> gotime" where
  "MinTime a b = (if a > b then b else a)"
definition MaxTime :: "gotime \<Rightarrow> gotime \<Rightarrow> gotime" where
  "MaxTime a b = (if a > b then a else b)"
definition MaxPacketNumber :: "PacketNumber \<Rightarrow> PacketNumber \<Rightarrow> PacketNumber" where
  "MaxPacketNumber a b = (if a > b then a else b)"
definition MinPacketNumber :: "PacketNumber \<Rightarrow> PacketNumber \<Rightarrow> PacketNumber" where
  "MinPacketNumber a b = (if a < b then a else b)"

lemma minmax_simps [simp]:
  "Max_int a b = max a b" "MaxUint32 x y = max x y" "MaxUint64 u v = max u v"
  "MinUint64 u v = min u v" "Min_int a b = min a b" "MinUint32 x y = min x y"
  "MinInt64 a b = min a b" "MaxInt64 a b = max a b" "MinByteCount u v = min u v"
  "MaxByteCount u v = max u v" "MaxDuration a b = max a b" "MinDuration a b = min a b"
  "MinTime a b = min a b" "MaxTime a b = max a b" "MaxPacketNumber u v = max u v"
  "MinPacketNumber u v = min u v"
  by (auto simp: Max_int_def MaxUint32_def MaxUint64_def MinUint64_def Min_int_def MinUint32_def
      MinInt64_def MaxInt64_def MinByteCount_def MaxByteCount_def MaxDuration_def MinDuration_def
      MinTime_def MaxTime_def MaxPacketNumber_def MinPacketNumber_def max_def min_def)

section \<open>Packet numbers\<close>

abbreviation (input) PacketNumberLen1 :: PacketNumberLen where "PacketNumberLen1 \<equiv> 1"
abbreviation (input) PacketNumberLen2 :: PacketNumberLen where "PacketNumberLen2 \<equiv> 2"
abbreviation (input) PacketNumberLen4 :: PacketNumberLen where "PacketNumberLen4 \<equiv> 4"
abbreviation (input) PacketNumberLen6 :: PacketNumberLen where "PacketNumberLen6 \<equiv> 6"

definition delta :: "PacketNumber \<Rightarrow> PacketNumber \<Rightarrow> PacketNumber" where
  "delta a b = (if a < b then b - a else a - b)"

definition closestTo :: "PacketNumber \<Rightarrow> PacketNumber \<Rightarrow> PacketNumber \<Rightarrow> PacketNumber" where
  "closestTo target a b = (if delta target a < delta target b then a else b)"

definition InferPacketNumber ::
  "PacketNumberLen \<Rightarrow> PacketNumber \<Rightarrow> PacketNumber \<Rightarrow> PacketNumber" where
  "InferPacketNumber packetNumberLength lastPacketNumber wirePacketNumber =
     (let epochDelta = push_bit (unat (packetNumberLength * 8)) 1;
          epoch = lastPacketNumber AND NOT (epochDelta - 1);
          prevEpochBegin = epoch - epochDelta;
          nextEpochBegin = epoch + epochDelta
      in closestTo (lastPacketNumber + 1) (epoch + wirePacketNumber)
           (closestTo (lastPacketNumber + 1)
              (prevEpochBegin + wirePacketNumber) (nextEpochBegin + wirePacketNumber)))"

definition GetPacketNumberLengthForPublicHeader ::
  "PacketNumber \<Rightarrow> PacketNumber \<Rightarrow> PacketNumberLen" where
  "GetPacketNumberLengthForPublicHeader packetNumber leastUnacked =
     (let diff = packetNumber - leastUnacked in
      if diff < push_bit (unat (PacketNumberLen2 * 8 - 2)) 2 then PacketNumberLen2
      else if diff < push_bit (unat (PacketNumberLen4 * 8 - 2)) 2 then PacketNumberLen4
      else PacketNumberLen6)"

definition GetPacketNumberLength :: "PacketNumber \<Rightarrow> PacketNumberLen" where
  "GetPacketNumberLength packetNumber =
     (if packetNumber < push_bit (unat (PacketNumberLen1 * 8)) 1 then PacketNumberLen1
      else if packetNumber < push_bit (unat (PacketNumberLen2 * 8)) 1 then PacketNumberLen2
      else if packetNumber < push_bit (unat (PacketNumberLen4 * 8)) 1 then PacketNumberLen4
      else PacketNumberLen6)"

section \<open>Versions\<close>

abbreviation (input) Version37 :: VersionNumber where "Version37 \<equiv> 37"
abbreviation (input) Version38 :: VersionNumber where "Version38 \<equiv> 38"
abbreviation (input) VersionTLS :: VersionNumber where "VersionTLS \<equiv> 101"
abbreviation (input) VersionWhatever :: VersionNumber where "VersionWhatever \<equiv> 0"
abbreviation (input) VersionUnsupported :: VersionNumber where "VersionUnsupported \<equiv> - 1"
abbreviation (input) VersionUnknown :: VersionNumber where "VersionUnknown \<equiv> - 2"
abbreviation (input) VersionMP :: VersionNumber where "VersionMP \<equiv> 512"

definition SupportedVersions :: "VersionNumber list" where
  "SupportedVersions = [VersionMP, Version39, Version38, Version37]"

definition UsesTLS :: "VersionNumber \<Rightarrow> bool" where
  "UsesTLS vn = (vn = VersionTLS)"

definition VersionNumberToTag :: "VersionNumber \<Rightarrow> u32" where
  "VersionNumberToTag vn =
     (let v = word_of_int vn :: u32 in
      0x51 + push_bit 8 (v div 100 mod 10 + 0x30) + push_bit 16 (v div 10 mod 10 + 0x30)
        + push_bit 24 (v mod 10 + 0x30))"

definition VersionTagToNumber :: "u32 \<Rightarrow> VersionNumber" where
  "VersionTagToNumber v =
     uint (((drop_bit 8 v AND 0xff) - 0x30) * 100 + ((drop_bit 16 v AND 0xff) - 0x30) * 10
       + ((drop_bit 24 v AND 0xff) - 0x30))"

fun IsSupportedVersion :: "VersionNumber list \<Rightarrow> VersionNumber \<Rightarrow> bool" where
  "IsSupportedVersion [] v = False"
| "IsSupportedVersion (t # supported) v = (if t = v then True else IsSupportedVersion supported v)"

text \<open>The inner loop over \<^verbatim>\<open>theirs\<close> is the same membership test.\<close>

fun ChooseSupportedVersion :: "VersionNumber list \<Rightarrow> VersionNumber list \<Rightarrow> VersionNumber" where
  "ChooseSupportedVersion [] theirs = VersionUnsupported"
| "ChooseSupportedVersion (ourVer # ours) theirs =
     (if IsSupportedVersion theirs ourVer then ourVer else ChooseSupportedVersion ours theirs)"

section \<open>The packet number generator\<close>

record packetNumberGenerator =
  png_averagePeriod :: PacketNumber
  png_next :: PacketNumber
  nextToSkip :: PacketNumber

definition newPacketNumberGenerator :: "PacketNumber \<Rightarrow> packetNumberGenerator" where
  "newPacketNumberGenerator averagePeriod =
     \<lparr>png_averagePeriod = averagePeriod, png_next = 1, nextToSkip = 0\<rparr>"

definition png_Peek :: "packetNumberGenerator \<Rightarrow> PacketNumber" where
  "png_Peek p = png_next p"

text \<open>The two random bytes, or the failure of the random source, are an argument.\<close>

definition getRandomNumber :: "(u8 \<times> u8) result \<Rightarrow> u16 result" where
  "getRandomNumber r = andThen r (\<lambda>(b0, b1). Inr (push_bit 8 (ucast b0) + ucast b1))"

definition generateNewSkip ::
  "packetNumberGenerator \<Rightarrow> (u8 \<times> u8) result \<Rightarrow> packetNumberGenerator result" where
  "generateNewSkip p r =
     andThen (getRandomNumber r) (\<lambda>num.
       let skip = ucast num * (png_averagePeriod p - 1) div (65535 div 2)
       in Inr (p\<lparr>nextToSkip := png_next p + 2 + skip\<rparr>))"

definition png_Pop ::
  "packetNumberGenerator \<Rightarrow> (u8 \<times> u8) result \<Rightarrow> PacketNumber \<times> packetNumberGenerator" where
  "png_Pop p r =
     (let next = png_next p;
          p = p\<lparr>png_next := png_next p + 1\<rparr>
      in if png_next p = nextToSkip p
         then let p = p\<lparr>png_next := png_next p + 1\<rparr>
              in (next, case generateNewSkip p r of Inl _ \<Rightarrow> p | Inr p \<Rightarrow> p)
         else (next, p))"

section \<open>Packet number inference\<close>

lemma uint_delta: "uint (delta a b) = \<bar>uint a - uint b\<bar>"
  using uint_sub_lem [of a b] uint_sub_lem [of b a] by (auto simp: delta_def word_less_def)

lemma delta_less_iff:
  "delta t a < delta t b \<longleftrightarrow> \<bar>uint t - uint a\<bar> < \<bar>uint t - uint b\<bar>"
  by (simp add: word_less_def uint_delta)

lemma unat_epoch:
  assumes "n < 64"
  shows "unat (w AND NOT (push_bit n 1 - 1 :: PacketNumber)) = unat w div 2 ^ n * 2 ^ n"
proof -
  have "w AND NOT (push_bit n 1 - 1) = push_bit n (drop_bit n w)"
    using assms by (intro bit_eqI)
      (auto simp: bit_simps simp flip: mask_eq_exp_minus_1 dest: bit_imp_le_length)
  moreover have "unat w div 2 ^ n * 2 ^ n < 2 ^ 64"
    using div_times_less_eq_dividend [of "unat w" "2 ^ n"] unsigned_less [of w, where ?'a = nat]
    by (simp add: le_less_trans [OF div_times_less_eq_dividend])
  ultimately show ?thesis
    by (simp only: unsigned_push_bit_eq unat_drop_bit_eq)
      (simp add: push_bit_eq_mult drop_bit_eq_div take_bit_nat_eq_self)
qed

text \<open>The three candidates that \<^const>\<open>InferPacketNumber\<close> compares, as naturals.\<close>

lemma epoch_candidates:
  fixes last w epoch :: PacketNumber
  assumes n: "n < 56" and last: "unat last < 2 ^ 62" and w: "unat w < 2 ^ n"
    and epoch: "unat epoch = q * 2 ^ n" "q = unat last div 2 ^ n"
  shows "unat (epoch + w) = q * 2 ^ n + unat w"
    and "unat (epoch + push_bit n 1 + w) = (q + 1) * 2 ^ n + unat w"
    and "0 < q \<Longrightarrow> unat (epoch - push_bit n 1 + w) = (q - 1) * 2 ^ n + unat w"
    and "q = 0 \<Longrightarrow> 2 ^ 63 \<le> unat (epoch - push_bit n 1 + w)"
proof -
  let ?p = "push_bit n 1 :: PacketNumber"
  have p: "unat ?p = 2 ^ n" using n by (intro unat_push_bit_one) simp
  have p62: "2 ^ n < (2::nat) ^ 56" using n by (intro power_strict_increasing) simp_all
  have q: "q * 2 ^ n < 2 ^ 62"
    unfolding epoch(2) by (rule le_less_trans [OF div_times_less_eq_dividend last])
  show "unat (epoch + w) = q * 2 ^ n + unat w"
    using p62 w q epoch(1) by (subst unat_add_lem [THEN iffD1]) simp_all
  have "unat (epoch + ?p) = (q + 1) * 2 ^ n"
    using p62 q p epoch(1) by (subst unat_add_lem [THEN iffD1]) simp_all
  then show "unat (epoch + ?p + w) = (q + 1) * 2 ^ n + unat w"
    using p62 w q by (subst unat_add_lem [THEN iffD1]) simp_all
  show "unat (epoch - ?p + w) = (q - 1) * 2 ^ n + unat w" if "0 < q"
  proof -
    have "unat (epoch - ?p) = (q - 1) * 2 ^ n"
      using that p epoch(1) by (subst unat_sub) (simp_all add: word_le_nat_alt diff_mult_distrib)
    then show ?thesis
      using p62 w q that by (subst unat_add_lem [THEN iffD1]) (simp_all add: diff_mult_distrib)
  qed
  show "2 ^ 63 \<le> unat (epoch - ?p + w)" if "q = 0"
  proof -
    have "epoch = 0" using that epoch(1) by (simp add: word_unat_eq_iff)
    have "unat (- ?p) = 2 ^ 64 - 2 ^ n"
      using p unat_sub_if' [of 0 ?p] by simp
    then have "unat (- ?p + w) = 2 ^ 64 - 2 ^ n + unat w"
      using p62 w by (subst unat_add_lem [THEN iffD1]) simp_all
    then show ?thesis using p62 \<open>epoch = 0\<close> by simp
  qed
qed

lemma closest_candidate:
  fixes t P x p e w c :: int
  assumes near: "\<bar>P - t\<bar> * 2 < e" and P: "P = p * e + w" and x: "x = c * e + w" and "p \<noteq> c"
  shows "\<bar>t - P\<bar> < \<bar>t - x\<bar>"
proof -
  have "1 \<le> \<bar>p - c\<bar>" using \<open>p \<noteq> c\<close> by linarith
  then have "1 * \<bar>e\<bar> \<le> \<bar>p - c\<bar> * \<bar>e\<bar>" by (rule mult_right_mono) simp
  also have "\<dots> = \<bar>P - x\<bar>" by (simp add: P x algebra_simps flip: abs_mult)
  finally have "e \<le> \<bar>P - x\<bar>" by simp
  with near show ?thesis by (auto simp: abs_if split: if_splits)
qed

lemma closestTo_nearest:
  assumes "a = x \<or> delta t x < delta t a" "b = x \<or> delta t x < delta t b" "x \<in> {a, b}"
  shows "closestTo t a b = x"
  using assms by (auto simp: closestTo_def)

lemma InferPacketNumber_nearest:
  fixes L pn :: PacketNumber
  assumes n: "n < 56" "0 < n" "unat (len * 8) = n"
    and last: "unat L < 2 ^ 62"
    and near: "\<bar>uint pn - (uint L + 1)\<bar> * 2 < 2 ^ n"
  shows "InferPacketNumber len L (take_bit n pn) = pn"
proof -
  define e :: nat where "e = 2 ^ n"
  define w where "w = take_bit n pn"
  define epoch where "epoch = L AND NOT (push_bit n 1 - 1 :: PacketNumber)"
  define q where "q = unat L div e"
  define p where "p = unat pn div e"
  have w: "unat w = unat pn mod e"
    unfolding w_def unsigned_take_bit_eq e_def by (simp add: take_bit_eq_mod)
  have e: "e \<le> 2 ^ 56" "2 \<le> e" unfolding e_def
    using n power_increasing [of 1 n "2::nat"] power_increasing [of n 56 "2::nat"] by auto
  have wlt: "unat w < 2 ^ n" using w e by (simp add: e_def)
  have ep: "unat epoch = q * 2 ^ n" "q = unat L div 2 ^ n"
    using n unat_epoch [of n L] by (simp_all add: epoch_def q_def e_def)
  note cand = epoch_candidates [OF n(1) last wlt ep, folded e_def]
  have pn: "unat pn = p * e + unat w" by (simp add: p_def w)
  have t: "unat (L + 1) = unat L + 1"
    using last by (subst unat_add_lem [THEN iffD1]) simp_all
  have near': "\<bar>int (unat pn) - int (unat (L + 1))\<bar> * 2 < int e"
    using near by (simp only: t of_nat_add uint_nat e_def) simp
  then have near2: "2 * unat pn < 2 * unat L + 2 + e" "2 * unat L + 2 < 2 * unat pn + e"
    unfolding t by (simp_all add: abs_if split: if_splits del: of_nat_unat)
  have closest: "x = pn \<or> delta (L + 1) pn < delta (L + 1) x" if "unat x = c * e + unat w" for x c
  proof (cases "p = c")
    case True
    with that pn show ?thesis by (simp add: word_unat_eq_iff)
  next
    case False
    then show ?thesis
      using closest_candidate [OF near', of "int p" "int (unat w)" "int (unat x)" "int c"] that pn
      unfolding delta_less_iff uint_nat by simp
  qed
  have range: "p = q \<or> p = q + 1 \<or> q = p + 1"
  proof -
    have "unat L < (q + 1) * e" "q * e \<le> unat L"
      using e by (simp_all add: q_def dividend_less_div_times)
    have "\<not> q + 2 \<le> p"
    proof
      assume that: "q + 2 \<le> p"
      have "(q + 2) * e \<le> p * e" using that by (rule mult_le_mono1)
      with \<open>unat L < (q + 1) * e\<close> near2 pn show False by (simp add: algebra_simps)
    qed
    moreover have "\<not> p + 2 \<le> q"
    proof
      assume that: "p + 2 \<le> q"
      have "(p + 2) * e \<le> q * e" using that by (rule mult_le_mono1)
      with \<open>q * e \<le> unat L\<close> near2 pn wlt [folded e_def] show False by (simp add: algebra_simps)
    qed
    ultimately show ?thesis by linarith
  qed
  let ?cur = "epoch + w" and ?prev = "epoch - push_bit n 1 + w" and ?next = "epoch + push_bit n 1 + w"
  have prev: "?prev = pn \<or> delta (L + 1) pn < delta (L + 1) ?prev"
  proof (cases "q = 0")
    case True
    have "\<bar>x - y\<bar> < \<bar>x - z\<bar>"
      if "x < 2 ^ 63 - 2 ^ 58" "\<bar>y - x\<bar> * 2 < 2 ^ 57" "2 ^ 63 \<le> z" for x y z :: int
      using that by (auto simp: abs_if split: if_splits)
    moreover have "int (unat (L + 1)) < 2 ^ 63 - 2 ^ 58" using t last by (simp del: of_nat_unat)
    moreover have "\<bar>int (unat pn) - int (unat (L + 1))\<bar> * 2 < 2 ^ 57" using near' e(1) by simp
    moreover have "2 ^ 63 \<le> int (unat ?prev)" using cand(4) [OF True] by (simp del: of_nat_unat)
    ultimately show ?thesis unfolding delta_less_iff uint_nat by blast
  next
    case False
    then show ?thesis using closest [OF cand(3)] by simp
  qed
  have "pn \<in> {?cur, ?prev, ?next}"
    using range cand(1,2,3) pn by (auto simp: word_unat_eq_iff)
  moreover have "InferPacketNumber len L w = closestTo (L + 1) ?cur (closestTo (L + 1) ?prev ?next)"
    by (simp add: InferPacketNumber_def Let_def n(3) epoch_def)
  moreover let ?inner = "closestTo (L + 1) ?prev ?next"
  have "?inner = pn" if "pn \<in> {?prev, ?next}"
    using prev closest [OF cand(2)] that by (rule closestTo_nearest)
  moreover have "?inner = pn \<or> delta (L + 1) pn < delta (L + 1) ?inner"
    using prev closest [OF cand(2)] by (simp add: closestTo_def)
  ultimately have "InferPacketNumber len L w = pn"
    by (simp only:) (rule closestTo_nearest [OF closest [OF cand(1)]], auto)
  then show ?thesis by (simp add: w_def)
qed

text \<open>The lengths that occur on the wire.\<close>

definition validPacketNumberLen :: "PacketNumberLen \<Rightarrow> bool" where
  "validPacketNumberLen len \<longleftrightarrow> len \<in> {1, 2, 4, 6}"

text \<open>C11. Packet number inference: the receiver recovers the full packet number from its
  truncation to \<^verbatim>\<open>len\<close> bytes whenever the packet number is less than half an epoch away from the
  successor of the last packet number seen, which is below \<open>2 ^ 62\<close>.\<close>

theorem InferPacketNumber_correct:
  assumes "validPacketNumberLen len" "unat L < 2 ^ 62"
    and "\<bar>uint pn - (uint L + 1)\<bar> < 2 ^ (8 * unat len - 1)"
  shows "InferPacketNumber len L (take_bit (8 * unat len) pn) = pn"
  using assms(1) unfolding validPacketNumberLen_def
  by (elim insertE emptyE; intro InferPacketNumber_nearest) (use assms(2,3) in simp_all)

lemma InferPacketNumber_correct_witness:
  "InferPacketNumber 2 0x10005 (take_bit 16 0xFFFE) = 0xFFFE"
  using InferPacketNumber_correct [of 2 "0x10005" "0xFFFE"]
  by (simp add: validPacketNumberLen_def)

text \<open>C10. The length that the sender picks for a packet number is enough for the receiver to recover it, under three
  conditions on the traffic: fewer than \<open>2 ^ 47\<close> packets between \<^verbatim>\<open>leastUnacked\<close> and the packet, the packet overtaken by fewer
  than \<open>2 ^ 15\<close> newer ones, and no gap of \<open>2 ^ 15\<close> packet numbers between the largest one received and the packet, unless
  \<^verbatim>\<open>leastUnacked\<close> lies before that gap. The last condition is needed since a retransmission timeout can move
  \<^verbatim>\<open>leastUnacked\<close> past packets that were never received.\<close>

theorem public_header_packet_number_recovered:
  assumes "unat L < 2 ^ 62" "leastUnacked \<le> pn" "unat (pn - leastUnacked) < 2 ^ 47"
    and "unat leastUnacked \<le> unat L + 1 \<or> unat pn < unat L + 1 + 2 ^ 15" "unat L + 1 < unat pn + 2 ^ 15"
  defines "len \<equiv> GetPacketNumberLengthForPublicHeader pn leastUnacked"
  shows "InferPacketNumber len L (take_bit (8 * unat len) pn) = pn"
proof -
  have diff: "unat (pn - leastUnacked) = unat pn - unat leastUnacked"
    using assms(2) by (simp add: unat_sub)
  have len: "len = (if unat pn - unat leastUnacked < 2 ^ 15 then 2
      else if unat pn - unat leastUnacked < 2 ^ 31 then 4 else 6)"
    unfolding len_def GetPacketNumberLengthForPublicHeader_def Let_def word_less_nat_alt diff by simp
  then have "2 ^ 15 \<le> (2::nat) ^ (8 * unat len - 1)"
    "unat pn - unat leastUnacked < 2 ^ (8 * unat len - 1)"
    using assms(3) diff by simp_all
  then have "\<bar>int (unat pn) - (int (unat L) + 1)\<bar> < int (2 ^ (8 * unat len - 1))"
    using assms(4,5) by linarith
  then show ?thesis
    by (intro InferPacketNumber_correct) (use len assms(1) in \<open>auto simp: validPacketNumberLen_def\<close>)
qed

lemma public_header_packet_number_recovered_witness:
  "InferPacketNumber (GetPacketNumberLengthForPublicHeader 0x12345 0x12000) 0x12340
     (take_bit (8 * unat (GetPacketNumberLengthForPublicHeader 0x12345 0x12000)) 0x12345) = 0x12345"
  by (rule public_header_packet_number_recovered) simp_all

lemma GetPacketNumberLength_fits:
  assumes "unat pn < 2 ^ 48"
  shows "unat pn < 2 ^ (8 * unat (GetPacketNumberLength pn))"
  using assms by (simp add: GetPacketNumberLength_def word_less_nat_alt)

lemma GetPacketNumberLength_valid: "validPacketNumberLen (GetPacketNumberLength pn)"
  by (simp add: GetPacketNumberLength_def validPacketNumberLen_def)

section \<open>Version negotiation\<close>

lemma IsSupportedVersion_iff [simp]: "IsSupportedVersion supported v \<longleftrightarrow> v \<in> set supported"
  by (induction supported) auto

lemma ChooseSupportedVersion_eq:
  "ChooseSupportedVersion ours theirs =
     (case filter (\<lambda>v. v \<in> set theirs) ours of [] \<Rightarrow> VersionUnsupported | v # _ \<Rightarrow> v)"
  by (induction ours) auto

text \<open>Version negotiation picks our most preferred version that the peer also offers, and
  reports \<^verbatim>\<open>VersionUnsupported\<close> exactly when there is no common version.\<close>

theorem ChooseSupportedVersion_best:
  assumes "VersionUnsupported \<notin> set ours"
  shows "(ChooseSupportedVersion ours theirs = VersionUnsupported \<longleftrightarrow> set ours \<inter> set theirs = {})
    \<and> (set ours \<inter> set theirs \<noteq> {} \<longrightarrow>
        (\<exists>before after. ours = before @ ChooseSupportedVersion ours theirs # after
          \<and> ChooseSupportedVersion ours theirs \<in> set theirs \<and> set before \<inter> set theirs = {}))"
  using assms
proof (induction ours)
  case (Cons v ours)
  show ?case
  proof (cases "v \<in> set theirs")
    case True
    then show ?thesis using Cons.prems by (auto intro: exI [of _ "[]"])
  next
    case False
    then show ?thesis
      using Cons by simp (metis (no_types, lifting) Int_insert_left append_Cons list.simps(15))
  qed
qed simp

lemma ChooseSupportedVersion_best_witness:
  "ChooseSupportedVersion SupportedVersions [37, 39] = 39
    \<and> (\<exists>before after. SupportedVersions = before @ 39 # after \<and> set before \<inter> {37, 39} = {})"
  using ChooseSupportedVersion_best [of SupportedVersions "[37, 39]"]
  by (simp add: SupportedVersions_def Version39_def)

lemma unat_version_digits:
  assumes "n < 1000"
  shows "unat (VersionNumberToTag (int n)) =
    0x51 + 256 * (n div 100 mod 10 + 48) + 65536 * (n div 10 mod 10 + 48) + 16777216 * (n mod 10 + 48)"
proof -
  have v: "unat (word_of_nat n :: u32) = n" using assms by (simp add: unsigned_of_nat take_bit_nat_eq_self)
  have d: "unat (push_bit k (x + 48) :: u32) = 2 ^ k * (unat x + 48)" if "unat x < 10" "k \<le> 24" for k and x :: u32
  proof -
    have "unat (x + 48) = unat x + 48" using that by (simp add: unat_word_ariths)
    moreover have "2 ^ k * (unat x + 48) \<le> 2 ^ 24 * 57"
      using that by (intro mult_le_mono power_increasing) simp_all
    ultimately show ?thesis
      unfolding unsigned_push_bit_eq by (simp add: push_bit_eq_mult take_bit_nat_eq_self mult.commute)
  qed
  show ?thesis
    using assms by (simp add: VersionNumberToTag_def Let_def unat_word_ariths v d unat_div unat_mod)
qed

lemma unat_tag_byte: "unat (drop_bit k v AND 0xff :: u32) = unat v div 2 ^ k mod 256"
proof -
  have "drop_bit k v AND 0xff = take_bit 8 (drop_bit k v)" by (simp add: take_bit_eq_mask mask_eq_exp_minus_1)
  then show ?thesis by (simp only: unsigned_take_bit_eq unat_drop_bit_eq)
    (simp add: take_bit_eq_mod drop_bit_eq_div)
qed

lemma version_bytes:
  fixes a b c :: nat
  assumes "a < 10" "b < 10" "c < 10"
  defines "t \<equiv> 0x51 + 256 * (a + 48) + 65536 * (b + 48) + 16777216 * (c + 48)"
  shows "t div 2 ^ 8 mod 256 = a + 48" "t div 2 ^ 16 mod 256 = b + 48" "t div 2 ^ 24 mod 256 = c + 48"
proof -
  have "t div 2 ^ 8 = (a + 48) + 256 * ((b + 48) + 256 * (c + 48))"
    "t div 2 ^ 16 = (b + 48) + 256 * (c + 48)" "t div 2 ^ 24 = c + 48"
    using assms(1-3) by (auto intro!: div_nat_eqI simp: t_def)
  then show "t div 2 ^ 8 mod 256 = a + 48" "t div 2 ^ 16 mod 256 = b + 48" "t div 2 ^ 24 mod 256 = c + 48"
    using assms(1-3) by (simp_all only: mod_mult_self2) simp_all
qed

lemma decimal_digits:
  assumes "n < (1000::nat)"
  shows "n div 100 mod 10 * 100 + n div 10 mod 10 * 10 + n mod 10 = n"
proof -
  have "n div 100 = n div 10 div 10" using div_mult2_eq [of n 10 10] by simp
  moreover have "n div 10 div 10 < 10" using assms by linarith
  ultimately have "n div 100 mod 10 = n div 10 div 10" by simp
  then show ?thesis
    using div_mult_mod_eq [of n 10] div_mult_mod_eq [of "n div 10" 10] by linarith
qed

lemma unat_decimal: "unat (x * 100 + y * 10 + z) = unat x * 100 + unat y * 10 + unat z"
  if "unat x < 10" "unat y < 10" "unat z < 10" for x y z :: u32
  using that by (simp add: unat_word_ariths)

lemma version_tag_read:
  assumes "0 \<le> vn" "vn < 1000"
  shows "VersionTagToNumber (VersionNumberToTag vn) = vn"
proof -
  define n where "n = nat vn"
  have n: "vn = int n" "n < 1000" using assms by (simp_all add: n_def)
  let ?t = "VersionNumberToTag vn"
  have digit: "unat ((drop_bit k ?t AND 0xff) - 0x30) = d"
    if "unat ?t div 2 ^ k mod 256 = d + 48" "d < 10" for k d
    using that by (subst unat_sub) (simp_all add: word_le_nat_alt unat_tag_byte)
  have t: "unat ?t = 0x51 + 256 * (n div 100 mod 10 + 48) + 65536 * (n div 10 mod 10 + 48) + 16777216 * (n mod 10 + 48)"
    unfolding n(1) using n(2) by (rule unat_version_digits)
  have "unat ((drop_bit 8 ?t AND 0xff) - 0x30) = n div 100 mod 10"
    "unat ((drop_bit 16 ?t AND 0xff) - 0x30) = n div 10 mod 10"
    "unat ((drop_bit 24 ?t AND 0xff) - 0x30) = n mod 10"
    using version_bytes [of "n div 100 mod 10" "n div 10 mod 10" "n mod 10"]
    by (simp_all only: digit t)
  then have "unat (((drop_bit 8 ?t AND 0xff) - 0x30) * 100 + ((drop_bit 16 ?t AND 0xff) - 0x30) * 10
       + ((drop_bit 24 ?t AND 0xff) - 0x30)) = n div 100 mod 10 * 100 + n div 10 mod 10 * 10 + n mod 10"
    by (subst unat_decimal) (simp_all only: mod_less_divisor zero_less_numeral simp_thms)
  also have "\<dots> = n" using decimal_digits [OF n(2)] .
  finally show ?thesis by (simp only: VersionTagToNumber_def uint_nat n(1))
qed

text \<open>The tag of a version number of at most three digits reads back as that version number;
  in particular this holds for every version the implementation supports.\<close>

theorem version_tag_roundtrip:
  assumes "0 \<le> vn" "vn < 1000"
  shows "VersionTagToNumber (VersionNumberToTag vn) = vn"
  using assms by (rule version_tag_read)

lemma version_tag_roundtrip_witness: "VersionTagToNumber (VersionNumberToTag 512) = 512"
  by (rule version_tag_roundtrip) simp_all

section \<open>The generated packet numbers\<close>

lemma skip_not_all_ones: "x div 32767 + 1 \<noteq> (0 :: PacketNumber)"
proof -
  have "unat (x div 32767) < 2 ^ 63"
    using unsigned_less [of x, where ?'a = nat] by (simp add: unat_div)
  then have "unat (x div 32767 + 1) = unat (x div 32767) + 1"
    by (subst unat_add_lem [THEN iffD1]) simp_all
  then show ?thesis by (metis add_is_0 one_neq_zero unsigned_0)
qed

text \<open>Popping advances the packet number by one, or by two when one number is skipped, and two
  successive pops never both skip, whatever the random source delivers.\<close>

theorem png_never_skips_twice:
  fixes p r r'
  defines "p' \<equiv> snd (png_Pop p r)"
  defines "p'' \<equiv> snd (png_Pop p' r')"
  shows "fst (png_Pop p r) = png_Peek p
    \<and> (png_Peek p' = png_Peek p + 1 \<or> png_Peek p' = png_Peek p + 2 \<and> nextToSkip p = png_Peek p + 1)
    \<and> (png_Peek p' = png_Peek p + 2 \<longrightarrow> png_Peek p'' = png_Peek p' + 1)"
proof (cases "nextToSkip p = png_next p + 1")
  case True
  have no_skip: "png_next p + 3 \<noteq> png_next p + 1" 
    "png_next p + 3 \<noteq> png_next p + 4 + x div 32767" for x :: PacketNumber
    using skip_not_all_ones [of x] by (simp_all add: add.assoc add.commute [of 1])
  with True show ?thesis
    by (auto simp: p'_def p''_def png_Pop_def png_Peek_def generateNewSkip_def Let_def split: sum.splits)
next
  case False
  then show ?thesis
    by (auto simp: p'_def png_Pop_def png_Peek_def Let_def)
qed

lemma png_never_skips_twice_witness:
  "let p = \<lparr>png_averagePeriod = 10, png_next = 5, nextToSkip = 6\<rparr>;
       p' = snd (png_Pop p (Inr (1, 2))); p'' = snd (png_Pop p' (Inl EOF))
   in png_Peek p' = png_Peek p + 2 \<and> png_Peek p'' = png_Peek p' + 1"
  using png_never_skips_twice [of "\<lparr>png_averagePeriod = 10, png_next = 5, nextToSkip = 6\<rparr>" "Inr (1, 2)" "Inl EOF"]
  by (simp add: Let_def png_Pop_def png_Peek_def generateNewSkip_def getRandomNumber_def)

fun png_Pops :: "packetNumberGenerator \<Rightarrow> (u8 \<times> u8) result list \<Rightarrow> PacketNumber list" where
  "png_Pops p [] = []"
| "png_Pops p (r # rs) = (let (n, p) = png_Pop p r in n # png_Pops p rs)"

text \<open>C24. A fresh generator never skips a packet number: its first skip is never drawn, so that
  the packet numbers are 1, 2, 3 and so on, whatever the random source delivers.\<close>

theorem png_fresh_never_skips:
  assumes "length rs < 2 ^ 64 - 1"
  shows "png_Pops (newPacketNumberGenerator period) rs = map of_nat [1 ..< Suc (length rs)]"
proof -
  have "png_Pops \<lparr>png_averagePeriod = period, png_next = of_nat n, nextToSkip = 0\<rparr> rs
      = map of_nat [n ..< n + length rs]" if "n + length rs < 2 ^ 64" for n
    using that
  proof (induction rs arbitrary: n)
    case (Cons r rs)
    have "of_nat n + 1 \<noteq> (0 :: PacketNumber)"
    proof
      assume "of_nat n + 1 = (0 :: PacketNumber)"
      then have "unat (of_nat (Suc n) :: PacketNumber) = 0" by (simp add: add.commute)
      then show False using Cons.prems by (simp only: unat_of_nat) simp
    qed
    then show ?case
      using Cons.IH [of "Suc n"] Cons.prems
      by (simp add: png_Pop_def Let_def upt_conv_Cons add.commute del: upt_Suc)
  qed simp
  from this [of 1] assms show ?thesis by (simp add: newPacketNumberGenerator_def)
qed

lemma png_fresh_never_skips_witness:
  "png_Pops (newPacketNumberGenerator 500) [Inr (1, 2), Inl EOF, Inr (0, 0)] = [1, 2, 3]"
  using png_fresh_never_skips [of "[Inr (1, 2), Inl EOF, Inr (0, 0)]" 500] by (simp add: upt_rec)

end
