(* ===== verification/Wire_Frames.thy ===== *)
theory Wire_Frames
  imports Protocol_Numbers
begin

text \<open>The control frames of \<^verbatim>\<open>internal/wire\<close>: one record per frame type, with its writer, its
  parser and its \<^verbatim>\<open>MinLength\<close>. Writers return the bytes they append to the buffer; on an error the
  caller drops the buffer, so that the bytes written before the error are not part of the result.
  The contract between writers and parsers is the locale \<open>frame_codec\<close>.\<close>

section \<open>Frames without variable parts\<close>

record WindowUpdateFrame =
  wu_StreamID :: StreamID
  wu_ByteOffset :: ByteCount

definition WindowUpdateFrame_Write :: "WindowUpdateFrame \<Rightarrow> VersionNumber \<Rightarrow> bytes result" where
  "WindowUpdateFrame_Write f version =
     Inr ([0x4] @ WriteUint32 (GetByteOrder version) (wu_StreamID f)
       @ WriteUint64 (GetByteOrder version) (wu_ByteOffset f))"

definition WindowUpdateFrame_MinLength :: "WindowUpdateFrame \<Rightarrow> VersionNumber \<Rightarrow> ByteCount result" where
  "WindowUpdateFrame_MinLength f version = Inr (1 + 4 + 8)"

definition ParseWindowUpdateFrame :: "bytes \<Rightarrow> VersionNumber \<Rightarrow> (WindowUpdateFrame \<times> bytes) result" where
  "ParseWindowUpdateFrame r version =
     andThen (ReadByte r) (\<lambda>(_, r).
     andThen (ReadUint32 (GetByteOrder version) r) (\<lambda>(sid, r).
     andThen (ReadUint64 (GetByteOrder version) r) (\<lambda>(byteOffset, r).
       Inr (\<lparr>wu_StreamID = sid, wu_ByteOffset = byteOffset\<rparr>, r))))"

record BlockedFrame =
  bl_StreamID :: StreamID

definition BlockedFrame_Write :: "BlockedFrame \<Rightarrow> VersionNumber \<Rightarrow> bytes result" where
  "BlockedFrame_Write f version = Inr ([0x05] @ WriteUint32 (GetByteOrder version) (bl_StreamID f))"

definition BlockedFrame_MinLength :: "BlockedFrame \<Rightarrow> VersionNumber \<Rightarrow> ByteCount result" where
  "BlockedFrame_MinLength f version = Inr (1 + 4)"

definition ParseBlockedFrame :: "bytes \<Rightarrow> VersionNumber \<Rightarrow> (BlockedFrame \<times> bytes) result" where
  "ParseBlockedFrame r version =
     andThen (ReadByte r) (\<lambda>(_, r).
     andThen (ReadUint32 (GetByteOrder version) r) (\<lambda>(sid, r).
       Inr (\<lparr>bl_StreamID = sid\<rparr>, r)))"

datatype PingFrame = PingFrame

definition ParsePingFrame :: "bytes \<Rightarrow> VersionNumber \<Rightarrow> (PingFrame \<times> bytes) result" where
  "ParsePingFrame r version = andThen (ReadByte r) (\<lambda>(_, r). Inr (PingFrame, r))"

definition PingFrame_Write :: "PingFrame \<Rightarrow> VersionNumber \<Rightarrow> bytes result" where
  "PingFrame_Write f version = Inr [0x07]"

definition PingFrame_MinLength :: "PingFrame \<Rightarrow> VersionNumber \<Rightarrow> ByteCount result" where
  "PingFrame_MinLength f version = Inr 1"

record RstStreamFrame =
  rst_StreamID :: StreamID
  rst_ErrorCode :: u32
  rst_ByteOffset :: ByteCount

definition RstStreamFrame_Write :: "RstStreamFrame \<Rightarrow> VersionNumber \<Rightarrow> bytes result" where
  "RstStreamFrame_Write f version =
     Inr ([0x01] @ WriteUint32 (GetByteOrder version) (rst_StreamID f)
       @ WriteUint64 (GetByteOrder version) (rst_ByteOffset f)
       @ WriteUint32 (GetByteOrder version) (rst_ErrorCode f))"

definition RstStreamFrame_MinLength :: "RstStreamFrame \<Rightarrow> VersionNumber \<Rightarrow> ByteCount result" where
  "RstStreamFrame_MinLength f version = Inr (1 + 4 + 8 + 4)"

definition ParseRstStreamFrame :: "bytes \<Rightarrow> VersionNumber \<Rightarrow> (RstStreamFrame \<times> bytes) result" where
  "ParseRstStreamFrame r version =
     andThen (ReadByte r) (\<lambda>(_, r).
     andThen (ReadUint32 (GetByteOrder version) r) (\<lambda>(sid, r).
     andThen (ReadUint64 (GetByteOrder version) r) (\<lambda>(byteOffset, r).
     andThen (ReadUint32 (GetByteOrder version) r) (\<lambda>(errorCode, r).
       Inr (\<lparr>rst_StreamID = sid, rst_ErrorCode = errorCode, rst_ByteOffset = byteOffset\<rparr>, r)))))"

section \<open>Frames with a reason phrase\<close>

abbreviation (input) MaxPacketSize :: ByteCount where "MaxPacketSize \<equiv> 1350"

record GoawayFrame =
  ga_ErrorCode :: u32
  ga_LastGoodStream :: StreamID
  ga_ReasonPhrase :: bytes

definition ParseGoawayFrame :: "bytes \<Rightarrow> VersionNumber \<Rightarrow> (GoawayFrame \<times> bytes) result" where
  "ParseGoawayFrame r version =
     andThen (ReadByte r) (\<lambda>(_, r).
     andThen (ReadUint32 (GetByteOrder version) r) (\<lambda>(errorCode, r).
     andThen (ReadUint32 (GetByteOrder version) r) (\<lambda>(lastGoodStream, r).
     andThen (ReadUint16 (GetByteOrder version) r) (\<lambda>(reasonPhraseLen, r).
       if reasonPhraseLen > ucast MaxPacketSize then Inl (QuicError InvalidGoawayData)
       else andThen (ReadFull r (unat reasonPhraseLen)) (\<lambda>(reasonPhrase, r).
         Inr (\<lparr>ga_ErrorCode = errorCode, ga_LastGoodStream = lastGoodStream,
               ga_ReasonPhrase = reasonPhrase\<rparr>, r))))))"

definition GoawayFrame_Write :: "GoawayFrame \<Rightarrow> VersionNumber \<Rightarrow> bytes result" where
  "GoawayFrame_Write f version =
     Inr ([0x03] @ WriteUint32 (GetByteOrder version) (ga_ErrorCode f)
       @ WriteUint32 (GetByteOrder version) (ga_LastGoodStream f)
       @ WriteUint16 (GetByteOrder version) (of_nat (length (ga_ReasonPhrase f)))
       @ ga_ReasonPhrase f)"

definition GoawayFrame_MinLength :: "GoawayFrame \<Rightarrow> VersionNumber \<Rightarrow> ByteCount result" where
  "GoawayFrame_MinLength f version = Inr (of_nat (1 + 4 + 4 + 2 + length (ga_ReasonPhrase f)))"

record ConnectionCloseFrame =
  cc_ErrorCode :: u32
  cc_ReasonPhrase :: bytes

definition ParseConnectionCloseFrame ::
  "bytes \<Rightarrow> VersionNumber \<Rightarrow> (ConnectionCloseFrame \<times> bytes) result" where
  "ParseConnectionCloseFrame r version =
     andThen (ReadByte r) (\<lambda>(_, r).
     andThen (ReadUint32 (GetByteOrder version) r) (\<lambda>(errorCode, r).
     andThen (ReadUint16 (GetByteOrder version) r) (\<lambda>(reasonPhraseLen, r).
       if reasonPhraseLen > ucast MaxPacketSize then Inl (QuicError InvalidConnectionCloseData)
       else andThen (ReadFull r (unat reasonPhraseLen)) (\<lambda>(reasonPhrase, r).
         Inr (\<lparr>cc_ErrorCode = errorCode, cc_ReasonPhrase = reasonPhrase\<rparr>, r)))))"

definition ConnectionCloseFrame_MinLength ::
  "ConnectionCloseFrame \<Rightarrow> VersionNumber \<Rightarrow> ByteCount result" where
  "ConnectionCloseFrame_MinLength f version = Inr (1 + 4 + 2 + of_nat (length (cc_ReasonPhrase f)))"

definition ConnectionCloseFrame_Write ::
  "ConnectionCloseFrame \<Rightarrow> VersionNumber \<Rightarrow> bytes result" where
  "ConnectionCloseFrame_Write f version =
     (if length (cc_ReasonPhrase f) > 65535
      then Inl (OtherError ''ConnectionFrame: ReasonPhrase too long'')
      else Inr ([0x02] @ WriteUint32 (GetByteOrder version) (cc_ErrorCode f)
        @ WriteUint16 (GetByteOrder version) (of_nat (length (cc_ReasonPhrase f)))
        @ cc_ReasonPhrase f))"

section \<open>Stop waiting\<close>

record StopWaitingFrame =
  sw_LeastUnacked :: PacketNumber
  sw_PacketNumberLen :: PacketNumberLen
  sw_PacketNumber :: PacketNumber

definition StopWaitingFrame_Write :: "StopWaitingFrame \<Rightarrow> VersionNumber \<Rightarrow> bytes result" where
  "StopWaitingFrame_Write f version =
     (if sw_PacketNumber f = 0 then Inl errPacketNumberNotSet
      else if sw_LeastUnacked f > sw_PacketNumber f then Inl errLeastUnackedHigherThanPacketNumber
      else
        let leastUnackedDelta = sw_PacketNumber f - sw_LeastUnacked f in
        if sw_PacketNumberLen f = PacketNumberLen1 then Inr [0x06, ucast leastUnackedDelta]
        else if sw_PacketNumberLen f = PacketNumberLen2 then
          Inr ([0x06] @ WriteUint16 (GetByteOrder version) (ucast leastUnackedDelta))
        else if sw_PacketNumberLen f = PacketNumberLen4 then
          Inr ([0x06] @ WriteUint32 (GetByteOrder version) (ucast leastUnackedDelta))
        else if sw_PacketNumberLen f = PacketNumberLen6 then
          andThen (WriteUint48 (GetByteOrder version) (leastUnackedDelta AND (push_bit 48 1 - 1)))
            (\<lambda>bs. Inr ([0x06] @ bs))
        else Inl errPacketNumberLenNotSet)"

definition StopWaitingFrame_MinLength :: "StopWaitingFrame \<Rightarrow> VersionNumber \<Rightarrow> ByteCount result" where
  "StopWaitingFrame_MinLength f version =
     (if sw_PacketNumberLen f = 0 then Inl errPacketNumberLenNotSet
      else Inr (1 + ucast (sw_PacketNumberLen f)))"

definition ParseStopWaitingFrame ::
  "bytes \<Rightarrow> PacketNumber \<Rightarrow> PacketNumberLen \<Rightarrow> VersionNumber \<Rightarrow> (StopWaitingFrame \<times> bytes) result" where
  "ParseStopWaitingFrame r packetNumber packetNumberLen version =
     andThen (ReadByte r) (\<lambda>(_, r).
     andThen (ReadUintN (GetByteOrder version) r packetNumberLen) (\<lambda>(leastUnackedDelta, r).
       if leastUnackedDelta \<ge> packetNumber then Inl (QuicError InvalidStopWaitingData)
       else Inr (\<lparr>sw_LeastUnacked = packetNumber - leastUnackedDelta,
                  sw_PacketNumberLen = 0, sw_PacketNumber = 0\<rparr>, r)))"

section \<open>Multipath frames\<close>

record PathsFrame =
  pf_MaxNumPaths :: u8
  pf_NumPaths :: u8
  pf_PathIDs :: "PathID list"
  pf_RemoteRTTs :: "duration list"

fun PathsFrame_Write_loop :: "VersionNumber \<Rightarrow> PathID list \<Rightarrow> duration list \<Rightarrow> bytes" where
  "PathsFrame_Write_loop version (pathID # pathIDs) (rtt # rtts) =
     [pathID] @ writeUfloat16 (GetByteOrder version) (word_of_int (quot rtt Microsecond))
       @ PathsFrame_Write_loop version pathIDs rtts"
| "PathsFrame_Write_loop version _ _ = []"

definition PathsFrame_Write :: "PathsFrame \<Rightarrow> VersionNumber \<Rightarrow> bytes result" where
  "PathsFrame_Write f version =
     (if unat (pf_NumPaths f) \<noteq> length (pf_PathIDs f) then Inl ErrPathsNumber
      else if length (pf_PathIDs f) \<noteq> length (pf_RemoteRTTs f) then Inl ErrMissingRTT
      else Inr ([0x12, pf_MaxNumPaths f, pf_NumPaths f]
        @ PathsFrame_Write_loop version (pf_PathIDs f) (pf_RemoteRTTs f)))"

fun ParsePathsFrame_loop ::
  "nat \<Rightarrow> VersionNumber \<Rightarrow> bytes \<Rightarrow> ((PathID list \<times> duration list) \<times> bytes) result" where
  "ParsePathsFrame_loop 0 version r = Inr (([], []), r)"
| "ParsePathsFrame_loop (Suc n) version r =
     andThen (ReadByte r) (\<lambda>(pathID, r).
     andThen (readUfloat16 (GetByteOrder version) r) (\<lambda>(remoteRTT, r).
     andThen (ParsePathsFrame_loop n version r) (\<lambda>((pathIDs, rtts), r).
       Inr ((pathID # pathIDs, i64 (i64 (uint remoteRTT) * Microsecond) # rtts), r))))"

definition ParsePathsFrame :: "bytes \<Rightarrow> VersionNumber \<Rightarrow> (PathsFrame \<times> bytes) result" where
  "ParsePathsFrame r version =
     andThen (ReadByte r) (\<lambda>(_, r).
     andThen (ReadByte r) (\<lambda>(maxNum, r).
     andThen (ReadByte r) (\<lambda>(num, r).
       if num > maxNum then Inl ErrTooManyPaths
       else andThen (ParsePathsFrame_loop (unat num) version r) (\<lambda>((pathIDs, rtts), r).
         Inr (\<lparr>pf_MaxNumPaths = maxNum, pf_NumPaths = num, pf_PathIDs = pathIDs,
               pf_RemoteRTTs = rtts\<rparr>, r)))))"

text \<open>The sum is computed in \<^verbatim>\<open>uint8\<close>.\<close>

definition PathsFrame_MinLength :: "PathsFrame \<Rightarrow> VersionNumber \<Rightarrow> ByteCount result" where
  "PathsFrame_MinLength f version =
     (let len = 1 + 1 + 1 + 3 * pf_NumPaths f :: u8 in Inr (ucast len))"

text \<open>A \<^verbatim>\<open>net.IP\<close> is a byte slice of length 4 or 16, or empty when it is nil; \<^verbatim>\<open>To4\<close> and \<^verbatim>\<open>To16\<close>
  return nil when there is no such form.\<close>

record UDPAddr =
  addr_IP :: bytes
  addr_Port :: int
  addr_Zone :: bytes

definition v4InV6Prefix :: bytes where
  "v4InV6Prefix = replicate 10 0 @ [0xff, 0xff]"

definition IP_To4 :: "bytes \<Rightarrow> bytes option" where
  "IP_To4 ip =
     (if length ip = 4 then Some ip
      else if length ip = 16 \<and> take 12 ip = v4InV6Prefix then Some (drop 12 ip) else None)"

definition IP_To16 :: "bytes \<Rightarrow> bytes option" where
  "IP_To16 ip =
     (if length ip = 4 then Some (v4InV6Prefix @ ip)
      else if length ip = 16 then Some ip else None)"

record AddAddressFrame =
  aa_IPVersion :: u8
  aa_Addr :: UDPAddr

definition AddAddressFrame_Write :: "AddAddressFrame \<Rightarrow> VersionNumber \<Rightarrow> bytes result" where
  "AddAddressFrame_Write f version =
     andThen
       (if aa_IPVersion f = 4 then
          (case IP_To4 (addr_IP (aa_Addr f)) of
             None \<Rightarrow> Inl errInconsistentAddrIPVersion | Some ip \<Rightarrow> Inr (take 4 ip))
        else if aa_IPVersion f = 6 then
          (case IP_To16 (addr_IP (aa_Addr f)) of
             None \<Rightarrow> Inl errInconsistentAddrIPVersion | Some ip \<Rightarrow> Inr (take 16 ip))
        else Inl ErrUnknownIPVersion)
       (\<lambda>ip. Inr ([0x10, aa_IPVersion f] @ ip
          @ WriteUint16 (GetByteOrder version) (word_of_int (addr_Port (aa_Addr f)))))"

fun ReadBytes_loop :: "nat \<Rightarrow> bytes \<Rightarrow> (bytes \<times> bytes) result" where
  "ReadBytes_loop 0 r = Inr ([], r)"
| "ReadBytes_loop (Suc n) r =
     andThen (ReadByte r) (\<lambda>(b, r).
     andThen (ReadBytes_loop n r) (\<lambda>(bs, r). Inr (b # bs, r)))"

definition ParseAddAddressFrame :: "bytes \<Rightarrow> VersionNumber \<Rightarrow> (AddAddressFrame \<times> bytes) result" where
  "ParseAddAddressFrame r version =
     andThen (ReadByte r) (\<lambda>(_, r).
     andThen (ReadByte r) (\<lambda>(ipv, r).
     andThen
       (if ipv = 4 then
          andThen (ReadBytes_loop 4 r) (\<lambda>(bs, r). Inr (v4InV6Prefix @ bs, r))
        else if ipv = 6 then ReadBytes_loop 16 r
        else Inl ErrUnknownIPVersion) (\<lambda>(ip, r).
     andThen (ReadUint16 (GetByteOrder version) r) (\<lambda>(port, r).
       Inr (\<lparr>aa_IPVersion = ipv,
             aa_Addr = \<lparr>addr_IP = ip, addr_Port = uint port, addr_Zone = []\<rparr>\<rparr>, r)))))"

definition AddAddressFrame_MinLength :: "AddAddressFrame \<Rightarrow> VersionNumber \<Rightarrow> ByteCount result" where
  "AddAddressFrame_MinLength f version =
     (if aa_IPVersion f = 4 then Inr (1 + 1 + 4 + 2)
      else if aa_IPVersion f = 6 then Inr (1 + 1 + 16 + 2)
      else Inl ErrUnknownIPVersion)"

section \<open>The contract of a frame\<close>

text \<open>
  What a frame type promises to the packer and to the unpacker: a valid frame is written, its first
  byte is a type byte of the frame, its \<^verbatim>\<open>MinLength\<close> is the number of bytes written, and the parser
  reads exactly these bytes back, up to the fields that are not transmitted (\<open>canon\<close>). A parser
  that succeeds consumes at least one byte.
\<close>

locale frame_codec =
  fixes encode :: "'f \<Rightarrow> VersionNumber \<Rightarrow> bytes result"
    and minLength :: "'f \<Rightarrow> VersionNumber \<Rightarrow> ByteCount result"
    and parse :: "bytes \<Rightarrow> VersionNumber \<Rightarrow> ('f \<times> bytes) result"
    and valid :: "'f \<Rightarrow> VersionNumber \<Rightarrow> bool"
    and canon :: "'f \<Rightarrow> 'f"
    and typeByte :: "u8 \<Rightarrow> bool"
  assumes written: "valid f v \<Longrightarrow> \<exists>t bs. encode f v = Inr (t # bs) \<and> typeByte t"
    and read_back: "valid f v \<Longrightarrow> encode f v = Inr bs \<Longrightarrow> parse (bs @ r) v = Inr (canon f, r)"
    and min_length: "valid f v \<Longrightarrow> encode f v = Inr bs \<Longrightarrow> minLength f v = Inr (of_nat (length bs))"
    and consumes: "parse bs v = Inr (f, r) \<Longrightarrow> length r < length bs"
begin

lemma write_prefix_free:
  assumes "valid f v" "valid g v" "encode f v = Inr a" "encode g v = Inr b" "a @ r = b @ s"
  shows "canon f = canon g \<and> r = s"
proof -
  have "parse (a @ r) v = Inr (canon f, r)" "parse (b @ s) v = Inr (canon g, s)"
    using assms(1-4) by (simp_all add: read_back)
  with assms(5) show ?thesis by simp
qed

lemma write_injective:
  "valid f v \<Longrightarrow> valid g v \<Longrightarrow> encode f v = encode g v \<Longrightarrow> canon f = canon g"
  using written [of f v] write_prefix_free [of f v g _ _ "[]" "[]"] by auto

end

interpretation window_update: frame_codec WindowUpdateFrame_Write WindowUpdateFrame_MinLength
  ParseWindowUpdateFrame "\<lambda>f v. True" "\<lambda>f. f" "\<lambda>t. t = 0x04"
  by unfold_locales (auto simp: WindowUpdateFrame_Write_def ParseWindowUpdateFrame_def
      WindowUpdateFrame_MinLength_def dest!: bo_consumes)

interpretation blocked: frame_codec BlockedFrame_Write BlockedFrame_MinLength
  ParseBlockedFrame "\<lambda>f v. True" "\<lambda>f. f" "\<lambda>t. t = 0x05"
  by unfold_locales (auto simp: BlockedFrame_Write_def ParseBlockedFrame_def
      BlockedFrame_MinLength_def dest: bo_consumes)

interpretation ping: frame_codec PingFrame_Write PingFrame_MinLength
  ParsePingFrame "\<lambda>f v. True" "\<lambda>f. f" "\<lambda>t. t = 0x07"
  by unfold_locales (auto simp: PingFrame_Write_def ParsePingFrame_def
      PingFrame_MinLength_def, metis PingFrame.exhaust)

interpretation rst_stream: frame_codec RstStreamFrame_Write RstStreamFrame_MinLength
  ParseRstStreamFrame "\<lambda>f v. True" "\<lambda>f. f" "\<lambda>t. t = 0x01"
  by unfold_locales (auto simp: RstStreamFrame_Write_def ParseRstStreamFrame_def
      RstStreamFrame_MinLength_def dest!: bo_consumes)

text \<open>The reason phrase must fit the length that the parser accepts.\<close>

definition GoawayFrame_valid :: "GoawayFrame \<Rightarrow> VersionNumber \<Rightarrow> bool" where
  "GoawayFrame_valid f version \<longleftrightarrow> length (ga_ReasonPhrase f) \<le> 1350"

definition ConnectionCloseFrame_valid :: "ConnectionCloseFrame \<Rightarrow> VersionNumber \<Rightarrow> bool" where
  "ConnectionCloseFrame_valid f version \<longleftrightarrow> length (cc_ReasonPhrase f) \<le> 1350"

lemma unat_of_nat_16: "n \<le> 65535 \<Longrightarrow> unat (of_nat n :: u16) = n"
  by (simp add: unat_of_nat take_bit_nat_eq_self)

lemma phrase_length_ok: "n \<le> 1350 \<Longrightarrow> \<not> (1350 :: u16) < of_nat n"
  by (simp add: word_less_nat_alt unat_of_nat_16)

interpretation goaway: frame_codec GoawayFrame_Write GoawayFrame_MinLength
  ParseGoawayFrame GoawayFrame_valid "\<lambda>f. f" "\<lambda>t. t = 0x03"
proof unfold_locales
  show "ParseGoawayFrame (bs @ r) v = Inr (f, r)"
    if "GoawayFrame_valid f v" "GoawayFrame_Write f v = Inr bs" for f v bs r
    using that by (auto simp: GoawayFrame_Write_def ParseGoawayFrame_def GoawayFrame_valid_def
        phrase_length_ok unat_of_nat_16 simp del: andThen_Inr_iff)
qed (auto simp: GoawayFrame_Write_def ParseGoawayFrame_def GoawayFrame_MinLength_def
      ReadFull_Inr_iff dest!: bo_consumes split: if_splits)

interpretation connection_close: frame_codec ConnectionCloseFrame_Write ConnectionCloseFrame_MinLength
  ParseConnectionCloseFrame ConnectionCloseFrame_valid "\<lambda>f. f" "\<lambda>t. t = 0x02"
proof unfold_locales
  show "ParseConnectionCloseFrame (bs @ r) v = Inr (f, r)"
    if "ConnectionCloseFrame_valid f v" "ConnectionCloseFrame_Write f v = Inr bs" for f v bs r
    using that by (auto simp: ConnectionCloseFrame_Write_def ParseConnectionCloseFrame_def
        ConnectionCloseFrame_valid_def phrase_length_ok unat_of_nat_16 simp del: andThen_Inr_iff)
qed (auto simp: ConnectionCloseFrame_Write_def ParseConnectionCloseFrame_def
      ConnectionCloseFrame_MinLength_def ConnectionCloseFrame_valid_def
      ReadFull_Inr_iff dest!: bo_consumes split: if_splits)

section \<open>Stop waiting\<close>

text \<open>The frames that can be sent with the packet \<open>pn\<close> whose number is written in \<open>len\<close> bytes.\<close>

definition StopWaitingFrame_valid ::
  "PacketNumber \<Rightarrow> PacketNumberLen \<Rightarrow> StopWaitingFrame \<Rightarrow> VersionNumber \<Rightarrow> bool" where
  "StopWaitingFrame_valid pn len f version \<longleftrightarrow>
     sw_PacketNumber f = pn \<and> sw_PacketNumberLen f = len \<and> validPacketNumberLen len
     \<and> 0 < sw_LeastUnacked f \<and> sw_LeastUnacked f \<le> pn
     \<and> unat (pn - sw_LeastUnacked f) < 2 ^ (8 * unat len)"

definition StopWaitingFrame_canon :: "StopWaitingFrame \<Rightarrow> StopWaitingFrame" where
  "StopWaitingFrame_canon f = f\<lparr>sw_PacketNumberLen := 0, sw_PacketNumber := 0\<rparr>"

lemma ucast_down_up:
  fixes x :: u64
  shows "unat x < 2 ^ 8 \<Longrightarrow> ucast (ucast x :: u8) = x"
    and "unat x < 2 ^ 16 \<Longrightarrow> ucast (ucast x :: u16) = x"
    and "unat x < 2 ^ 32 \<Longrightarrow> ucast (ucast x :: u32) = x"
  by (simp_all add: word_unat_eq_iff unsigned_ucast_eq take_bit_word_self)

lemma and_mask_48: "unat x < 2 ^ 48 \<Longrightarrow> x AND 0xFFFFFFFFFFFF = (x :: u64)"
  using take_bit_word_self [of x 48] by (simp add: take_bit_eq_mask mask_eq_exp_minus_1)

text \<open>Writing a value that fits in the given number of bytes, as the packet number fields do.\<close>

lemma stop_waiting_written:
  assumes "StopWaitingFrame_valid pn len f v"
  shows "\<exists>bs. StopWaitingFrame_Write f v = Inr (0x06 # bs) \<and> length bs = unat len
    \<and> (\<forall>r. ReadUintN (GetByteOrder v) (bs @ r) len = Inr (pn - sw_LeastUnacked f, r))"
proof -
  let ?d = "pn - sw_LeastUnacked f"
  have nz: "sw_PacketNumber f \<noteq> 0" "\<not> sw_PacketNumber f < sw_LeastUnacked f"
    using assms by (auto simp: StopWaitingFrame_valid_def)
  consider "len = 1" "unat ?d < 2 ^ 8" | "len = 2" "unat ?d < 2 ^ 16"
    | "len = 4" "unat ?d < 2 ^ 32" | "len = 6" "unat ?d < 2 ^ 48"
    using assms by (auto simp: StopWaitingFrame_valid_def validPacketNumberLen_def)
  then show ?thesis
  proof cases
    case 4
    then obtain bs where "WriteUint48 (GetByteOrder v) ?d = Inr bs" "length bs = 6"
      "\<forall>r. ReadUintN (GetByteOrder v) (bs @ r) 6 = Inr (?d, r)"
      using bo.write48_ok by blast
    with 4 nz assms show ?thesis
      by (auto simp: StopWaitingFrame_Write_def StopWaitingFrame_valid_def and_mask_48)
  qed (use nz assms in \<open>auto simp: StopWaitingFrame_Write_def StopWaitingFrame_valid_def ucast_down_up\<close>)
qed

interpretation stop_waiting: frame_codec StopWaitingFrame_Write StopWaitingFrame_MinLength
  "\<lambda>r v. ParseStopWaitingFrame r pn len v" "StopWaitingFrame_valid pn len" StopWaitingFrame_canon
  "\<lambda>t. t = 0x06" for pn len
proof unfold_locales
  fix f v bs r assume f: "StopWaitingFrame_valid pn len f v" and w: "StopWaitingFrame_Write f v = Inr bs"
  obtain bs' where bs: "bs = 0x06 # bs'" "length bs' = unat len"
    "\<forall>r. ReadUintN (GetByteOrder v) (bs' @ r) len = Inr (pn - sw_LeastUnacked f, r)"
    using stop_waiting_written [OF f] w by auto
  have "pn - sw_LeastUnacked f < pn"
    using f by (auto simp: StopWaitingFrame_valid_def word_less_nat_alt word_le_nat_alt unat_sub)
  then show "ParseStopWaitingFrame (bs @ r) pn len v = Inr (StopWaitingFrame_canon f, r)"
    using f bs by (cases f) (simp add: ParseStopWaitingFrame_def StopWaitingFrame_canon_def)
  show "StopWaitingFrame_MinLength f v = Inr (word_of_nat (length bs))"
    using f bs by (auto simp: StopWaitingFrame_valid_def StopWaitingFrame_MinLength_def validPacketNumberLen_def)
qed (auto simp: ParseStopWaitingFrame_def split: if_splits dest: stop_waiting_written bo_consumes)


section \<open>Multipath frames\<close>

text \<open>The round trip time that a peer reads: whole microseconds, rounded to a 16-bit float.\<close>

definition rtt_on_wire :: "duration \<Rightarrow> duration" where
  "rtt_on_wire rtt =
     i64 (i64 (uint (ufloat16_decode (ufloat16_encode (word_of_int (quot rtt Microsecond))))) * Microsecond)"

definition PathsFrame_valid :: "PathsFrame \<Rightarrow> VersionNumber \<Rightarrow> bool" where
  "PathsFrame_valid f version \<longleftrightarrow>
     unat (pf_NumPaths f) = length (pf_PathIDs f) \<and> length (pf_PathIDs f) = length (pf_RemoteRTTs f)
     \<and> pf_NumPaths f \<le> pf_MaxNumPaths f \<and> unat (pf_NumPaths f) \<le> 84"

definition PathsFrame_canon :: "PathsFrame \<Rightarrow> PathsFrame" where
  "PathsFrame_canon f = f\<lparr>pf_RemoteRTTs := map rtt_on_wire (pf_RemoteRTTs f)\<rparr>"

lemma length_PathsFrame_Write_loop:
  "length ids = length rtts \<Longrightarrow> length (PathsFrame_Write_loop v ids rtts) = 3 * length ids"
  by (induction v ids rtts rule: PathsFrame_Write_loop.induct) (simp_all add: writeUfloat16_def)

lemma ParsePathsFrame_loop_written:
  "length ids = length rtts \<Longrightarrow>
   ParsePathsFrame_loop (length ids) v (PathsFrame_Write_loop v ids rtts @ r)
     = Inr ((ids, map rtt_on_wire rtts), r)"
  by (induction v ids rtts rule: PathsFrame_Write_loop.induct)
    (simp_all add: writeUfloat16_def readUfloat16_def rtt_on_wire_def)

lemma ParsePathsFrame_loop_consumes:
  "ParsePathsFrame_loop n v bs = Inr (x, r) \<Longrightarrow> length r \<le> length bs"
  by (induction n arbitrary: bs x) (fastforce simp: readUfloat16_def dest!: bo_consumes)+

interpretation paths: frame_codec PathsFrame_Write PathsFrame_MinLength ParsePathsFrame
  PathsFrame_valid PathsFrame_canon "\<lambda>t. t = 0x12"
proof unfold_locales
  fix f v bs r assume f: "PathsFrame_valid f v" and w: "PathsFrame_Write f v = Inr bs"
  have bs: "bs = [0x12, pf_MaxNumPaths f, pf_NumPaths f]
      @ PathsFrame_Write_loop v (pf_PathIDs f) (pf_RemoteRTTs f)"
    using f w by (simp add: PathsFrame_Write_def PathsFrame_valid_def split: if_splits)
  show "ParsePathsFrame (bs @ r) v = Inr (PathsFrame_canon f, r)"
    using f ParsePathsFrame_loop_written [of "pf_PathIDs f" "pf_RemoteRTTs f" v r]
    by (simp add: bs ParsePathsFrame_def PathsFrame_valid_def PathsFrame_canon_def not_less del: andThen_Inr_iff)
  have "unat (3 + 3 * pf_NumPaths f) = 3 + 3 * unat (pf_NumPaths f)"
    using f by (simp add: unat_word_ariths PathsFrame_valid_def)
  moreover have "length bs = 3 + 3 * unat (pf_NumPaths f)"
    using f by (simp add: bs length_PathsFrame_Write_loop PathsFrame_valid_def)
  ultimately have "length bs = unat (3 + 3 * pf_NumPaths f)" by simp
  then show "PathsFrame_MinLength f v = Inr (word_of_nat (length bs))"
    by (simp add: PathsFrame_MinLength_def)
qed (auto simp: PathsFrame_Write_def PathsFrame_valid_def ParsePathsFrame_def
      dest: ParsePathsFrame_loop_consumes split: if_splits)

definition AddAddressFrame_valid :: "AddAddressFrame \<Rightarrow> VersionNumber \<Rightarrow> bool" where
  "AddAddressFrame_valid f version \<longleftrightarrow>
     (aa_IPVersion f = 4 \<and> IP_To4 (addr_IP (aa_Addr f)) \<noteq> None
      \<or> aa_IPVersion f = 6 \<and> IP_To16 (addr_IP (aa_Addr f)) \<noteq> None)
     \<and> 0 \<le> addr_Port (aa_Addr f) \<and> addr_Port (aa_Addr f) < 65536"

text \<open>The address that a peer reads: the 16-byte form of the IP address, without a zone.\<close>

definition AddAddressFrame_canon :: "AddAddressFrame \<Rightarrow> AddAddressFrame" where
  "AddAddressFrame_canon f =
     f\<lparr>aa_Addr := \<lparr>addr_IP = the (IP_To16 (addr_IP (aa_Addr f))),
         addr_Port = addr_Port (aa_Addr f), addr_Zone = []\<rparr>\<rparr>"

lemma ReadBytes_loop_append [simp]: "n = length bs \<Longrightarrow> ReadBytes_loop n (bs @ r) = Inr (bs, r)"
  by (induction bs arbitrary: n) simp_all

lemma ReadBytes_loop_consumes: "ReadBytes_loop n bs = Inr (x, r) \<Longrightarrow> length r \<le> length bs"
  by (induction n arbitrary: bs x) fastforce+

lemma IP_To4_length: "IP_To4 ip = Some x \<Longrightarrow> length x = 4"
  by (auto simp: IP_To4_def split: if_splits)

lemma IP_To16_length: "IP_To16 ip = Some x \<Longrightarrow> length x = 16"
  by (auto simp: IP_To16_def v4InV6Prefix_def split: if_splits)

lemma IP_To4_To16: "IP_To4 ip = Some x \<Longrightarrow> IP_To16 ip = Some (v4InV6Prefix @ x)"
  by (auto simp: IP_To4_def IP_To16_def split: if_splits) (metis append_take_drop_id)

interpretation add_address: frame_codec AddAddressFrame_Write AddAddressFrame_MinLength
  ParseAddAddressFrame AddAddressFrame_valid AddAddressFrame_canon "\<lambda>t. t = 0x10"
proof unfold_locales
  fix f v bs r assume f: "AddAddressFrame_valid f v" and w: "AddAddressFrame_Write f v = Inr bs"
  have port: "uint (word_of_int (addr_Port (aa_Addr f)) :: u16) = addr_Port (aa_Addr f)"
    using f by (simp add: AddAddressFrame_valid_def unsigned_of_int take_bit_int_eq_self)
  show "ParseAddAddressFrame (bs @ r) v = Inr (AddAddressFrame_canon f, r)"
    using f w port by (cases f)
     (auto simp: AddAddressFrame_Write_def ParseAddAddressFrame_def AddAddressFrame_valid_def
        AddAddressFrame_canon_def IP_To4_length IP_To16_length IP_To4_To16 simp del: andThen_Inr_iff)
  show "AddAddressFrame_MinLength f v = Inr (word_of_nat (length bs))"
    using f w by (auto simp: AddAddressFrame_MinLength_def AddAddressFrame_Write_def
        AddAddressFrame_valid_def IP_To4_length IP_To16_length)
qed (auto simp: AddAddressFrame_Write_def AddAddressFrame_valid_def ParseAddAddressFrame_def
      dest!: bo_consumes ReadBytes_loop_consumes split: if_splits)

lemma rtt_on_wire_precision:
  assumes "0 \<le> rtt" "rtt < 2 ^ 51"
  shows "rtt_on_wire rtt \<le> rtt" "2048 * (rtt - rtt_on_wire rtt) \<le> rtt + 2048 * 1000"
proof -
  define v :: u64 where "v = word_of_int (quot rtt Microsecond)"
  have q: "uint v = rtt div 1000" "rtt div 1000 < 2 ^ 42 - 2 ^ 31"
    using assms by (simp_all add: v_def quot_nonneg unsigned_of_int take_bit_int_eq_self)
  then have "v < uFloat16MaxValue" by (simp add: uFloat16MaxValue_def word_less_def)
  define w where "w = ufloat16_decode (ufloat16_encode v)"
  have "unat w \<le> unat v" "2048 * (unat v - unat w) \<le> unat v"
    using ufloat16_rounding [OF \<open>v < uFloat16MaxValue\<close>] by (simp_all add: w_def)
  then have w: "uint w \<le> uint v" "2048 * (uint v - uint w) \<le> uint v"
    by (simp_all add: uint_nat of_nat_diff del: of_nat_unat) 
  have "0 \<le> uint w" "uint w < 2 ^ 42" using w(1) q by simp_all
  then have "i64 (uint w) = uint w" "i64 (uint w * 1000) = uint w * 1000"
    by (auto intro!: i64_id simp only: minInt64_def maxInt64_def) simp_all
  then have "rtt_on_wire rtt = uint w * 1000"
    by (simp add: rtt_on_wire_def v_def [symmetric] w_def [symmetric])
  moreover have v: "uint v * 1000 \<le> rtt" "rtt \<le> uint v * 1000 + 1000" using q(1) by simp_all
  moreover have "2048 * (uint v * 1000 - uint w * 1000) \<le> uint v * 1000" using w(2) by simp
  ultimately show "rtt_on_wire rtt \<le> rtt" "2048 * (rtt - rtt_on_wire rtt) \<le> rtt + 2048 * 1000"
    using w(1) by simp_all
qed

section \<open>Properties of the control frames\<close>

text \<open>A stop waiting frame sent with its packet is written in one type byte and as many bytes as
  the packet number takes, and the receiver of the packet reads the same least unacked packet number
  back.\<close>

theorem stop_waiting_roundtrip:
  assumes "StopWaitingFrame_valid pn len f v"
  shows "\<exists>bs f'. StopWaitingFrame_Write f v = Inr bs
    \<and> StopWaitingFrame_MinLength f v = Inr (of_nat (length bs))
    \<and> ParseStopWaitingFrame (bs @ r) pn len v = Inr (f', r)
    \<and> sw_LeastUnacked f' = sw_LeastUnacked f"
  using stop_waiting.written [OF assms] stop_waiting.read_back [OF assms] stop_waiting.min_length [OF assms]
  by (fastforce simp: StopWaitingFrame_canon_def)

lemma stop_waiting_roundtrip_witness:
  "\<exists>bs f'. StopWaitingFrame_Write \<lparr>sw_LeastUnacked = 0x1337, sw_PacketNumberLen = 2, sw_PacketNumber = 0x1400\<rparr> 39
      = Inr bs
    \<and> ParseStopWaitingFrame bs 0x1400 2 39 = Inr (f', []) \<and> sw_LeastUnacked f' = 0x1337"
  using stop_waiting_roundtrip [of "0x1400" 2
      "\<lparr>sw_LeastUnacked = 0x1337, sw_PacketNumberLen = 2, sw_PacketNumber = 0x1400\<rparr>" 39 "[]"]
  by (simp add: StopWaitingFrame_valid_def validPacketNumberLen_def) blast

text \<open>C25. A connection close frame whose reason phrase has at most 1350 bytes is read back unchanged,
  and a longer one is rejected by the parser, although the writer accepts up to 65535 bytes.\<close>

theorem connection_close_phrase_limit:
  assumes "length (cc_ReasonPhrase f) \<le> 65535"
  shows "\<exists>bs. ConnectionCloseFrame_Write f v = Inr bs
    \<and> ParseConnectionCloseFrame (bs @ r) v =
        (if length (cc_ReasonPhrase f) \<le> 1350 then Inr (f, r) else Inl (QuicError InvalidConnectionCloseData))"
proof (cases "length (cc_ReasonPhrase f) \<le> 1350")
  case True
  then have valid: "ConnectionCloseFrame_valid f v" by (simp add: ConnectionCloseFrame_valid_def)
  from connection_close.written [OF this] connection_close.read_back [OF this] True
  show ?thesis by fastforce
next
  case False
  then have "(1350 :: u16) < of_nat (length (cc_ReasonPhrase f))"
    using assms by (simp add: word_less_nat_alt unat_of_nat_16)
  with False assms show ?thesis
    by (simp add: ConnectionCloseFrame_Write_def ParseConnectionCloseFrame_def)
qed

lemma connection_close_phrase_limit_witness:
  "\<exists>bs. ConnectionCloseFrame_Write \<lparr>cc_ErrorCode = 25, cc_ReasonPhrase = replicate 1351 0\<rparr> 39 = Inr bs
    \<and> ParseConnectionCloseFrame bs 39 = Inl (QuicError InvalidConnectionCloseData)"
  using connection_close_phrase_limit [of "\<lparr>cc_ErrorCode = 25, cc_ReasonPhrase = replicate 1351 0\<rparr>" 39 "[]"]
  by simp

text \<open>A paths frame with at most 84 paths is read back with the same path identifiers, in the same
  order, and with each round trip time rounded down by less than a microsecond and one part in 2048.\<close>

theorem paths_frame_roundtrip:
  assumes "PathsFrame_valid f v" "\<forall>rtt \<in> set (pf_RemoteRTTs f). 0 \<le> rtt \<and> rtt < 2 ^ 51"
  shows "\<exists>bs rtts. PathsFrame_Write f v = Inr bs
    \<and> PathsFrame_MinLength f v = Inr (of_nat (length bs))
    \<and> ParsePathsFrame (bs @ r) v = Inr (f\<lparr>pf_RemoteRTTs := rtts\<rparr>, r)
    \<and> list_all2 (\<lambda>rtt' rtt. rtt' \<le> rtt \<and> 2048 * (rtt - rtt') \<le> rtt + 2048 * 1000) rtts (pf_RemoteRTTs f)"
proof -
  have "list_all2 (\<lambda>rtt' rtt. rtt' \<le> rtt \<and> 2048 * (rtt - rtt') \<le> rtt + 2048 * 1000)
      (map rtt_on_wire (pf_RemoteRTTs f)) (pf_RemoteRTTs f)"
    unfolding list.rel_map
    by (rule list.rel_refl_strong) (use assms(2) rtt_on_wire_precision in blast)
  then show ?thesis
    using paths.written [OF assms(1)] paths.read_back [OF assms(1)] paths.min_length [OF assms(1)]
    by (fastforce simp: PathsFrame_canon_def)
qed

lemma paths_frame_roundtrip_witness:
  "let f = \<lparr>pf_MaxNumPaths = 5, pf_NumPaths = 2, pf_PathIDs = [0, 3], pf_RemoteRTTs = [20000000, 1234567]\<rparr>
   in \<exists>bs rtts. PathsFrame_Write f 39 = Inr bs \<and> ParsePathsFrame bs 39 = Inr (f\<lparr>pf_RemoteRTTs := rtts\<rparr>, [])"
  using paths_frame_roundtrip [of "\<lparr>pf_MaxNumPaths = 5, pf_NumPaths = 2, pf_PathIDs = [0, 3],
      pf_RemoteRTTs = [20000000, 1234567]\<rparr>" 39 "[]"]
  by (auto simp: PathsFrame_valid_def Let_def)

text \<open>C26. The length that a paths frame with 85 or more paths announces is less than the number of
  bytes it is written in, because the sum is computed in eight bits.\<close>

theorem paths_frame_min_length_wraps:
  assumes "PathsFrame_Write f v = Inr bs" "85 \<le> unat (pf_NumPaths f)"
  shows "\<exists>n. PathsFrame_MinLength f v = Inr n \<and> unat n + 256 \<le> length bs"
proof -
  let ?n = "3 + 3 * pf_NumPaths f"
  have len: "length bs = 3 + 3 * unat (pf_NumPaths f)"
    using assms(1) by (auto simp: PathsFrame_Write_def length_PathsFrame_Write_loop split: if_splits)
  have n: "unat ?n = (3 + 3 * unat (pf_NumPaths f)) mod 256" by (simp add: unat_word_ariths mod_simps)
  have "3 + 3 * unat (pf_NumPaths f) = 256 * (length bs div 256) + unat ?n"
    unfolding n len by simp
  moreover have "1 \<le> length bs div 256" using assms(2) len by (simp add: less_eq_div_iff_mult_less_eq)
  ultimately have "unat ?n + 256 \<le> length bs" using len by linarith
  moreover have "unat (ucast ?n :: u64) = unat ?n"
    using unsigned_less [of ?n, where ?'a = nat] by (simp add: unsigned_ucast_eq take_bit_nat_eq_self)
  ultimately show ?thesis by (simp add: PathsFrame_MinLength_def)
qed

lemma paths_frame_min_length_wraps_witness:
  "let f = \<lparr>pf_MaxNumPaths = 100, pf_NumPaths = 85, pf_PathIDs = replicate 85 0, pf_RemoteRTTs = replicate 85 0\<rparr>
   in \<exists>bs n. PathsFrame_Write f 39 = Inr bs \<and> PathsFrame_MinLength f 39 = Inr n \<and> unat n + 256 \<le> length bs"
proof -
  let ?f = "\<lparr>pf_MaxNumPaths = 100, pf_NumPaths = 85, pf_PathIDs = replicate 85 0, pf_RemoteRTTs = replicate 85 0\<rparr>"
  obtain bs where "PathsFrame_Write ?f 39 = Inr bs" by (simp add: PathsFrame_Write_def)
  with paths_frame_min_length_wraps [OF this] show ?thesis by simp
qed

text \<open>An add address frame for an address of the announced IP version is read back with the same
  IP address, in its 16-byte form, and the same port.\<close>

theorem add_address_roundtrip:
  assumes "AddAddressFrame_valid f v"
  shows "\<exists>bs f'. AddAddressFrame_Write f v = Inr bs
    \<and> AddAddressFrame_MinLength f v = Inr (of_nat (length bs))
    \<and> ParseAddAddressFrame (bs @ r) v = Inr (f', r)
    \<and> aa_IPVersion f' = aa_IPVersion f \<and> addr_Port (aa_Addr f') = addr_Port (aa_Addr f)
    \<and> Some (addr_IP (aa_Addr f')) = IP_To16 (addr_IP (aa_Addr f))"
proof -
  have "Some (addr_IP (aa_Addr (AddAddressFrame_canon f))) = IP_To16 (addr_IP (aa_Addr f))"
    using assms by (auto simp: AddAddressFrame_valid_def AddAddressFrame_canon_def IP_To4_To16)
  then show ?thesis
    using add_address.written [OF assms] add_address.read_back [OF assms] add_address.min_length [OF assms]
    by (fastforce simp: AddAddressFrame_canon_def)
qed

lemma add_address_roundtrip_witness:
  "\<exists>bs f'. AddAddressFrame_Write
       \<lparr>aa_IPVersion = 4, aa_Addr = \<lparr>addr_IP = [10, 0, 0, 1], addr_Port = 4242, addr_Zone = []\<rparr>\<rparr> 39 = Inr bs
    \<and> ParseAddAddressFrame bs 39 = Inr (f', []) \<and> addr_Port (aa_Addr f') = 4242
    \<and> addr_IP (aa_Addr f') = v4InV6Prefix @ [10, 0, 0, 1]"
  using add_address_roundtrip [of "\<lparr>aa_IPVersion = 4,
      aa_Addr = \<lparr>addr_IP = [10, 0, 0, 1], addr_Port = 4242, addr_Zone = []\<rparr>\<rparr>" 39 "[]"]
  by (auto simp: AddAddressFrame_valid_def IP_To4_def IP_To16_def)

end
