(* ===== verification/Stream_Frame.thy ===== *)
theory Stream_Frame
  imports Wire_Frames
begin

text \<open>The stream frame of \<^verbatim>\<open>internal/wire/stream_frame.go\<close>: its variable-length encoding of the
  stream identifier and the offset, the parser with its checks, and the round trip.\<close>

section \<open>Model\<close>

record StreamFrame =
  sf_StreamID :: StreamID
  sf_FinBit :: bool
  sf_DataLenPresent :: bool
  sf_Offset :: ByteCount
  sf_Data :: bytes

definition sf_DataLen :: "StreamFrame \<Rightarrow> ByteCount" where
  "sf_DataLen f = of_nat (length (sf_Data f))"

definition calculateStreamIDLength :: "StreamFrame \<Rightarrow> u8" where
  "calculateStreamIDLength f =
     (if sf_StreamID f < push_bit 8 1 then 1
      else if sf_StreamID f < push_bit 16 1 then 2
      else if sf_StreamID f < push_bit 24 1 then 3
      else 4)"

definition getOffsetLength :: "StreamFrame \<Rightarrow> ByteCount" where
  "getOffsetLength f =
     (if sf_Offset f = 0 then 0
      else if sf_Offset f < push_bit 16 1 then 2
      else if sf_Offset f < push_bit 24 1 then 3
      else if sf_Offset f < push_bit 32 1 then 4
      else if sf_Offset f < push_bit 40 1 then 5
      else if sf_Offset f < push_bit 48 1 then 6
      else if sf_Offset f < push_bit 56 1 then 7
      else 8)"

definition StreamFrame_MinLength :: "StreamFrame \<Rightarrow> VersionNumber \<Rightarrow> ByteCount result" where
  "StreamFrame_MinLength f version =
     (let len = 1 + ucast (calculateStreamIDLength f) + getOffsetLength f
      in Inr (if sf_DataLenPresent f then len + 2 else len))"

text \<open>The data length, the data and the final checks.\<close>

definition ParseStreamFrame_data ::
  "VersionNumber \<Rightarrow> bool \<Rightarrow> bool \<Rightarrow> u64 \<Rightarrow> u64 \<Rightarrow> bytes \<Rightarrow> (StreamFrame \<times> bytes) result" where
  "ParseStreamFrame_data version finBit dataLenPresent sid offset r =
     andThen (if dataLenPresent then ReadUint16 (GetByteOrder version) r else Inr (0, r)) (\<lambda>(dataLen, r).
       if dataLen > ucast MaxPacketSize then Inl (QuicError InvalidStreamData)
       else
         let dataLen = (if \<not> dataLenPresent then of_nat (length r) else dataLen) in
         andThen (if dataLen \<noteq> 0 then ReadFull r (unat dataLen) else Inr ([], r)) (\<lambda>(dat, r).
           let frame = \<lparr>sf_StreamID = ucast sid, sf_FinBit = finBit, sf_DataLenPresent = dataLenPresent,
                        sf_Offset = offset, sf_Data = dat\<rparr>
           in if sf_Offset frame + sf_DataLen frame < sf_Offset frame then Inl (QuicError InvalidStreamData)
              else if \<not> sf_FinBit frame \<and> sf_DataLen frame = 0 then Inl (QuicError EmptyStreamFrameNoFin)
              else Inr (frame, r)))"

definition ParseStreamFrame :: "bytes \<Rightarrow> VersionNumber \<Rightarrow> (StreamFrame \<times> bytes) result" where
  "ParseStreamFrame r version =
     andThen (ReadByte r) (\<lambda>(typeByte, r).
       let finBit = (typeByte AND 0x40) > 0;
           dataLenPresent = (typeByte AND 0x20) > 0;
           offsetLen = drop_bit 2 (typeByte AND 0x1c);
           offsetLen = (if offsetLen \<noteq> 0 then offsetLen + 1 else offsetLen);
           streamIDLen = (typeByte AND 0x3) + 1
       in
       andThen (ReadUintN (GetByteOrder version) r streamIDLen) (\<lambda>(sid, r).
       andThen (ReadUintN (GetByteOrder version) r offsetLen) (\<lambda>(offset, r).
         ParseStreamFrame_data version finBit dataLenPresent sid offset r)))"

definition streamFrame_typeByte :: "StreamFrame \<Rightarrow> u8" where
  "streamFrame_typeByte f =
     (let typeByte = 0x80;
          typeByte = (if sf_FinBit f then typeByte XOR 0x40 else typeByte);
          typeByte = (if sf_DataLenPresent f then typeByte XOR 0x20 else typeByte);
          offsetLength = getOffsetLength f;
          typeByte = (if offsetLength > 0 then typeByte XOR push_bit 2 (ucast offsetLength - 1) else typeByte)
      in typeByte XOR (calculateStreamIDLength f - 1))"

definition streamFrame_writeStreamID :: "StreamFrame \<Rightarrow> VersionNumber \<Rightarrow> bytes result" where
  "streamFrame_writeStreamID f version =
     (let streamIDLen = calculateStreamIDLength f in
      if streamIDLen = 1 then Inr [ucast (sf_StreamID f)]
      else if streamIDLen = 2 then Inr (WriteUint16 (GetByteOrder version) (ucast (sf_StreamID f)))
      else if streamIDLen = 3 then WriteUint24 (GetByteOrder version) (sf_StreamID f)
      else if streamIDLen = 4 then Inr (WriteUint32 (GetByteOrder version) (sf_StreamID f))
      else Inl errInvalidStreamIDLen)"

definition streamFrame_writeOffset :: "StreamFrame \<Rightarrow> VersionNumber \<Rightarrow> bytes result" where
  "streamFrame_writeOffset f version =
     (let offsetLength = getOffsetLength f in
      if offsetLength = 0 then Inr []
      else if offsetLength = 2 then Inr (WriteUint16 (GetByteOrder version) (ucast (sf_Offset f)))
      else if offsetLength = 3 then WriteUint24 (GetByteOrder version) (ucast (sf_Offset f))
      else if offsetLength = 4 then Inr (WriteUint32 (GetByteOrder version) (ucast (sf_Offset f)))
      else if offsetLength = 5 then WriteUint40 (GetByteOrder version) (sf_Offset f)
      else if offsetLength = 6 then WriteUint48 (GetByteOrder version) (sf_Offset f)
      else if offsetLength = 7 then WriteUint56 (GetByteOrder version) (sf_Offset f)
      else if offsetLength = 8 then Inr (WriteUint64 (GetByteOrder version) (sf_Offset f))
      else Inl errInvalidOffsetLen)"

definition StreamFrame_Write :: "StreamFrame \<Rightarrow> VersionNumber \<Rightarrow> bytes result" where
  "StreamFrame_Write f version =
     (if length (sf_Data f) = 0 \<and> \<not> sf_FinBit f
      then Inl (OtherError ''StreamFrame: attempting to write empty frame without FIN'')
      else
        andThen (streamFrame_writeStreamID f version) (\<lambda>sid.
        andThen (streamFrame_writeOffset f version) (\<lambda>offset.
          Inr ([streamFrame_typeByte f] @ sid @ offset
            @ (if sf_DataLenPresent f
               then WriteUint16 (GetByteOrder version) (of_nat (length (sf_Data f))) else [])
            @ sf_Data f))))"

section \<open>The type byte\<close>

text \<open>What the parser computes from the type byte that the writer sets.\<close>

lemma offset_length_cases:
  "getOffsetLength f \<in> {0, 2, 3, 4, 5, 6, 7, 8}"
  by (simp add: getOffsetLength_def)

lemma stream_id_length_cases: "calculateStreamIDLength f \<in> {1, 2, 3, 4}"
  by (simp add: calculateStreamIDLength_def)

lemma offset_bits:
  fixes n :: ByteCount
  assumes "n \<in> {2, 3, 4, 5, 6, 7, 8}"
  shows "push_bit 2 (ucast n - 1 :: u8) AND 0x40 = 0" "push_bit 2 (ucast n - 1 :: u8) AND 0x20 = 0"
    "push_bit 2 (ucast n - 1 :: u8) AND 0x80 = 0" "push_bit 2 (ucast n - 1 :: u8) AND 0x3 = 0"
    "drop_bit 2 (push_bit 2 (ucast n - 1 :: u8)) AND 7 = ucast n - 1"
  using assms by (elim insertE emptyE; simp)+

lemma stream_id_bits:
  fixes n :: u8
  assumes "n \<in> {1, 2, 3, 4}"
  shows "n - 1 AND 0x40 = 0" "n - 1 AND 0x20 = 0" "n - 1 AND 0x80 = 0" "n - 1 AND 0x3 = n - 1"
    "n - 1 AND 0x1c = 0"
  using assms by (elim insertE emptyE; simp)+

lemma type_byte_decode:
  defines "t f \<equiv> streamFrame_typeByte f"
  shows "(t f AND 0x40 > 0) = sf_FinBit f" "(t f AND 0x20 > 0) = sf_DataLenPresent f"
    "(t f AND 0x3) + 1 = calculateStreamIDLength f"
    "t f AND 0x80 = 0x80"
    "drop_bit 2 (t f AND 0x1c) = (if getOffsetLength f = 0 then 0 else ucast (getOffsetLength f) - 1)"
proof -
  note id_bits = stream_id_bits [OF stream_id_length_cases [of f]]
  note unfold = t_def streamFrame_typeByte_def Let_def bit.conj_xor_distrib2 drop_bit_xor id_bits
  have "((t f AND 0x40 > 0) = sf_FinBit f \<and> (t f AND 0x20 > 0) = sf_DataLenPresent f)
    \<and> (t f AND 0x3) + 1 = calculateStreamIDLength f \<and> t f AND 0x80 = 0x80
    \<and> drop_bit 2 (t f AND 0x1c) = (if getOffsetLength f = 0 then 0 else ucast (getOffsetLength f) - 1)"
  proof (cases "getOffsetLength f = 0")
    case True
    then show ?thesis by (cases "sf_FinBit f"; cases "sf_DataLenPresent f") (simp_all add: unfold)
  next
    case False
    then have "getOffsetLength f \<in> {2, 3, 4, 5, 6, 7, 8}" using offset_length_cases [of f] by auto
    note bits = offset_bits [OF this]
    from False have "0 < getOffsetLength f" by (simp add: word_neq_0_conv)
    with False show ?thesis
      by (cases "sf_FinBit f"; cases "sf_DataLenPresent f") (simp_all add: unfold bits)
  qed
  then show "(t f AND 0x40 > 0) = sf_FinBit f" "(t f AND 0x20 > 0) = sf_DataLenPresent f"
    "(t f AND 0x3) + 1 = calculateStreamIDLength f" "t f AND 0x80 = 0x80"
    "drop_bit 2 (t f AND 0x1c) = (if getOffsetLength f = 0 then 0 else ucast (getOffsetLength f) - 1)"
    by blast+
qed

section \<open>Round trip\<close>

lemma stream_id_written:
  "\<exists>bs. streamFrame_writeStreamID f v = Inr bs \<and> length bs = unat (calculateStreamIDLength f)
    \<and> (\<forall>r. ReadUintN (GetByteOrder v) (bs @ r) (calculateStreamIDLength f) = Inr (ucast (sf_StreamID f), r))"
proof -
  let ?s = "sf_StreamID f"
  consider "unat ?s < 2 ^ 8" | "2 ^ 8 \<le> unat ?s" "unat ?s < 2 ^ 16"
    | "2 ^ 16 \<le> unat ?s" "unat ?s < 2 ^ 24" | "2 ^ 24 \<le> unat ?s"
    by linarith
  then show ?thesis
  proof cases
    case 1
    then have "calculateStreamIDLength f = 1" "ucast (ucast ?s :: u8) = (ucast ?s :: u64)"
      by (simp_all add: calculateStreamIDLength_def word_less_nat_alt word_unat_eq_iff
          unsigned_ucast_eq take_bit_word_self)
    then show ?thesis by (simp add: streamFrame_writeStreamID_def)
  next
    case 2
    then have "calculateStreamIDLength f = 2" "ucast (ucast ?s :: u16) = (ucast ?s :: u64)"
      by (simp_all add: calculateStreamIDLength_def word_less_nat_alt word_unat_eq_iff
          unsigned_ucast_eq take_bit_word_self)
    then show ?thesis by (simp add: streamFrame_writeStreamID_def)
  next
    case 3
    then have "calculateStreamIDLength f = 3"
      by (simp add: calculateStreamIDLength_def word_less_nat_alt)
    with bo.write24_ok [OF 3(2), of "GetByteOrder v"] show ?thesis
      by (auto simp: streamFrame_writeStreamID_def)
  next
    case 4
    then have "calculateStreamIDLength f = 4"
      by (simp add: calculateStreamIDLength_def word_less_nat_alt)
    then show ?thesis by (simp add: streamFrame_writeStreamID_def)
  qed
qed

lemma stream_offset_written:
  "\<exists>bs. streamFrame_writeOffset f v = Inr bs \<and> length bs = unat (getOffsetLength f)
    \<and> (\<forall>r. ReadUintN (GetByteOrder v) (bs @ r) (ucast (getOffsetLength f)) = Inr (sf_Offset f, r))"
proof -
  let ?o = "sf_Offset f"
  consider "?o = 0" | "?o \<noteq> 0" "unat ?o < 2 ^ 16" | "2 ^ 16 \<le> unat ?o" "unat ?o < 2 ^ 24"
    | "2 ^ 24 \<le> unat ?o" "unat ?o < 2 ^ 32" | "2 ^ 32 \<le> unat ?o" "unat ?o < 2 ^ 40"
    | "2 ^ 40 \<le> unat ?o" "unat ?o < 2 ^ 48" | "2 ^ 48 \<le> unat ?o" "unat ?o < 2 ^ 56"
    | "2 ^ 56 \<le> unat ?o"
    by linarith
  then show ?thesis
  proof cases
    case 3
    then have "getOffsetLength f = 3" "unat (ucast ?o :: u32) < 2 ^ 24" "ucast (ucast ?o :: u32) = ?o"
      by (auto simp: getOffsetLength_def word_less_nat_alt unsigned_ucast_eq take_bit_nat_eq_self
        take_bit_word_self)
    with bo.write24_ok [of "ucast ?o" "GetByteOrder v"] show ?thesis
      by (auto simp: streamFrame_writeOffset_def)
  next
    case 5
    then have "getOffsetLength f = 5" by (auto simp: getOffsetLength_def word_less_nat_alt)
    with bo.write40_ok [OF 5(2), of "GetByteOrder v"] show ?thesis
      by (auto simp: streamFrame_writeOffset_def)
  next
    case 6
    then have "getOffsetLength f = 6" by (auto simp: getOffsetLength_def word_less_nat_alt)
    with bo.write48_ok [OF 6(2), of "GetByteOrder v"] show ?thesis
      by (auto simp: streamFrame_writeOffset_def)
  next
    case 7
    then have "getOffsetLength f = 7" by (auto simp: getOffsetLength_def word_less_nat_alt)
    with bo.write56_ok [OF 7(2), of "GetByteOrder v"] show ?thesis
      by (auto simp: streamFrame_writeOffset_def)
  qed (auto simp: streamFrame_writeOffset_def getOffsetLength_def word_less_nat_alt ucast_down_up)
qed

text \<open>A frame that the peer accepts: it has data or ends the stream, the data fit in a packet, and the
  last offset is representable. A frame without a length field extends to the end of the packet.\<close>

definition StreamFrame_sendable :: "StreamFrame \<Rightarrow> bool" where
  "StreamFrame_sendable f \<longleftrightarrow> (sf_Data f \<noteq> [] \<or> sf_FinBit f) \<and> length (sf_Data f) \<le> 1350
     \<and> unat (sf_Offset f) + length (sf_Data f) < 2 ^ 64"

definition StreamFrame_valid :: "StreamFrame \<Rightarrow> VersionNumber \<Rightarrow> bool" where
  "StreamFrame_valid f version \<longleftrightarrow> StreamFrame_sendable f \<and> sf_DataLenPresent f"

lemma StreamFrame_written:
  assumes "StreamFrame_sendable f"
  obtains sid offset where
    "StreamFrame_Write f v = Inr (streamFrame_typeByte f # sid @ offset
       @ (if sf_DataLenPresent f then WriteUint16 (GetByteOrder v) (of_nat (length (sf_Data f))) else [])
       @ sf_Data f)"
    "length sid = unat (calculateStreamIDLength f)" "length offset = unat (getOffsetLength f)"
    "\<And>r. ReadUintN (GetByteOrder v) (sid @ r) (calculateStreamIDLength f) = Inr (ucast (sf_StreamID f), r)"
    "\<And>r. ReadUintN (GetByteOrder v) (offset @ r) (ucast (getOffsetLength f)) = Inr (sf_Offset f, r)"
proof -
  obtain sid where "streamFrame_writeStreamID f v = Inr sid" "length sid = unat (calculateStreamIDLength f)"
    "\<And>r. ReadUintN (GetByteOrder v) (sid @ r) (calculateStreamIDLength f) = Inr (ucast (sf_StreamID f), r)"
    using stream_id_written [of f v] by blast
  moreover obtain offset where "streamFrame_writeOffset f v = Inr offset"
    "length offset = unat (getOffsetLength f)"
    "\<And>r. ReadUintN (GetByteOrder v) (offset @ r) (ucast (getOffsetLength f)) = Inr (sf_Offset f, r)"
    using stream_offset_written [of f v] by blast
  ultimately show thesis
    using assms by (intro that [of sid offset]) (auto simp: StreamFrame_Write_def StreamFrame_sendable_def)
qed

lemma offset_length_on_wire:
  "(if drop_bit 2 (streamFrame_typeByte f AND 0x1c) \<noteq> 0
    then drop_bit 2 (streamFrame_typeByte f AND 0x1c) + 1 else drop_bit 2 (streamFrame_typeByte f AND 0x1c))
   = ucast (getOffsetLength f)"
  unfolding type_byte_decode using offset_length_cases [of f] by auto

lemma ParseStreamFrame_typeByte:
  "ParseStreamFrame (streamFrame_typeByte f # r) version =
     andThen (ReadUintN (GetByteOrder version) r (calculateStreamIDLength f)) (\<lambda>(sid, r).
     andThen (ReadUintN (GetByteOrder version) r (ucast (getOffsetLength f))) (\<lambda>(offset, r).
       ParseStreamFrame_data version (sf_FinBit f) (sf_DataLenPresent f) sid offset r))"
  unfolding ParseStreamFrame_def ReadByte.simps andThen.simps prod.case Let_def
  by (simp only: type_byte_decode(1-3) offset_length_on_wire)

lemma stream_frame_checks:
  assumes "StreamFrame_sendable f"
  shows "\<not> sf_Offset f + sf_DataLen f < sf_Offset f" "sf_FinBit f \<or> sf_DataLen f \<noteq> 0"
    "unat (of_nat (length (sf_Data f)) :: u16) = length (sf_Data f)"
    "\<not> 1350 < (of_nat (length (sf_Data f)) :: u16)"
    "(of_nat (length (sf_Data f)) :: u16) = 0 \<longleftrightarrow> sf_Data f = []"
proof -
  have len: "unat (sf_DataLen f) = length (sf_Data f)" "unat (of_nat (length (sf_Data f)) :: u16) = length (sf_Data f)"
    using assms by (simp_all add: StreamFrame_sendable_def sf_DataLen_def unat_of_nat take_bit_nat_eq_self)
  then show "unat (of_nat (length (sf_Data f)) :: u16) = length (sf_Data f)" by simp
  show "\<not> 1350 < (of_nat (length (sf_Data f)) :: u16)" "(of_nat (length (sf_Data f)) :: u16) = 0 \<longleftrightarrow> sf_Data f = []"
    using len assms by (simp_all add: StreamFrame_sendable_def word_less_nat_alt word_unat_eq_iff)
  show "\<not> sf_Offset f + sf_DataLen f < sf_Offset f"
    using assms len by (subst word_less_nat_alt, subst unat_add_lem [THEN iffD1])
      (simp_all add: StreamFrame_sendable_def)
  show "sf_FinBit f \<or> sf_DataLen f \<noteq> 0"
    using assms len by (auto simp: StreamFrame_sendable_def)
qed

lemma StreamFrame_eq_iff:
  "\<lparr>sf_StreamID = a, sf_FinBit = b, sf_DataLenPresent = c, sf_Offset = d, sf_Data = e\<rparr> = f \<longleftrightarrow>
   a = sf_StreamID f \<and> b = sf_FinBit f \<and> c = sf_DataLenPresent f \<and> d = sf_Offset f \<and> e = sf_Data f"
  by (cases f) auto

lemma ParseStreamFrame_written:
  assumes f: "StreamFrame_sendable f" and w: "StreamFrame_Write f v = Inr bs"
    and r: "sf_DataLenPresent f \<or> r = []"
  shows "ParseStreamFrame (bs @ r) v = Inr (f, r)"
proof -
  obtain sid offset where bs: "StreamFrame_Write f v = Inr (streamFrame_typeByte f # sid @ offset
       @ (if sf_DataLenPresent f then WriteUint16 (GetByteOrder v) (of_nat (length (sf_Data f))) else [])
       @ sf_Data f)"
    and rd: "\<And>r. ReadUintN (GetByteOrder v) (sid @ r) (calculateStreamIDLength f) = Inr (ucast (sf_StreamID f), r)"
      "\<And>r. ReadUintN (GetByteOrder v) (offset @ r) (ucast (getOffsetLength f)) = Inr (sf_Offset f, r)"
    using StreamFrame_written [OF f, of v] by metis
  have checks: "\<not> sf_Offset f + of_nat (length (sf_Data f)) < sf_Offset f"
    "sf_FinBit f \<or> of_nat (length (sf_Data f)) \<noteq> (0 :: ByteCount)"
    using stream_frame_checks [OF f] by (simp_all add: sf_DataLen_def)
  have data: "ReadFull (sf_Data f @ r) (length (sf_Data f)) = Inr (sf_Data f, r)" by simp
  have sid: "ucast (ucast (sf_StreamID f) :: u64) = sf_StreamID f"
    by (rule bit_eqI) (auto simp: bit_simps dest: bit_imp_le_length)
  with bs w r checks data show ?thesis
    by (cases "sf_DataLenPresent f"; cases "sf_Data f = []")
      (auto simp: ParseStreamFrame_typeByte ParseStreamFrame_data_def Let_def rd rd [of "[]", simplified] StreamFrame_eq_iff sid
        stream_frame_checks [OF f] sf_DataLen_def simp del: andThen_Inr_iff)
qed

text \<open>\<^verbatim>\<open>MinLength\<close> of a stream frame is the length of its header.\<close>

definition StreamFrame_Length :: "StreamFrame \<Rightarrow> VersionNumber \<Rightarrow> ByteCount result" where
  "StreamFrame_Length f version = andThen (StreamFrame_MinLength f version) (\<lambda>n. Inr (n + sf_DataLen f))"

lemma StreamFrame_Length_written:
  assumes f: "StreamFrame_sendable f" and w: "StreamFrame_Write f v = Inr bs"
  shows "StreamFrame_Length f v = Inr (of_nat (length bs))"
proof -
  obtain sid offset where bs: "StreamFrame_Write f v = Inr (streamFrame_typeByte f # sid @ offset
       @ (if sf_DataLenPresent f then WriteUint16 (GetByteOrder v) (of_nat (length (sf_Data f))) else [])
       @ sf_Data f)"
    and len: "length sid = unat (calculateStreamIDLength f)" "length offset = unat (getOffsetLength f)"
    using StreamFrame_written [OF f, of v] by metis
  have "of_nat (length sid) = (ucast (calculateStreamIDLength f) :: ByteCount)"
    "of_nat (length offset) = getOffsetLength f"
    by (simp_all add: len)
  with bs w show ?thesis
    by (auto simp: StreamFrame_Length_def StreamFrame_MinLength_def Let_def sf_DataLen_def)
qed

text \<open>What the parser guarantees of a frame it accepts.\<close>

lemma ParseStreamFrame_data_sound:
  assumes "ParseStreamFrame_data v fin present sid offset b = Inr (f, r)"
  shows "length r \<le> length b \<and> \<not> sf_Offset f + sf_DataLen f < sf_Offset f
    \<and> (sf_FinBit f \<or> sf_Data f \<noteq> []) \<and> (sf_DataLenPresent f \<longrightarrow> length (sf_Data f) \<le> 1350)"
proof -
  obtain dataLen b1 n where
    l: "(if present then ReadUint16 (GetByteOrder v) b else Inr (0, b)) = Inr (dataLen, b1)"
    and max: "\<not> dataLen > 1350" and n: "n = (if \<not> present then of_nat (length b1) else dataLen)"
    and d: "(if n \<noteq> 0 then ReadFull b1 (unat n) else Inr ([], b1)) = Inr (sf_Data f, r)"
    and f: "sf_DataLenPresent f = present" "\<not> sf_Offset f + sf_DataLen f < sf_Offset f"
      "sf_FinBit f \<or> sf_DataLen f \<noteq> 0"
    using assms unfolding ParseStreamFrame_data_def Let_def
    by (elim andThen_InrE) (auto split: if_splits)
  have "length b1 \<le> length b" using l by (auto dest!: bo_consumes split: if_splits)
  moreover have "length r \<le> length b1" "length (sf_Data f) = unat n"
    using d by (auto simp: ReadFull_Inr_iff split: if_splits)
  moreover have "unat dataLen \<le> 1350" using max by (simp add: word_less_nat_alt not_less)
  moreover have "sf_FinBit f \<or> sf_Data f \<noteq> []" using f(3) by (auto simp: sf_DataLen_def)
  ultimately show ?thesis using f n by auto
qed

lemma ParseStreamFrame_split:
  assumes "ParseStreamFrame b v = Inr (f, r)"
  obtains fin present sid offset b' where "length b' < length b"
    "ParseStreamFrame_data v fin present sid offset b' = Inr (f, r)"
  using assms unfolding ParseStreamFrame_def Let_def
  by (auto dest!: bo_consumes intro!: that simp del: drop_bit_and)

interpretation stream: frame_codec StreamFrame_Write StreamFrame_Length ParseStreamFrame
  StreamFrame_valid "\<lambda>f. f" "\<lambda>t. t AND 0x80 = 0x80"
proof unfold_locales
  fix f v assume "StreamFrame_valid f v"
  then have "StreamFrame_sendable f" by (simp add: StreamFrame_valid_def)
  then show "\<exists>t bs. StreamFrame_Write f v = Inr (t # bs) \<and> t AND 0x80 = 0x80"
    by (rule StreamFrame_written [of f v]) (simp add: type_byte_decode(4))
next
  fix bs v f r assume "ParseStreamFrame bs v = Inr (f, r)"
  then show "length r < length bs"
  proof (rule ParseStreamFrame_split)
    fix fin present sid offset b'
    assume "length b' < length bs" "ParseStreamFrame_data v fin present sid offset b' = Inr (f, r)"
    then show ?thesis by (auto dest: ParseStreamFrame_data_sound)
  qed
qed (auto simp: StreamFrame_valid_def intro: ParseStreamFrame_written StreamFrame_Length_written)

section \<open>Properties\<close>

text \<open>C18. A stream frame that has data or ends its stream, carries at most 1350 bytes and does not
  overflow the offset is written without an error or a panic, takes \<^verbatim>\<open>MinLength\<close> plus its data, and
  is read back unchanged; without a length field, when it is the last frame of the packet.\<close>

theorem stream_frame_roundtrip:
  assumes "StreamFrame_sendable f" "sf_DataLenPresent f \<or> r = []"
  shows "\<exists>bs n. StreamFrame_Write f v = Inr bs \<and> ParseStreamFrame (bs @ r) v = Inr (f, r)
    \<and> StreamFrame_MinLength f v = Inr n \<and> n + sf_DataLen f = of_nat (length bs)"
proof -
  obtain bs where w: "StreamFrame_Write f v = Inr bs"
    using StreamFrame_written [OF assms(1), of v] by metis
  with ParseStreamFrame_written [OF assms(1) w assms(2)] StreamFrame_Length_written [OF assms(1) w]
  show ?thesis by (auto simp: StreamFrame_Length_def)
qed

lemma stream_frame_roundtrip_witness:
  "let f = \<lparr>sf_StreamID = 0x1337, sf_FinBit = True, sf_DataLenPresent = False,
            sf_Offset = 0x123456789A, sf_Data = [1, 2, 3]\<rparr>
   in \<exists>bs. StreamFrame_Write f 39 = Inr bs \<and> ParseStreamFrame bs 39 = Inr (f, [])"
  using stream_frame_roundtrip [of "\<lparr>sf_StreamID = 0x1337, sf_FinBit = True, sf_DataLenPresent = False,
            sf_Offset = 0x123456789A, sf_Data = [1, 2, 3]\<rparr>" "[]" 39]
  by (auto simp: StreamFrame_sendable_def Let_def)

text \<open>C27. Whatever bytes arrive, a stream frame that the parser accepts does not overflow the largest
  offset, has data or ends the stream, and carries at most 1350 bytes when it states its length; the
  parser always consumes input.\<close>

theorem stream_frame_accepted:
  assumes "ParseStreamFrame b v = Inr (f, r)"
  shows "length r < length b \<and> sf_Offset f \<le> sf_Offset f + sf_DataLen f
    \<and> (sf_FinBit f \<or> sf_Data f \<noteq> []) \<and> (sf_DataLenPresent f \<longrightarrow> length (sf_Data f) \<le> 1350)"
proof -
  obtain fin present sid offset b' where "ParseStreamFrame_data v fin present sid offset b' = Inr (f, r)"
    using assms by (rule ParseStreamFrame_split)
  from ParseStreamFrame_data_sound [OF this] stream.consumes [OF assms] show ?thesis
    by (simp add: not_less)
qed

lemma stream_frame_accepted_witness:
  "\<exists>f. ParseStreamFrame [0x80, 5, 42] 39 = Inr (f, []) \<and> (sf_FinBit f \<or> sf_Data f \<noteq> [])"
proof -
  have p: "ParseStreamFrame [0x80, 5, 42] 39 = Inr (\<lparr>sf_StreamID = 5, sf_FinBit = False,
      sf_DataLenPresent = False, sf_Offset = 0, sf_Data = [42]\<rparr>, [])"
    by (simp add: ParseStreamFrame_def ParseStreamFrame_data_def GetByteOrder_def Version39_def ReadFull_def sf_DataLen_def
       be.readN_1 be.readN_0 del: andThen_Inr_iff)
  then show ?thesis using stream_frame_accepted [OF p] by blast
qed

end
