(* ===== verification/Ack_Blocks.thy ===== *)
theory Ack_Blocks
  imports Stream_Frame
begin

text \<open>The ACK ranges that the ACK frame (\<^verbatim>\<open>internal/wire/ack_frame.go\<close>) and the close path frame
  (\<^verbatim>\<open>internal/wire/close_path_frame.go\<close>) carry: their validation, their encoding in blocks of a
  gap and a length, with a gap of more than 255 packets spread over several blocks, and the parser
  of the blocks. The code of the two frames is a copy of each other in this part.\<close>

section \<open>ACK ranges\<close>

record AckRange =
  First :: PacketNumber
  Last :: PacketNumber

definition range_set :: "AckRange \<Rightarrow> PacketNumber set" where
  "range_set r = {First r .. Last r}"

fun validate_each :: "AckRange list \<Rightarrow> bool" where
  "validate_each [] = True"
| "validate_each (ackRange # rs) = (if First ackRange > Last ackRange then False else validate_each rs)"

fun validate_pairs :: "AckRange \<Rightarrow> AckRange list \<Rightarrow> bool" where
  "validate_pairs lastAckRange [] = True"
| "validate_pairs lastAckRange (ackRange # rs) =
     (if First lastAckRange \<le> First ackRange then False
      else if First lastAckRange \<le> Last ackRange + 1 then False
      else validate_pairs ackRange rs)"

definition validate_ranges :: "PacketNumber \<Rightarrow> AckRange list \<Rightarrow> bool" where
  "validate_ranges largestAcked ackRanges =
     (case ackRanges of
        [] \<Rightarrow> True
      | [r] \<Rightarrow> False
      | r # rs \<Rightarrow>
          if Last r \<noteq> largestAcked then False
          else if \<not> validate_each ackRanges then False
          else validate_pairs r rs)"

text \<open>The number of blocks that a range takes; a gap of more than 255 packets takes several.\<close>

definition range_blocks :: "AckRange \<Rightarrow> AckRange \<Rightarrow> u64" where
  "range_blocks lastAckRange ackRange =
     (let gap = First lastAckRange - Last ackRange - 1;
          rangeLength = 1 + gap div 0xFF
      in if gap mod 0xFF = 0 then rangeLength - 1 else rangeLength)"

fun num_writable_loop :: "AckRange \<Rightarrow> AckRange list \<Rightarrow> u64 \<Rightarrow> u64" where
  "num_writable_loop lastAckRange [] numRanges = numRanges"
| "num_writable_loop lastAckRange (ackRange # rs) numRanges =
     (let rangeLength = range_blocks lastAckRange ackRange
      in if numRanges + rangeLength < 0xFF
         then num_writable_loop ackRange rs (numRanges + rangeLength)
         else numRanges)"

definition num_writable :: "AckRange list \<Rightarrow> u64" where
  "num_writable ackRanges =
     (case ackRanges of [] \<Rightarrow> 0 | r # rs \<Rightarrow> num_writable_loop r rs 0 + 1)"

fun max_range_length :: "AckRange list \<Rightarrow> PacketNumber \<Rightarrow> PacketNumber" where
  "max_range_length [] maxRangeLength = maxRangeLength"
| "max_range_length (ackRange # rs) maxRangeLength =
     (let rangeLength = Last ackRange - First ackRange + 1
      in max_range_length rs (if rangeLength > maxRangeLength then rangeLength else maxRangeLength))"

definition missing_delta_len ::
  "PacketNumber \<Rightarrow> PacketNumber \<Rightarrow> AckRange list \<Rightarrow> PacketNumberLen" where
  "missing_delta_len largestAcked lowestAcked ackRanges =
     (let maxRangeLength =
        (if ackRanges \<noteq> [] then max_range_length ackRanges 0 else largestAcked - lowestAcked + 1)
      in if maxRangeLength \<le> 0xFF then PacketNumberLen1
         else if maxRangeLength \<le> 0xFFFF then PacketNumberLen2
         else if maxRangeLength \<le> 0xFFFFFFFF then PacketNumberLen4
         else PacketNumberLen6)"

fun in_some_range :: "PacketNumber \<Rightarrow> AckRange list \<Rightarrow> bool" where
  "in_some_range p [] = False"
| "in_some_range p (ackRange # rs) =
     (if p \<ge> First ackRange \<and> p \<le> Last ackRange then True else in_some_range p rs)"

definition acks_packet ::
  "PacketNumber \<Rightarrow> PacketNumber \<Rightarrow> AckRange list \<Rightarrow> PacketNumber \<Rightarrow> bool" where
  "acks_packet largestAcked lowestAcked ackRanges p =
     (if p < lowestAcked \<or> p > largestAcked then False
      else if ackRanges \<noteq> [] then in_some_range p ackRanges
      else p \<ge> lowestAcked \<and> p \<le> largestAcked)"

section \<open>Writing the blocks\<close>

text \<open>The switch over the number of bytes. \<open>masked\<close> tells whether a six-byte value is masked to 48 bits
  first, as in the ACK frame, or not, as in the close path frame.\<close>

definition write_number ::
  "bool \<Rightarrow> VersionNumber \<Rightarrow> PacketNumberLen \<Rightarrow> u64 \<Rightarrow> bytes result" where
  "write_number masked version len x =
     (if len = PacketNumberLen1 then Inr [ucast x]
      else if len = PacketNumberLen2 then Inr (WriteUint16 (GetByteOrder version) (ucast x))
      else if len = PacketNumberLen4 then Inr (WriteUint32 (GetByteOrder version) (ucast x))
      else if len = PacketNumberLen6 then
        WriteUint48 (GetByteOrder version) (if masked then x AND (push_bit 48 1 - 1) else x)
      else Inr [])"

text \<open>The inner loop for a long gap; \<open>Suc i\<close> blocks are left.\<close>

fun write_long_blocks ::
  "bool \<Rightarrow> VersionNumber \<Rightarrow> PacketNumberLen \<Rightarrow> PacketNumber \<Rightarrow> PacketNumber \<Rightarrow> nat \<Rightarrow> bytes result" where
  "write_long_blocks masked version len gap blockLength 0 = Inr []"
| "write_long_blocks masked version len gap blockLength (Suc i) =
     (let (lengthWritten, gapWritten) =
        (if i = 0 then (blockLength, ucast (1 + (gap - 1) mod 255)) else (0, 0xFF))
      in andThen (write_number masked version len lengthWritten) (\<lambda>bs.
         andThen (write_long_blocks masked version len gap blockLength i) (\<lambda>rest.
           Inr ([gapWritten] @ bs @ rest))))"

text \<open>One range: its blocks and their number.\<close>

definition write_range ::
  "bool \<Rightarrow> VersionNumber \<Rightarrow> PacketNumberLen \<Rightarrow> AckRange \<Rightarrow> AckRange \<Rightarrow> (bytes \<times> u64) result" where
  "write_range masked version len lastAckRange ackRange =
     (let blockLength = Last ackRange - First ackRange + 1;
          gap = First lastAckRange - Last ackRange - 1;
          num = gap div 0xFF + 1;
          num = (if gap mod 0xFF = 0 then num - 1 else num)
      in if num = 1 then
           andThen (write_number masked version len blockLength) (\<lambda>bs. Inr ([ucast gap] @ bs, 1))
         else
           andThen (write_long_blocks masked version len gap blockLength (unat num)) (\<lambda>bs. Inr (bs, num)))"

fun write_blocks ::
  "bool \<Rightarrow> VersionNumber \<Rightarrow> PacketNumberLen \<Rightarrow> u64 \<Rightarrow> AckRange \<Rightarrow> AckRange list \<Rightarrow> u64
   \<Rightarrow> (bytes \<times> u64) result" where
  "write_blocks masked version len numRanges lastAckRange [] numRangesWritten = Inr ([], numRangesWritten)"
| "write_blocks masked version len numRanges lastAckRange (ackRange # rs) numRangesWritten =
     andThen (write_range masked version len lastAckRange ackRange) (\<lambda>(bs, num).
       let numRangesWritten = numRangesWritten + num
       in if numRangesWritten \<ge> numRanges then Inr (bs, numRangesWritten)
          else andThen (write_blocks masked version len numRanges ackRange rs numRangesWritten)
            (\<lambda>(rest, numRangesWritten). Inr (bs @ rest, numRangesWritten)))"

text \<open>The part of the frame that both formats share: the first block and the further blocks. The
  error for an inconsistent count is an argument.\<close>

definition write_ack_blocks ::
  "bool \<Rightarrow> goerror \<Rightarrow> VersionNumber \<Rightarrow> PacketNumber \<Rightarrow> PacketNumber \<Rightarrow> AckRange list \<Rightarrow> bytes result" where
  "write_ack_blocks masked bug version largestAcked lowestAcked ackRanges =
     (let len = missing_delta_len largestAcked lowestAcked ackRanges in
      case ackRanges of
        [] \<Rightarrow> write_number masked version len (largestAcked - lowestAcked + 1)
      | r # rs \<Rightarrow>
          if largestAcked \<noteq> Last r then Inl errInconsistentAckLargestAcked
          else if lowestAcked \<noteq> First (last ackRanges) then Inl errInconsistentAckLowestAcked
          else
            let numRanges = num_writable ackRanges in
            andThen (write_number masked version len (largestAcked - First r + 1)) (\<lambda>bs.
            andThen (write_blocks masked version len numRanges r rs 1) (\<lambda>(rest, numRangesWritten).
              if numRanges \<noteq> numRangesWritten then Inl bug else Inr (bs @ rest))))"

section \<open>Parsing the blocks\<close>

text \<open>\<open>ranges\<close> holds the ranges read so far with the one read last in front; \<open>n\<close> blocks are left.\<close>

fun parse_blocks ::
  "VersionNumber \<Rightarrow> u8 \<Rightarrow> nat \<Rightarrow> AckRange list \<Rightarrow> bool \<Rightarrow> bool \<Rightarrow> bytes
   \<Rightarrow> ((AckRange list \<times> bool) \<times> bytes) result" where
  "parse_blocks version len 0 ranges inLongBlock lastRangeComplete r = Inr ((ranges, lastRangeComplete), r)"
| "parse_blocks version len (Suc n) ranges inLongBlock lastRangeComplete r =
     andThen (ReadByte r) (\<lambda>(gap, r).
     andThen (ReadUintN (GetByteOrder version) r len) (\<lambda>(ackBlockLength, r).
       case ranges of
         [] \<Rightarrow> Inl Panic
       | cur # done \<Rightarrow>
         let (ranges, lastRangeComplete) =
           (if inLongBlock then
              (\<lparr>First = First cur - (ucast gap + ackBlockLength), Last = Last cur - ucast gap\<rparr> # done,
               lastRangeComplete)
            else
              (let newLast = First cur - ucast gap - 1
               in (\<lparr>First = newLast - ackBlockLength + 1, Last = newLast\<rparr> # cur # done, False)))
         in parse_blocks version len n ranges (ackBlockLength = 0)
              (if ackBlockLength > 0 then True else lastRangeComplete) r))"

text \<open>From the first block length to \<^verbatim>\<open>LowestAcked\<close> and the ranges.\<close>

definition parse_ack_blocks ::
  "VersionNumber \<Rightarrow> bool \<Rightarrow> u8 \<Rightarrow> u8 \<Rightarrow> PacketNumber \<Rightarrow> bytes
   \<Rightarrow> ((PacketNumber \<times> AckRange list) \<times> bytes) result" where
  "parse_ack_blocks version hasMissingRanges numAckBlocks len largestAcked r =
     andThen (ReadUintN (GetByteOrder version) r len) (\<lambda>(ackBlockLength, r).
       if largestAcked > 0 \<and> ackBlockLength < 1 then Inl ErrInvalidFirstAckRange
       else if ackBlockLength > largestAcked then Inl ErrInvalidAckRanges
       else andThen
         (if hasMissingRanges then
            andThen (parse_blocks version len (unat numAckBlocks)
                [\<lparr>First = largestAcked - ackBlockLength + 1, Last = largestAcked\<rparr>] False False r)
              (\<lambda>((ranges, lastRangeComplete), r).
                 let ranges = (if \<not> lastRangeComplete then tl ranges else ranges)
                 in case ranges of [] \<Rightarrow> Inl Panic
                    | cur # done \<Rightarrow> Inr ((First cur, rev ranges), r))
          else Inr ((if largestAcked = 0 then 0 else largestAcked + 1 - ackBlockLength, []), r))
         (\<lambda>((lowestAcked, ackRanges), r).
            if \<not> validate_ranges largestAcked ackRanges then Inl ErrInvalidAckRanges
            else Inr ((lowestAcked, ackRanges), r)))"

text \<open>The length fields in the type byte, or in the flags of a close path frame.\<close>

definition number_len :: "u8 \<Rightarrow> u8" where
  "number_len bits = (let len = 2 * bits in if len = 0 then 1 else len)"

section \<open>Separated ranges\<close>

text \<open>The specification of a list of ranges: every range has packets, and consecutive ranges descend
  and are separated by at least one packet.\<close>

fun separated :: "AckRange \<Rightarrow> AckRange list \<Rightarrow> bool" where
  "separated prev [] \<longleftrightarrow> First prev \<le> Last prev"
| "separated prev (r # rs) \<longleftrightarrow>
     First prev \<le> Last prev \<and> unat (Last r) + 1 < unat (First prev) \<and> separated r rs"

lemma separated_head: "separated r rs \<Longrightarrow> First r \<le> Last r"
  by (cases rs) auto

lemma unat_succ: "x \<noteq> - 1 \<Longrightarrow> unat (x + 1 :: u64) = unat x + 1"
proof -
  assume "x \<noteq> - 1"
  then have "unat x \<noteq> unat (- 1 :: u64)" by (simp add: word_unat_eq_iff)
  then show ?thesis using unsigned_less [of x, where ?'a = nat] by (subst unat_add_lem [THEN iffD1])
    (simp_all add: unsigned_minus_1_eq_mask mask_eq_exp_minus_1)
qed

lemma validate_pairs_separated:
  assumes "\<forall>x \<in> set rs. Last x \<noteq> - 1" "First r \<le> Last r"
  shows "validate_each rs \<and> validate_pairs r rs \<longleftrightarrow> separated r rs"
  using assms
proof (induction rs arbitrary: r)
  case (Cons x rs)
  have "unat (Last x + 1) = unat (Last x) + 1" using Cons.prems(1) by (simp add: unat_succ)
  then have "(First r \<le> Last x + 1) = (unat (First r) \<le> unat (Last x) + 1)" by (simp add: word_le_nat_alt)
  then show ?case
    using Cons.IH [of x] Cons.prems separated_head [of x rs] by (auto simp: not_le word_le_nat_alt word_less_nat_alt)
qed simp

lemma validate_ranges_iff:
  assumes "\<forall>x \<in> set rs. Last x \<noteq> - 1"
  shows "validate_ranges L (r # rs) \<longleftrightarrow> rs \<noteq> [] \<and> Last r = L \<and> separated r rs"
  using validate_pairs_separated [OF assms, of r] separated_head [of r rs]
  by (cases rs) (auto simp: validate_ranges_def split: if_splits)

text \<open>A packet lies in at most one range, and the bounds of the frame enclose all ranges.\<close>

lemma separated_bounds:
  assumes "separated r rs" "x \<in> set (r # rs)"
  shows "First (last (r # rs)) \<le> First x \<and> Last x \<le> Last r \<and> First x \<le> Last x"
  using assms
proof (induction r rs arbitrary: x rule: separated.induct)
  case (2 prev r rs)
  have IH: "First (last (r # rs)) \<le> First y \<and> Last y \<le> Last r \<and> First y \<le> Last y"
    if "y \<in> set (r # rs)" for y
    using "2.IH" [of y] "2.prems"(1) that by simp
  have "Last r \<le> First prev" "First prev \<le> Last prev" using "2.prems"(1) by (auto simp: word_le_nat_alt)
  then show ?case using IH [of x] IH [of r] "2.prems"(2) by auto
qed simp

lemma in_some_range_iff: "in_some_range p rs \<longleftrightarrow> (\<exists>r \<in> set rs. p \<in> range_set r)"
  by (induction rs) (auto simp: range_set_def)

section \<open>Numbers on the wire\<close>

lemma number_written:
  assumes "validPacketNumberLen len" "unat x < 2 ^ (8 * unat len)"
  shows "\<exists>bs. write_number masked v len x = Inr bs \<and> length bs = unat len
    \<and> (\<forall>r. ReadUintN (GetByteOrder v) (bs @ r) len = Inr (x, r))"
proof -
  consider "len = 1" "unat x < 2 ^ 8" | "len = 2" "unat x < 2 ^ 16"
    | "len = 4" "unat x < 2 ^ 32" | "len = 6" "unat x < 2 ^ 48"
    using assms by (auto simp: validPacketNumberLen_def)
  then show ?thesis
  proof cases
    case 4
    with bo.write48_ok [OF 4(2), of "GetByteOrder v"] show ?thesis
      by (auto simp: write_number_def and_mask_48)
  qed (auto simp: write_number_def ucast_down_up)
qed


section \<open>Reading the blocks that were written\<close>

text \<open>The packets missing before a range, and the number of blocks that encode the gap.\<close>

abbreviation gap_before :: "AckRange \<Rightarrow> AckRange \<Rightarrow> nat" where
  "gap_before prev r \<equiv> unat (First prev) - unat (Last r) - 1"

abbreviation gap_word :: "AckRange \<Rightarrow> AckRange \<Rightarrow> PacketNumber" where
  "gap_word prev r \<equiv> First prev - Last r - 1"

lemma unat_gap_word:
  assumes "unat (Last r) + 1 < unat (First prev)"
  shows "unat (gap_word prev r) = gap_before prev r"
proof -
  have "unat (First prev - Last r) = unat (First prev) - unat (Last r)"
    using assms by (subst unat_sub) (simp_all add: word_le_nat_alt)
  then show ?thesis using assms by (subst unat_sub) (simp_all add: word_le_nat_alt)
qed

lemma unat_range_blocks:
  assumes "unat (Last r) + 1 < unat (First prev)"
  shows "unat (range_blocks prev r) = (gap_before prev r - 1) div 255 + 1"
proof -
  define g where "g = gap_before prev r"
  have g: "unat (gap_word prev r) = g" "1 \<le> g" "g < 2 ^ 64"
    using assms unsigned_less [of "First prev", where ?'a = nat] by (simp_all add: unat_gap_word g_def)
  have d: "unat (1 + gap_word prev r div 255) = 1 + g div 255"
    using g by (subst unat_add_lem [THEN iffD1]) (simp_all add: unat_div)
  have z: "gap_word prev r mod 255 = 0 \<longleftrightarrow> g mod 255 = 0"
    using g by (simp add: word_unat_eq_iff unat_mod)
  have e: "unat (gap_word prev r div 255) = g div 255" using g by (simp add: unat_div)
  have k: "g div 255 = (if g mod 255 = 0 then Suc ((g - 1) div 255) else (g - 1) div 255)"
    using g(2) div_Suc [of "g - 1" 255] by simp
  have "unat (range_blocks prev r) = (if g mod 255 = 0 then g div 255 else 1 + g div 255)"
    using d z e by (simp add: range_blocks_def Let_def)
  with k have "unat (range_blocks prev r) = (g - 1) div 255 + 1" by presburger
  then show ?thesis unfolding g_def .
qed

lemma long_blocks_read:
  fixes gap L :: PacketNumber
  assumes len: "validPacketNumberLen len" and L: "unat L < 2 ^ (8 * unat len)" "L \<noteq> 0"
    and h: "First h = Last h + 1"
  defines "g \<equiv> 1 + (gap - 1) mod 255 :: PacketNumber"
  shows "\<exists>bs. write_long_blocks m v len gap L (Suc i) = Inr bs \<and> length bs = Suc i * (1 + unat len)
    \<and> (\<forall>n ds c r. parse_blocks v len (Suc i + n) (h # ds) True c (bs @ r) =
        parse_blocks v len n (\<lparr>First = Last h - of_nat (255 * i) - g - L + 1,
            Last = Last h - of_nat (255 * i) - g\<rparr> # ds) False True r)"
  using h
proof (induction i arbitrary: h)
  case 0
  obtain bs where "write_number m v len L = Inr bs" "length bs = unat len"
    "\<forall>r. ReadUintN (GetByteOrder v) (bs @ r) len = Inr (L, r)"
    using number_written [OF len L(1)] by blast
  moreover have "ucast (ucast g :: u8) = g"
  proof -
    have "unat ((gap - 1) mod 255) < 255" by (simp add: unat_mod)
    then have "unat g < 2 ^ 8" unfolding g_def by (subst unat_add_lem [THEN iffD1]) simp_all
    then show ?thesis by (rule ucast_down_up)
  qed
  moreover have "0 < L" using L(2) by (simp add: word_neq_0_conv)
  ultimately show ?case using 0 L(2)
    by (auto simp: g_def [symmetric] algebra_simps)
next
  case (Suc i)
  obtain bs where bs: "write_number m v len 0 = Inr bs" "length bs = unat len"
    "\<forall>r. ReadUintN (GetByteOrder v) (bs @ r) len = Inr (0, r)"
    using number_written [OF len, of 0 m v] by auto
  let ?h = "\<lparr>First = First h - 255, Last = Last h - 255\<rparr>"
  from Suc.IH [of ?h] Suc.prems obtain rest where
    "write_long_blocks m v len gap L (Suc i) = Inr rest" "length rest = Suc i * (1 + unat len)"
    and rd: "\<And>n ds c r. parse_blocks v len (Suc i + n) (?h # ds) True c (rest @ r) =
        parse_blocks v len n (\<lparr>First = Last ?h - of_nat (255 * i) - g - L + 1,
            Last = Last ?h - of_nat (255 * i) - g\<rparr> # ds) False True r"
    by auto
  moreover have "parse_blocks v len (Suc (Suc i) + n) (h # ds) True c ((0xFF # bs @ rest) @ r) =
      parse_blocks v len n (\<lparr>First = Last h - of_nat (255 * Suc i) - g - L + 1,
        Last = Last h - of_nat (255 * Suc i) - g\<rparr> # ds) False True r" for n ds c r
  proof -
    have "parse_blocks v len (Suc (Suc i) + n) (h # ds) True c ((0xFF # bs @ rest) @ r)
        = parse_blocks v len (Suc i + n) (?h # ds) True c (rest @ r)"
      using bs(3) by simp
    also note rd [of n ds c r]
    finally show ?thesis by (simp add: diff_diff_eq add.commute add.left_commute)
  qed
  ultimately show ?case using bs(1,2) by (intro exI [of _ "0xFF # bs @ rest"]) simp
qed

abbreviation range_length :: "AckRange \<Rightarrow> PacketNumber" where
  "range_length r \<equiv> Last r - First r + 1"

lemma long_gap_split:
  fixes gap :: PacketNumber
  assumes "1 \<le> unat gap" "(unat gap - 1) div 255 = Suc i"
  shows "gap = of_nat (255 * i) + 255 + (1 + (gap - 1) mod 255)"
proof -
  have "unat (gap - 1) = unat gap - 1" using assms(1) by (subst unat_sub) (simp_all add: word_le_nat_alt)
  then have "unat ((gap - 1) div 255) = Suc i" using assms(2) by (simp add: unat_div)
  then have "(gap - 1) div 255 = of_nat (Suc i)" by (metis of_nat_unat ucast_id)
  then have "gap - 1 = of_nat (Suc i) * 255 + (gap - 1) mod 255"
    using div_mult_mod_eq [of "gap - 1" 255] by simp
  then show ?thesis by (simp add: algebra_simps)
qed

lemma one_block_read:
  assumes len: "validPacketNumberLen len" and L: "unat L < 2 ^ (8 * unat len)" "L \<noteq> 0"
    and gap: "unat gap < 2 ^ 8"
  shows "\<exists>bs. write_number m v len L = Inr bs \<and> length bs = unat len
    \<and> (\<forall>n prev ds c rest. parse_blocks v len (Suc n) (prev # ds) False c (ucast gap # bs @ rest) =
        parse_blocks v len n (\<lparr>First = First prev - gap - 1 - L + 1, Last = First prev - gap - 1\<rparr> # prev # ds)
          False True rest)"
proof -
  obtain bs where bs: "write_number m v len L = Inr bs" "length bs = unat len"
    "\<forall>r. ReadUintN (GetByteOrder v) (bs @ r) len = Inr (L, r)"
    using number_written [OF len L(1)] by blast
  have "ucast (ucast gap :: u8) = gap" using gap by (rule ucast_down_up)
  moreover have "0 < L" using L(2) by (simp add: word_neq_0_conv)
  ultimately show ?thesis using bs L(2) by (intro exI [of _ bs]) simp
qed

lemma more_blocks_read:
  assumes len: "validPacketNumberLen len" and L: "unat L < 2 ^ (8 * unat len)" "L \<noteq> 0"
    and gap: "1 \<le> unat gap" "(unat gap - 1) div 255 = Suc i"
  shows "\<exists>bs. write_long_blocks m v len gap L (Suc (Suc i)) = Inr bs \<and> length bs = Suc (Suc i) * (1 + unat len)
    \<and> (\<forall>n prev ds c rest. parse_blocks v len (Suc (Suc i) + n) (prev # ds) False c (bs @ rest) =
        parse_blocks v len n (\<lparr>First = First prev - gap - 1 - L + 1, Last = First prev - gap - 1\<rparr> # prev # ds)
          False True rest)"
proof -
  obtain bs where bs: "write_number m v len 0 = Inr bs" "length bs = unat len"
    "\<forall>r. ReadUintN (GetByteOrder v) (bs @ r) len = Inr (0, r)"
    using number_written [OF len, of 0 m v] by auto
  let ?g = "1 + (gap - 1) mod 255"
  obtain rest where rest: "write_long_blocks m v len gap L (Suc i) = Inr rest"
    "length rest = Suc i * (1 + unat len)"
    using long_blocks_read [OF len L, where h = "\<lparr>First = 1, Last = 0\<rparr>" and gap = gap and m = m and v = v and i = i] by auto
  have rd: "parse_blocks v len (Suc i + n) (h # ds) True c (rest @ r) =
      parse_blocks v len n (\<lparr>First = Last h - of_nat (255 * i) - ?g - L + 1,
          Last = Last h - of_nat (255 * i) - ?g\<rparr> # ds) False True r"
    if "First h = Last h + 1" for h n ds c r
    using long_blocks_read [OF len L that, where gap = gap and m = m and v = v and i = i] rest(1) by auto
  have split: "First prev - 255 - 1 - of_nat (255 * i) - ?g = First prev - gap - 1" for prev
    by (subst (2) long_gap_split [OF gap]) simp
  have "parse_blocks v len (Suc (Suc i) + n) (prev # ds) False c ((0xFF # bs @ rest) @ r) =
      parse_blocks v len n (\<lparr>First = First prev - gap - 1 - L + 1, Last = First prev - gap - 1\<rparr> # prev # ds)
        False True r" for n prev ds c r
  proof -
    let ?h = "\<lparr>First = First prev - 255 - 1 - 0 + 1, Last = First prev - 255 - 1\<rparr>"
    have "parse_blocks v len (Suc (Suc i) + n) (prev # ds) False c ((0xFF # bs @ rest) @ r)
        = parse_blocks v len (Suc i + n) (?h # prev # ds) True False (rest @ r)"
      using bs(3) by simp
    also have "\<dots> = parse_blocks v len n (\<lparr>First = Last ?h - of_nat (255 * i) - ?g - L + 1,
          Last = Last ?h - of_nat (255 * i) - ?g\<rparr> # prev # ds) False True r"
      by (rule rd) simp
    finally show ?thesis by (simp only: AckRange.simps split)
  qed
  moreover have "write_long_blocks m v len gap L (Suc (Suc i)) = Inr (0xFF # bs @ rest)"
    using bs(1) rest(1) by simp
  ultimately show ?thesis
    using bs(2) rest(2) by (intro exI [of _ "0xFF # bs @ rest"]) simp
qed

lemma range_read:
  assumes len: "validPacketNumberLen len" and L: "unat (range_length r) < 2 ^ (8 * unat len)"
    "range_length r \<noteq> 0"
    and sep: "unat (Last r) + 1 < unat (First prev)"
  shows "\<exists>bs. write_range m v len prev r = Inr (bs, range_blocks prev r)
    \<and> length bs = unat (range_blocks prev r) * (1 + unat len)
    \<and> (\<forall>n ds c rest. parse_blocks v len (unat (range_blocks prev r) + n) (prev # ds) False c (bs @ rest) =
        parse_blocks v len n (r # prev # ds) False True rest)"
proof -
  let ?num = "range_blocks prev r"
  define L where "L = range_length r"
  define gap where "gap = gap_word prev r"
  have r: "\<lparr>First = First prev - gap - 1 - L + 1, Last = First prev - gap - 1\<rparr> = r"
    by (cases r) (simp add: L_def gap_def)
  have G: "1 \<le> unat gap" "unat ?num = (unat gap - 1) div 255 + 1"
    using sep by (simp_all add: unat_gap_word unat_range_blocks gap_def)
  have num: "(if gap mod 255 = 0 then gap div 255 + 1 - 1 else gap div 255 + 1) = ?num"
    by (simp add: range_blocks_def Let_def add.commute gap_def)
  have w: "write_range m v len prev r =
      (if ?num = 1 then andThen (write_number m v len L) (\<lambda>bs. Inr ([ucast gap] @ bs, 1))
       else andThen (write_long_blocks m v len gap L (unat ?num)) (\<lambda>bs. Inr (bs, ?num)))"
    unfolding write_range_def Let_def L_def [symmetric] gap_def [symmetric] num ..
  show ?thesis
  proof (cases "?num = 1")
    case True
    then have "(unat gap - 1) div 255 = 0" using G(2) by simp
    then have "unat gap < 2 ^ 8" by (simp add: div_eq_0_iff)
    with one_block_read [OF len L [folded L_def], of gap m v] True w r show ?thesis by auto
  next
    case False
    then have "unat ?num \<noteq> 1" by (simp add: word_unat_eq_iff)
    with G(2) obtain i where i: "(unat gap - 1) div 255 = Suc i" by (cases "(unat gap - 1) div 255") auto
    with more_blocks_read [OF len L [folded L_def] G(1) i, of m v] False w r G(2) show ?thesis by auto
  qed
qed
text \<open>The ranges that fit into the 255 blocks of a frame.\<close>

fun writable_ranges :: "AckRange \<Rightarrow> AckRange list \<Rightarrow> u64 \<Rightarrow> AckRange list" where
  "writable_ranges prev [] n = []"
| "writable_ranges prev (r # rs) n =
     (if n + range_blocks prev r < 0xFF then r # writable_ranges r rs (n + range_blocks prev r) else [])"

text \<open>What the blocks of a list of ranges need: separated ranges whose lengths fit.\<close>

definition encodable :: "PacketNumberLen \<Rightarrow> AckRange \<Rightarrow> AckRange list \<Rightarrow> bool" where
  "encodable len prev rs \<longleftrightarrow> validPacketNumberLen len \<and> separated prev rs
     \<and> (\<forall>r \<in> set rs. range_length r \<noteq> 0 \<and> unat (range_length r) < 2 ^ (8 * unat len))"

lemma encodable_Cons:
  "encodable len prev (r # rs) \<longleftrightarrow> First prev \<le> Last prev \<and> unat (Last r) + 1 < unat (First prev)
     \<and> range_length r \<noteq> 0 \<and> unat (range_length r) < 2 ^ (8 * unat len) \<and> encodable len r rs"
  by (auto simp: encodable_def)

lemma range_blocks_pos: "unat (Last r) + 1 < unat (First prev) \<Longrightarrow> 1 \<le> unat (range_blocks prev r)"
  by (simp add: unat_range_blocks)


lemma range_blocks_less: "unat (range_blocks prev r) < 2 ^ 60"
proof -
  have g: "unat (gap_word prev r div 255) < 2 ^ 59"
    using unsigned_less [of "gap_word prev r", where ?'a = nat] by (simp add: unat_div)
  then have "unat (1 + gap_word prev r div 255) < 2 ^ 60"
    by (subst unat_add_lem [THEN iffD1]) simp_all
  with g show ?thesis by (simp add: range_blocks_def Let_def)
qed

lemma unat_add_blocks:
  "unat n < 255 \<Longrightarrow> unat (n + range_blocks prev r) = unat n + unat (range_blocks prev r)"
  using range_blocks_less [of prev r] by (subst unat_add_lem [THEN iffD1]) simp_all

lemma num_writable_loop_bounds:
  "unat n < 255 \<Longrightarrow> unat n \<le> unat (num_writable_loop prev rs n) \<and> unat (num_writable_loop prev rs n) < 255"
proof (induction prev rs n rule: num_writable_loop.induct)
  case (2 prev r rs n)
  show ?case
  proof (cases "n + range_blocks prev r < 0xFF")
    case True
    then have "unat (n + range_blocks prev r) < 255" by (simp add: word_less_nat_alt)
    then show ?thesis using 2 True unat_add_blocks [of n prev r] by (fastforce simp: Let_def)
  qed (use 2 in simp)
qed simp

lemma num_writable_loop_none:
  assumes "encodable len prev rs" "unat n < 255"
  shows "num_writable_loop prev rs n = n \<longleftrightarrow> writable_ranges prev rs n = []"
proof (cases rs)
  case (Cons r rs')
  then have "1 \<le> unat (range_blocks prev r)" using assms(1) by (intro range_blocks_pos) (simp add: encodable_Cons)
  with assms(2) Cons show ?thesis
    using num_writable_loop_bounds [of "n + range_blocks prev r" r rs'] unat_add_blocks [of n prev r]
    by (auto simp: Let_def word_less_nat_alt)
qed simp

lemma blocks_read:
  assumes "encodable len prev rs" "unat n < 255" "writable_ranges prev rs n \<noteq> []"
  shows "\<exists>bs. write_blocks m v len (num_writable_loop prev rs n + 1) prev rs (n + 1) = Inr (bs, num_writable_loop prev rs n + 1)
    \<and> length bs = (unat (num_writable_loop prev rs n) - unat n) * (1 + unat len)
    \<and> (\<forall>ds c rest. parse_blocks v len (unat (num_writable_loop prev rs n) - unat n) (prev # ds) False c (bs @ rest)
        = Inr ((rev (writable_ranges prev rs n) @ prev # ds, True), rest))"
  using assms
proof (induction rs arbitrary: prev n)
  case (Cons r rs)
  let ?b = "range_blocks prev r"
  have fits: "n + ?b < 0xFF" using Cons.prems(3) by (simp split: if_splits)
  then have nb: "unat (n + ?b) < 255" "unat (n + ?b) = unat n + unat ?b"
    using unat_add_blocks [OF Cons.prems(2)] by (simp_all add: word_less_nat_alt)
  have step: "num_writable_loop prev (r # rs) n = num_writable_loop r rs (n + ?b)"
    "writable_ranges prev (r # rs) n = r # writable_ranges r rs (n + ?b)"
    using fits by (simp_all add: Let_def)
  let ?k = "num_writable_loop r rs (n + ?b)"
  have k: "unat (n + ?b) \<le> unat ?k" "unat ?k < 255" using num_writable_loop_bounds [OF nb(1)] by auto
  have enc: "encodable len r rs" using Cons.prems(1) by (simp add: encodable_Cons)
  obtain bs where bs: "write_range m v len prev r = Inr (bs, ?b)" "length bs = unat ?b * (1 + unat len)"
    "\<And>n ds c rest. parse_blocks v len (unat ?b + n) (prev # ds) False c (bs @ rest)
       = parse_blocks v len n (r # prev # ds) False True rest"
    using range_read [of len r prev m v] Cons.prems(1) by (auto simp: encodable_Cons) (auto simp: encodable_def)
  have written: "n + 1 + ?b = n + ?b + 1" by simp
  have stop: "?k + 1 \<le> n + ?b + 1 \<longleftrightarrow> ?k = n + ?b"
  proof -
    have "unat (?k + 1) = unat ?k + 1" "unat (n + ?b + 1) = unat (n + ?b) + 1"
      using k nb by (auto simp: unat_word_ariths)
    then show ?thesis using k by (auto simp: word_le_nat_alt word_unat_eq_iff)
  qed
  show ?case
  proof (cases "?k = n + ?b")
    case True
    then have "writable_ranges r rs (n + ?b) = []" using num_writable_loop_none [OF enc nb(1)] by simp
    then show ?thesis using fits True bs stop nb bs(3) [of 0] by (simp add: step Let_def written) 
  next
    case False
    then have "writable_ranges r rs (n + ?b) \<noteq> []" using num_writable_loop_none [OF enc nb(1)] by simp
    from Cons.IH [OF enc nb(1) this] obtain bs' where 
      "write_blocks m v len (?k + 1) r rs (n + ?b + 1) = Inr (bs', ?k + 1)"
      "length bs' = (unat ?k - unat (n + ?b)) * (1 + unat len)"
      "\<And>ds c rest. parse_blocks v len (unat ?k - unat (n + ?b)) (r # ds) False c (bs' @ rest)
        = Inr ((rev (writable_ranges r rs (n + ?b)) @ r # ds, True), rest)"
      by auto
    moreover have "unat ?k - unat n = unat ?b + (unat ?k - unat (n + ?b))" using k nb by simp
    ultimately show ?thesis
      using fits False bs stop
      by (intro exI [of _ "bs @ bs'"]) (simp add: step Let_def written add_mult_distrib)
  qed
qed simp

lemma separated_writable: "separated r rs \<Longrightarrow> separated r (writable_ranges r rs n)"
  by (induction r rs n rule: writable_ranges.induct) (auto dest: separated_head)

lemma set_writable: "set (writable_ranges r rs n) \<subseteq> set rs"
  by (induction r rs n rule: writable_ranges.induct) auto

section \<open>The number of bytes of a block length\<close>

lemma max_range_length_upper:
  "m \<le> max_range_length rs m \<and> (\<forall>r \<in> set rs. range_length r \<le> max_range_length rs m)"
proof (induction rs arbitrary: m)
  case (Cons r rs)
  let ?m = "if range_length r > m then range_length r else m"
  have "m \<le> ?m" "range_length r \<le> ?m" by auto
  with Cons.IH [of ?m] show ?case by (auto simp: Let_def)
qed simp

lemma max_range_length_less:
  "unat m < b \<Longrightarrow> \<forall>r \<in> set rs. unat (range_length r) < b \<Longrightarrow> unat (max_range_length rs m) < b"
  by (induction rs arbitrary: m) (auto simp: Let_def)

lemma missing_delta_len_valid: "validPacketNumberLen (missing_delta_len L lo rs)"
  by (simp add: missing_delta_len_def validPacketNumberLen_def Let_def)

lemma missing_delta_len_fits:
  assumes "x \<le> (if rs \<noteq> [] then max_range_length rs 0 else L - lo + 1)"
    and "unat (if rs \<noteq> [] then max_range_length rs 0 else L - lo + 1) < 2 ^ 48"
  shows "unat x < 2 ^ (8 * unat (missing_delta_len L lo rs))"
  using assms unfolding missing_delta_len_def Let_def
  by (auto simp: word_le_nat_alt split: if_splits)

lemma unat_range_length:
  assumes "First r \<le> Last r" "unat (Last r) < 2 ^ 48"
  shows "unat (range_length r) = unat (Last r) - unat (First r) + 1"
proof -
  have "unat (Last r - First r) = unat (Last r) - unat (First r)"
    using assms(1) by (subst unat_sub) simp_all
  then show ?thesis using assms(2) by (subst unat_add_lem [THEN iffD1]) simp_all
qed

section \<open>Round trip of the blocks\<close>

text \<open>Ranges that a frame can carry: at least one packet is acknowledged, packet numbers have 48 bits,
  and the first gap is short enough for the blocks of the second range to fit.\<close>

definition blocks_valid :: "PacketNumber \<Rightarrow> PacketNumber \<Rightarrow> AckRange list \<Rightarrow> bool" where
  "blocks_valid L lo ranges \<longleftrightarrow> unat L + 1 < 2 ^ 48 \<and>
     (case ranges of
        [] \<Rightarrow> 1 \<le> lo \<and> lo \<le> L
      | r # rs \<Rightarrow> Last r = L \<and> lo = First (last ranges) \<and> separated r rs \<and> writable_ranges r rs 0 \<noteq> [])"

definition blocks_canon :: "PacketNumber \<Rightarrow> AckRange list \<Rightarrow> PacketNumber \<times> AckRange list" where
  "blocks_canon lo ranges =
     (case ranges of
        [] \<Rightarrow> (lo, [])
      | r # rs \<Rightarrow> (let ws = r # writable_ranges r rs 0 in (First (last ws), ws)))"

lemma separated_range_length:
  assumes "separated r rs" "unat (Last r) + 1 < 2 ^ 48" "x \<in> set (r # rs)"
  shows "unat (range_length x) = unat (Last x) - unat (First x) + 1" "unat (range_length x) < 2 ^ 48"
proof -
  have "First x \<le> Last x" "unat (Last x) \<le> unat (Last r)"
    using separated_bounds [OF assms(1,3)] by (auto simp: word_le_nat_alt)
  with assms(2) show "unat (range_length x) = unat (Last x) - unat (First x) + 1" "unat (range_length x) < 2 ^ 48"
    by (simp_all add: unat_range_length)
qed

lemma separated_encodable:
  assumes "separated r rs" "unat (Last r) + 1 < 2 ^ 48"
  shows "encodable (missing_delta_len L lo (r # rs)) r rs"
    and "unat (range_length r) < 2 ^ (8 * unat (missing_delta_len L lo (r # rs)))"
proof -
  let ?len = "missing_delta_len L lo (r # rs)"
  note ulen = separated_range_length [OF assms]
  have "unat (max_range_length (r # rs) 0) < 2 ^ 48"
    by (rule max_range_length_less) (use ulen in auto)
  then have fits: "unat (range_length x) < 2 ^ (8 * unat ?len)" if "x \<in> set (r # rs)" for x
    using that max_range_length_upper [of 0 "r # rs"] by (intro missing_delta_len_fits) (auto simp del: max_range_length.simps)
  have "range_length x \<noteq> 0" if "x \<in> set (r # rs)" for x
    using ulen(1) [OF that] by (metis add_is_0 one_neq_zero unsigned_0)
  with fits assms(1) show "encodable ?len r rs"
    by (simp add: encodable_def missing_delta_len_valid)
  show "unat (range_length r) < 2 ^ (8 * unat ?len)" by (rule fits) simp
qed

lemma blocks_valid_encodable:
  assumes "blocks_valid L lo (r # rs)"
  shows "encodable (missing_delta_len L lo (r # rs)) r rs"
    and "unat (range_length r) < 2 ^ (8 * unat (missing_delta_len L lo (r # rs)))"
    and "1 \<le> range_length r" "range_length r \<le> L"
proof -
  have sep: "separated r rs" and L: "unat L + 1 < 2 ^ 48" "Last r = L" and w: "writable_ranges r rs 0 \<noteq> []"
    using assms by (auto simp: blocks_valid_def)
  with separated_encodable [OF sep] show "encodable (missing_delta_len L lo (r # rs)) r rs"
    "unat (range_length r) < 2 ^ (8 * unat (missing_delta_len L lo (r # rs)))" by simp_all
  obtain r2 rs2 where "rs = r2 # rs2" using w by (cases rs) auto
  then have "1 \<le> unat (First r)" using sep by simp
  moreover have "unat (range_length r) = unat L - unat (First r) + 1"
    using separated_range_length(1) [OF sep, of r] L by simp
  moreover have "unat (First r) \<le> unat L" using separated_head [OF sep] L(2) by (simp add: word_le_nat_alt)
  ultimately show "1 \<le> range_length r" "range_length r \<le> L" by (simp_all add: word_le_nat_alt)
qed

lemma single_block_fits:
  assumes "blocks_valid L lo []"
  shows "unat (L - lo + 1) < 2 ^ (8 * unat (missing_delta_len L lo []))" "1 \<le> L - lo + 1" "L - lo + 1 \<le> L" "0 < L"
proof -
  have b: "unat L + 1 < 2 ^ 48" "1 \<le> unat lo" "unat lo \<le> unat L"
    using assms by (auto simp: blocks_valid_def word_le_nat_alt)
  have "unat (L - lo) = unat L - unat lo" using b by (subst unat_sub) (simp_all add: word_le_nat_alt)
  then have u: "unat (L - lo + 1) = unat L - unat lo + 1"
    using b by (subst unat_add_lem [THEN iffD1]) simp_all
  show "unat (L - lo + 1) < 2 ^ (8 * unat (missing_delta_len L lo []))"
    by (rule missing_delta_len_fits) (use u b in simp_all)
  show "1 \<le> L - lo + 1" "L - lo + 1 \<le> L" "0 < L" using u b by (simp_all add: word_le_nat_alt word_less_nat_alt)
qed

lemma ack_blocks_roundtrip:
  assumes valid: "blocks_valid L lo ranges"
  defines "len \<equiv> missing_delta_len L lo ranges"
  shows "\<exists>bs. write_ack_blocks m bug v L lo ranges = Inr bs
    \<and> length bs = (if ranges = [] then unat len else unat len + (unat (num_writable ranges) - 1) * (1 + unat len))
    \<and> (\<forall>rest. parse_ack_blocks v (ranges \<noteq> []) (ucast (num_writable ranges - 1)) len L (bs @ rest)
        = Inr (blocks_canon lo ranges, rest))"
proof (cases ranges)
  case Nil
  note fits = single_block_fits [OF valid [unfolded Nil]]
  have len: "missing_delta_len L lo [] = len" by (simp add: len_def Nil)
  obtain bs where bs: "write_number m v len (L - lo + 1) = Inr bs" "length bs = unat len"
    "\<forall>r. ReadUintN (GetByteOrder v) (bs @ r) len = Inr (L - lo + 1, r)"
    using number_written [of len "L - lo + 1" m v] fits(1)
    by (auto simp: Nil len_def missing_delta_len_valid)
  have "L - lo + 1 \<noteq> 0" "\<not> L < L - lo + 1" "L \<noteq> 0" using fits(2-4) by (auto simp: not_less)
  then have "parse_ack_blocks v False nb len L (bs @ rest) = Inr ((lo, []), rest)" for nb rest
    using bs(3) by (simp add: parse_ack_blocks_def validate_ranges_def del: andThen_Inr_iff)
  with bs(1,2) Nil show ?thesis
    by (auto simp: write_ack_blocks_def blocks_canon_def len)
next
  case (Cons r rs)
  note fits = blocks_valid_encodable [OF valid [unfolded Cons]]
  have len: "missing_delta_len L lo (r # rs) = len" by (simp add: len_def Cons)
  have L: "Last r = L" "lo = First (last (r # rs))" "separated r rs" "writable_ranges r rs 0 \<noteq> []" "unat L + 1 < 2 ^ 48"
    using valid by (auto simp: Cons blocks_valid_def)
  let ?k = "num_writable_loop r rs 0" and ?ws = "writable_ranges r rs 0"
  obtain bs where bs: "write_number m v len (range_length r) = Inr bs" "length bs = unat len"
    "\<forall>x. ReadUintN (GetByteOrder v) (bs @ x) len = Inr (range_length r, x)"
    using number_written [of len "range_length r" m v] fits(2)
    by (auto simp: Cons len_def missing_delta_len_valid)
  obtain bs' where bs': "write_blocks m v len (?k + 1) r rs 1 = Inr (bs', ?k + 1)"
    "length bs' = unat ?k * (1 + unat len)"
    "\<And>ds c rest. parse_blocks v len (unat ?k) (r # ds) False c (bs' @ rest) = Inr ((rev ?ws @ r # ds, True), rest)"
    using blocks_read [OF fits(1), of 0 m v] L(4) by (auto simp: len_def Cons)
  have k: "unat ?k < 255" using num_writable_loop_bounds [of 0 r rs] by simp
  then have nb: "unat (ucast ?k :: u8) = unat ?k" "unat (?k + 1) = unat ?k + 1"
    by (simp_all add: unsigned_ucast_eq take_bit_nat_eq_self unat_word_ariths)
  have valid': "validate_ranges L (r # ?ws)"
  proof (subst validate_ranges_iff)
    show "\<forall>x \<in> set ?ws. Last x \<noteq> - 1"
    proof
      fix x assume "x \<in> set ?ws"
      then have "Last x \<le> Last r" using separated_bounds [OF L(3), of x] set_writable [of r rs 0] by auto
      then show "Last x \<noteq> - 1" using L(1,5) by (auto simp: word_le_nat_alt unsigned_minus_1_eq_mask mask_eq_exp_minus_1)
    qed
  qed (use L separated_writable in auto)
  obtain y ys where ws: "rev ?ws = y # ys" "?ws = rev ys @ [y]"
    using L(4) by (cases "rev ?ws") (auto simp: rev_eq_Cons_iff)
  have r: "\<lparr>First = L - range_length r + 1, Last = L\<rparr> = r" using L(1) by (cases r) simp
  have "range_length r \<noteq> 0" "\<not> L < range_length r" using fits(3,4) by (auto simp: not_less)
  then have "parse_ack_blocks v True (ucast ?k) len L ((bs @ bs') @ rest)
      = Inr ((First (last (r # ?ws)), r # ?ws), rest)" for rest
    using bs(3) bs'(3) [of "[]" False rest] valid' r nb(1)
    by (simp add: parse_ack_blocks_def ws Let_def del: andThen_Inr_iff)
  moreover have "write_ack_blocks m bug v L lo (r # rs) = Inr (bs @ bs')"
    unfolding write_ack_blocks_def Let_def len num_writable_def
    using bs(1) bs'(1) by (simp add: L(1) L(2) [symmetric] L(2) [simplified, symmetric] del: andThen_Inr_iff last.simps)
  moreover have "length (bs @ bs') = unat len + (unat (num_writable (r # rs)) - 1) * (1 + unat len)"
    using bs(2) bs'(2) nb(2) by (simp add: num_writable_def)
  ultimately show ?thesis
    by (intro exI [of _ "bs @ bs'"]) (simp add: Cons blocks_canon_def num_writable_def Let_def)
qed

section \<open>What the parser accepts\<close>

lemma parse_blocks_SucE:
  assumes "parse_blocks v len (Suc n) rs lb c b = Inr res"
  obtains gap L b1 b2 cur ds where "rs = cur # ds" "b = gap # b1"
    "ReadUintN (GetByteOrder v) b1 len = Inr (L, b2)"
    "parse_blocks v len n
      ((if lb then \<lparr>First = First cur - (ucast gap + L), Last = Last cur - ucast gap\<rparr>
        else \<lparr>First = First cur - ucast gap - 1 - L + 1, Last = First cur - ucast gap - 1\<rparr>)
       # (if lb then ds else cur # ds))
      (L = 0) (L \<noteq> 0 \<or> lb \<and> c) b2 = Inr res"
proof -
  obtain gap b1 L b2 where b: "b = gap # b1" "ReadUintN (GetByteOrder v) b1 len = Inr (L, b2)"
    using assms by auto
  obtain cur ds where rs: "rs = cur # ds" using assms b by (cases rs) auto
  have "L > 0 \<longleftrightarrow> L \<noteq> 0" by (simp add: word_neq_0_conv)
  then have "parse_blocks v len (Suc n) rs lb c b = parse_blocks v len n
      ((if lb then \<lparr>First = First cur - (ucast gap + L), Last = Last cur - ucast gap\<rparr>
        else \<lparr>First = First cur - ucast gap - 1 - L + 1, Last = First cur - ucast gap - 1\<rparr>)
       # (if lb then ds else cur # ds))
      (L = 0) (L \<noteq> 0 \<or> lb \<and> c) b2"
    unfolding b rs parse_blocks.simps ReadByte.simps andThen.simps prod.case Let_def list.case
    by (cases lb; cases "L = 0") (simp_all only: if_True if_False prod.case simp_thms)
  with assms have "parse_blocks v len n
      ((if lb then \<lparr>First = First cur - (ucast gap + L), Last = Last cur - ucast gap\<rparr>
        else \<lparr>First = First cur - ucast gap - 1 - L + 1, Last = First cur - ucast gap - 1\<rparr>)
       # (if lb then ds else cur # ds))
      (L = 0) (L \<noteq> 0 \<or> lb \<and> c) b2 = Inr res" by (simp only:)
  from that [OF rs b this] show thesis .
qed

lemma parse_blocks_consumes:
  "parse_blocks v len n rs lb c b = Inr (x, r) \<Longrightarrow> length r \<le> length b"
proof (induction n arbitrary: rs lb c b)
  case (Suc n)
  from Suc.prems show ?case by (rule parse_blocks_SucE) (auto dest!: bo_consumes Suc.IH)
qed simp

lemma parse_blocks_grow:
  "parse_blocks v len n rs lb c b = Inr ((rs', c'), r)
    \<Longrightarrow> length rs + (if lb \<or> n = 0 then 0 else 1) \<le> length rs'"
proof (induction n arbitrary: rs lb c b)
  case (Suc n)
  from Suc.prems show ?case by (rule parse_blocks_SucE) (auto dest!: Suc.IH split: if_splits)
qed simp

lemma parse_blocks_no_panic: "rs \<noteq> [] \<Longrightarrow> no_panic (parse_blocks v len n rs lb c b)"
proof (induction n arbitrary: rs lb c b)
  case (Suc n)
  then show ?case by (cases rs) (auto simp: no_panic_rules Let_def)
qed (simp add: no_panic_rules)

text \<open>Every range that the parser completes has fewer than \<open>2 ^ 48\<close> packets, because lengths have at most
  six bytes, and no wrap-around makes an empty range look like a full one.\<close>

definition short_range :: "AckRange \<Rightarrow> bool" where
  "short_range x \<longleftrightarrow> unat (range_length x) < 2 ^ 48 \<and> (range_length x = 0 \<longrightarrow> Last x < First x)"

lemma parse_blocks_short:
  assumes "parse_blocks v len n rs lb c b = Inr ((rs', c'), r)" "unat len \<le> 6"
    and "rs \<noteq> []" "\<forall>x \<in> set (tl rs). short_range x"
    and "if lb then \<not> c \<and> range_length (hd rs) = 0 else short_range (hd rs)"
  shows "\<forall>x \<in> set (if c' then rs' else tl rs'). short_range x"
  using assms
proof (induction n arbitrary: rs lb c b)
  case 0
  then show ?case by (cases rs) (auto split: if_splits)
next
  case (Suc n)
  obtain gap L b1 b2 cur ds where rs: "rs = cur # ds" and "b = gap # b1"
    and rd: "ReadUintN (GetByteOrder v) b1 len = Inr (L, b2)"
    and rec: "parse_blocks v len n
      ((if lb then \<lparr>First = First cur - (ucast gap + L), Last = Last cur - ucast gap\<rparr>
        else \<lparr>First = First cur - ucast gap - 1 - L + 1, Last = First cur - ucast gap - 1\<rparr>)
       # (if lb then ds else cur # ds))
      (L = 0) (L \<noteq> 0 \<or> lb \<and> c) b2 = Inr ((rs', c'), r)"
    using Suc.prems(1) by (rule parse_blocks_SucE)
  have "unat L < 2 ^ (8 * unat len)" using bo.readN_bound [OF rd] Suc.prems(2) by simp
  also have "\<dots> \<le> 2 ^ 48" using Suc.prems(2) by (intro power_increasing) simp_all
  finally have L: "unat L < 2 ^ 48" .
  define h where "h = (if lb then \<lparr>First = First cur - (ucast gap + L), Last = Last cur - ucast gap\<rparr>
    else \<lparr>First = First cur - ucast gap - 1 - L + 1, Last = First cur - ucast gap - 1\<rparr>)"
  define ts where "ts = (if lb then ds else cur # ds)"
  have h: "range_length h = L"
    using Suc.prems(5) rs by (cases lb) (auto simp: h_def algebra_simps)
  then have hd: "if L = 0 then \<not> (L \<noteq> 0 \<or> lb \<and> c) \<and> range_length (hd (h # ts)) = 0 else short_range (hd (h # ts))"
    using L Suc.prems(5) unfolding short_range_def list.sel h by (cases lb) auto
  have ts: "\<forall>x \<in> set (tl (h # ts)). short_range x" using Suc.prems(4,5) rs by (auto simp: ts_def)
  from rec have "parse_blocks v len n (h # ts) (L = 0) (L \<noteq> 0 \<or> lb \<and> c) b2 = Inr ((rs', c'), r)"
    by (simp add: h_def ts_def)
  then show ?case using Suc.IH [OF _ Suc.prems(2) _ ts hd] by blast
qed

lemma parse_ack_blocks_InrE:
  assumes "parse_ack_blocks v miss nb len L b = Inr ((lo, rs), r)"
  obtains l where "\<not> miss" "ReadUintN (GetByteOrder v) b len = Inr (l, r)" "rs = []"
      "L = 0 \<or> l \<noteq> 0" "l \<le> L" "lo = (if L = 0 then 0 else L + 1 - l)"
  | l b1 ranges c where miss "ReadUintN (GetByteOrder v) b len = Inr (l, b1)" "l \<le> L"
      "parse_blocks v len (unat nb) [\<lparr>First = L - l + 1, Last = L\<rparr>] False False b1 = Inr ((ranges, c), r)"
      "rs = rev (if c then ranges else tl ranges)" "rs \<noteq> []" "lo = First (last rs)" "validate_ranges L rs"
proof -
  obtain l b1 where l: "ReadUintN (GetByteOrder v) b len = Inr (l, b1)"
    using assms unfolding parse_ack_blocks_def by (elim andThen_InrE) auto
  have rest: "\<not> (L > 0 \<and> l < 1)" "\<not> l > L"
    using assms unfolding parse_ack_blocks_def l andThen.simps prod.case by (auto split: if_splits)
  show thesis
  proof (cases miss)
    case False
    have "(lo, rs) = (if L = 0 then 0 else L + 1 - l, [])" "b1 = r"
      using assms False unfolding parse_ack_blocks_def l andThen.simps prod.case if_not_P [OF rest(1)] if_not_P [OF rest(2)]
      by (auto split: if_splits)
    with False l rest that(1) show thesis by (simp add: not_less)
  next
    case True
    obtain ranges c b2 where p: "parse_blocks v len (unat nb) [\<lparr>First = L - l + 1, Last = L\<rparr>] False False b1
        = Inr ((ranges, c), b2)"
      using assms True unfolding parse_ack_blocks_def l andThen.simps prod.case if_not_P [OF rest(1)] if_not_P [OF rest(2)]
      by (elim andThen_InrE) (auto elim!: andThen_InrE)
    obtain y ys where ys: "(if c then ranges else tl ranges) = y # ys"
      using assms True p unfolding parse_ack_blocks_def l andThen.simps prod.case if_not_P [OF rest(1)] if_not_P [OF rest(2)]
      by (cases "if c then ranges else tl ranges"; cases c) (auto simp: Let_def)
    have "(lo, rs) = (First y, rev (y # ys))" "b2 = r" "validate_ranges L rs"
      using assms True ys unfolding parse_ack_blocks_def l andThen.simps prod.case if_not_P [OF rest(1)] if_not_P [OF rest(2)]
         if_P [OF True] p
      by (cases c; auto simp: Let_def split: if_splits)+
    with True l rest p ys that(2) show thesis by (simp add: not_less)
  qed
qed

lemma parse_ack_blocks_consumes:
  assumes "parse_ack_blocks v miss nb len L b = Inr (x, r)"
  shows "length r \<le> length b"
proof -
  obtain lo rs where "x = (lo, rs)" by (cases x)
  with assms have "parse_ack_blocks v miss nb len L b = Inr ((lo, rs), r)" by simp
  then show ?thesis by (rule parse_ack_blocks_InrE) (auto dest!: bo_consumes parse_blocks_consumes)
qed

lemma parse_ack_blocks_no_panic:
  assumes "miss \<longrightarrow> nb \<noteq> 0"
  shows "no_panic (parse_ack_blocks v miss nb len L b)"
proof -
  have *: "no_panic (case if \<not> c then tl rs else rs of [] \<Rightarrow> Inl Panic
      | cur # done \<Rightarrow> Inr ((First cur, rev (if \<not> c then tl rs else rs)), r))"
    if "2 \<le> length rs" for rs :: "AckRange list" and c and r :: bytes
    using that by (cases rs; cases "tl rs"; cases c) (auto simp: no_panic_rules)
  have "2 \<le> length rs"
    if "parse_blocks v len (unat nb) [\<lparr>First = L - l + 1, Last = L\<rparr>] False False b1 = Inr ((rs, c), r)" miss
    for rs c r l b1
    using parse_blocks_grow [OF that(1)] assms that(2) by (simp add: unsigned_eq_0_iff)
  then have **: "no_panic (andThen (parse_blocks v len (unat nb) [\<lparr>First = L - l + 1, Last = L\<rparr>] False False b1)
      (\<lambda>((ranges, c), r). let ranges = (if \<not> c then tl ranges else ranges)
         in case ranges of [] \<Rightarrow> Inl Panic | cur # done \<Rightarrow> Inr ((First cur, rev ranges), r)))" if miss for l b1
    using that by (auto simp only: no_panic_andThen Let_def parse_blocks_no_panic list.distinct simp_thms
        split: prod.split intro!: *)
  show ?thesis
    unfolding parse_ack_blocks_def
    by (rule ** no_panic_intros no_panic_read | assumption | simp)+
qed

lemma number_len_le: "unat (number_len (x AND 3)) \<le> 6" "unat (number_len (drop_bit 2 (x AND 12))) \<le> 6"
proof -
  have le: "unat (number_len (y AND 3)) \<le> 6" for y
  proof -
    have "y AND 3 = take_bit 2 y" by (simp add: take_bit_eq_mask mask_eq_exp_minus_1)
    then have "y AND 3 < 4" by (simp add: word_less_nat_alt unsigned_take_bit_eq take_bit_nat_def)
    then have "unat (y AND 3) < 4" by (simp add: word_less_nat_alt)
    moreover have "unat (2 * (y AND 3)) = 2 * unat (y AND 3)"
      using calculation by (subst unat_mult_lem [THEN iffD1]) simp_all
    ultimately show ?thesis by (simp add: number_len_def Let_def)
  qed
  from le show "unat (number_len (x AND 3)) \<le> 6" .
  have "drop_bit 2 (x AND 12) = drop_bit 2 x AND 3" by simp
  with le [of "drop_bit 2 x"] show "unat (number_len (drop_bit 2 (x AND 12))) \<le> 6" by (simp only:)
qed

lemma short_range_not_top:
  assumes "short_range x" "unat (First x) < 2 ^ 48" "First x \<le> Last x"
  shows "Last x \<noteq> - 1"
proof
  assume *: "Last x = - 1"
  then have l: "range_length x = - First x" by simp
  show False
  proof (cases "First x = 0")
    case True
    with l have "range_length x = 0" by simp
    with assms(1) have "Last x < First x" unfolding short_range_def by blast
    with assms(3) show False by simp
  next
    case False
    have "unat (First x) + unat (- First x) < 2 ^ 64"
      using assms(1,2) unfolding short_range_def l by simp
    then have "unat (First x + - First x) = unat (First x) + unat (- First x)"
      by (subst unat_add_lem [THEN iffD1]) simp_all
    with False show False by (simp add: unsigned_eq_0_iff)
  qed
qed

lemma validate_ranges_bounds:
  assumes "validate_ranges L (r # rs)" "x \<in> set (r # rs)"
  shows "First x \<le> Last x \<and> First x \<le> L"
proof -
  have each: "validate_each ys \<Longrightarrow> y \<in> set ys \<Longrightarrow> First y \<le> Last y" for y ys
    by (induction ys) (auto split: if_splits)
  have pairs: "validate_pairs z ys \<Longrightarrow> y \<in> set (z # ys) \<Longrightarrow> First y \<le> First z" for y z ys
    by (induction z ys rule: validate_pairs.induct) (auto split: if_splits)
  have "validate_each (r # rs)" "validate_pairs r rs" "Last r = L"
    using assms(1) by (auto simp: validate_ranges_def split: list.splits if_splits)
  then show ?thesis using each [of "r # rs"] pairs [of r rs] assms(2) by (metis list.set_intros(1) order_trans)
qed

text \<open>The contract of the ranges of a received frame.\<close>

definition blocks_accepted :: "PacketNumber \<Rightarrow> PacketNumber \<Rightarrow> AckRange list \<Rightarrow> bool" where
  "blocks_accepted L lo ranges \<longleftrightarrow>
     (case ranges of
        [] \<Rightarrow> lo \<le> L \<and> (lo = 0 \<longrightarrow> L = 0)
      | r # rs \<Rightarrow> rs \<noteq> [] \<and> Last r = L \<and> lo = First (last ranges) \<and> separated r rs)"

lemma parse_ack_blocks_accepted:
  assumes "parse_ack_blocks v miss nb len L b = Inr ((lo, rs), r)" "unat len \<le> 6" "unat L < 2 ^ 48"
  shows "blocks_accepted L lo rs"
  using assms(1)
proof (cases rule: parse_ack_blocks_InrE)
  case (1 l)
  show ?thesis
  proof (cases "L = 0")
    case False
    have L: "unat (L + 1) = unat L + 1" using assms(3) by (subst unat_add_lem [THEN iffD1]) simp_all
    have "unat l \<le> unat L" using 1(5) by (simp add: word_le_nat_alt)
    then have "unat (L + 1 - l) = unat L + 1 - unat l" using L by (subst unat_sub) (simp_all add: word_le_nat_alt)
    moreover have "unat l \<noteq> 0" using False 1(4) by (simp add: unsigned_eq_0_iff)
    ultimately have "unat lo \<le> unat L" "unat lo \<noteq> 0" using False 1(6) \<open>unat l \<le> unat L\<close> by auto
    then show ?thesis using 1(3) by (auto simp: blocks_accepted_def word_le_nat_alt)
  qed (use 1 in \<open>simp add: blocks_accepted_def\<close>)
next
  case (2 l b1 ranges c)
  let ?h = "\<lparr>First = L - l + 1, Last = L\<rparr>"
  have len: "range_length ?h = l" by simp
  have "unat l < 2 ^ 48" using 2(3) assms(3) by (simp add: word_le_nat_alt)
  moreover have "L < L + 1" proof -
    have "L \<noteq> - 1" using assms(3) by (auto simp: unsigned_minus_1_eq_mask mask_eq_exp_minus_1)
    then show ?thesis by (simp add: word_less_nat_alt unat_succ)
  qed
  then have "l = 0 \<longrightarrow> Last ?h < First ?h" by simp
  ultimately have "short_range ?h" unfolding short_range_def len by blast
  then have "\<forall>x \<in> set (if c then ranges else tl ranges). short_range x"
    by (intro parse_blocks_short [OF 2(4) assms(2)]) (simp_all only: list.distinct list.sel list.set ball_simps
        if_False not_False_eq_True)
  then have short: "\<forall>x \<in> set rs. short_range x" unfolding 2(5) set_rev .
  obtain x xs where rs: "rs = x # xs" using 2(6) by (cases rs) auto
  have "Last y \<noteq> - 1" if "y \<in> set rs" for y
  proof (rule short_range_not_top)
    have "First y \<le> Last y \<and> First y \<le> L" using validate_ranges_bounds [of L x xs y] 2(8) that rs by simp
    then show "First y \<le> Last y" "unat (First y) < 2 ^ 48" using assms(3) by (simp_all add: word_le_nat_alt)
    show "short_range y" using short that by blast
  qed
  then show ?thesis
    using validate_ranges_iff [of xs L x] 2(7,8) rs by (simp add: blocks_accepted_def)
qed

lemma acks_packet_iff:
  assumes "blocks_accepted L lo rs"
  shows "acks_packet L lo rs p \<longleftrightarrow> (if rs = [] then p \<in> {lo..L} else \<exists>r \<in> set rs. p \<in> range_set r)"
proof (cases rs)
  case (Cons x xs)
  then have "Last x = L" "lo = First (last (x # xs))" "separated x xs"
    using assms by (auto simp: blocks_accepted_def)
  with separated_bounds [of x xs]
  have "lo \<le> p \<and> p \<le> L" if "r \<in> set rs" "p \<in> range_set r" for r
    using that Cons by (force simp: range_set_def)
  then have "(\<exists>r \<in> set rs. p \<in> range_set r) \<Longrightarrow> \<not> (p < lo \<or> p > L)" by (meson leD)
  then show ?thesis unfolding acks_packet_def in_some_range_iff Cons by auto
qed (auto simp: acks_packet_def)

text \<open>The writer gives up when the first gap needs 255 blocks or more: it counts no writable range, but
  writes the first one.\<close>

lemma write_ack_blocks_gap:
  assumes "Last r = L" "lo = First (last (r # r' # rs))" "separated r (r' # rs)" "unat L + 1 < 2 ^ 48"
    and gap: "64771 \<le> gap_before r r'"
  shows "write_ack_blocks m bug v L lo (r # r' # rs) = Inl bug"
proof -
  let ?len = "missing_delta_len L lo (r # r' # rs)"
  have enc: "encodable ?len r (r' # rs)" "unat (range_length r) < 2 ^ (8 * unat ?len)"
    using separated_encodable [OF assms(3), of L lo] assms(1,4) by simp_all
  have sep: "unat (Last r') + 1 < unat (First r)" using assms(3) by simp
  have "unat (First r) \<le> unat L" using separated_head [OF assms(3)] assms(1) by (simp add: word_le_nat_alt)
  then have "gap_before r r' < 2 ^ 48" using assms(4) by simp
  then have n: "255 \<le> unat (range_blocks r r')" "unat (range_blocks r r') < 2 ^ 48"
    using gap unat_range_blocks [OF sep] by simp_all
  then have num: "num_writable (r # r' # rs) = 1"
    by (simp add: num_writable_def Let_def word_less_nat_alt)
  have "unat (range_length r') < 2 ^ (8 * unat ?len)" "range_length r' \<noteq> 0"
    using enc(1) by (simp_all add: encodable_def)
  then obtain bs where w: "write_range m v ?len r r' = Inr (bs, range_blocks r r')"
    using range_read [OF missing_delta_len_valid _ _ sep] by blast
  have "unat (1 + range_blocks r r') = 1 + unat (range_blocks r r')"
    using n by (subst unat_add_lem [THEN iffD1]) simp_all
  then have le: "1 + range_blocks r r' \<ge> 1" "1 + range_blocks r r' \<noteq> 1"
    using n by (auto simp: word_le_nat_alt)
  obtain bs' where "write_number m v ?len (L - First r + 1) = Inr bs'"
    using number_written [OF missing_delta_len_valid enc(2)] assms(1) by blast
  then show ?thesis
    using assms(1,2) w num le by (simp add: write_ack_blocks_def Let_def)
qed

end
