(* ===== verification/Ack_Frame.thy ===== *)
theory Ack_Frame
  imports Ack_Blocks
begin

text \<open>The ACK frame of \<^verbatim>\<open>internal/wire/ack_frame.go\<close> and the close path frame of
  \<^verbatim>\<open>internal/wire/close_path_frame.go\<close>, over the blocks they share: the header bytes, the delay, the
  timestamps, and the test whether a packet is acknowledged.\<close>

section \<open>The ACK frame\<close>

record AckFrame =
  ack_PathID :: PathID
  ack_LargestAcked :: PacketNumber
  ack_LowestAcked :: PacketNumber
  ack_AckRanges :: "AckRange list"
  ack_PacketReceivedTime :: gotime
  ack_DelayTime :: duration

definition ack_HasMissingRanges :: "AckFrame \<Rightarrow> bool" where
  "ack_HasMissingRanges f \<longleftrightarrow> length (ack_AckRanges f) > 0"

definition ack_validateAckRanges :: "AckFrame \<Rightarrow> bool" where
  "ack_validateAckRanges f = validate_ranges (ack_LargestAcked f) (ack_AckRanges f)"

definition ack_numWritableNackRanges :: "AckFrame \<Rightarrow> u64" where
  "ack_numWritableNackRanges f = num_writable (ack_AckRanges f)"

definition ack_getMissingSequenceNumberDeltaLen :: "AckFrame \<Rightarrow> PacketNumberLen" where
  "ack_getMissingSequenceNumberDeltaLen f =
     missing_delta_len (ack_LargestAcked f) (ack_LowestAcked f) (ack_AckRanges f)"

definition ack_AcksPacket :: "AckFrame \<Rightarrow> PacketNumber \<Rightarrow> bool" where
  "ack_AcksPacket f p = acks_packet (ack_LargestAcked f) (ack_LowestAcked f) (ack_AckRanges f) p"

text \<open>The timestamps are read and dropped.\<close>

fun skip_timestamps :: "VersionNumber \<Rightarrow> nat \<Rightarrow> bytes \<Rightarrow> bytes result" where
  "skip_timestamps version 0 r = Inr r"
| "skip_timestamps version (Suc n) r =
     andThen (ReadByte r) (\<lambda>(_, r).
     andThen (ReadUint16 (GetByteOrder version) r) (\<lambda>(_, r). skip_timestamps version n r))"

definition ParseAckFrame_timestamps :: "VersionNumber \<Rightarrow> bytes \<Rightarrow> bytes result" where
  "ParseAckFrame_timestamps version r =
     andThen (ReadByte r) (\<lambda>(numTimestamp, r).
       if numTimestamp > 0 then
         andThen (ReadByte r) (\<lambda>(_, r).
         andThen (ReadUint32 (GetByteOrder version) r) (\<lambda>(_, r).
           skip_timestamps version (unat numTimestamp - 1) r))
       else Inr r)"

definition ParseAckFrame :: "bytes \<Rightarrow> VersionNumber \<Rightarrow> (AckFrame \<times> bytes) result" where
  "ParseAckFrame r version =
     andThen (ReadByte r) (\<lambda>(typeByte, r).
       let hasMissingRanges = (typeByte AND 0x20 = 0x20);
           largestAckedLen = number_len (drop_bit 2 (typeByte AND 0x0C));
           missingSequenceNumberDeltaLen = number_len (typeByte AND 0x03)
       in
       andThen (if typeByte AND 0x10 = 0x10 then ReadByte r else Inr (0, r)) (\<lambda>(pathID, r).
       andThen (ReadUintN (GetByteOrder version) r largestAckedLen) (\<lambda>(largestAcked, r).
       andThen (readUfloat16 (GetByteOrder version) r) (\<lambda>(delay, r).
       andThen (if hasMissingRanges then ReadByte r else Inr (0, r)) (\<lambda>(numAckBlocks, r).
         if hasMissingRanges \<and> numAckBlocks = 0 then Inl ErrInvalidAckRanges
         else
           andThen (parse_ack_blocks version hasMissingRanges numAckBlocks
               missingSequenceNumberDeltaLen largestAcked r) (\<lambda>((lowestAcked, ackRanges), r).
           andThen (ParseAckFrame_timestamps version r) (\<lambda>r.
             Inr (\<lparr>ack_PathID = pathID, ack_LargestAcked = largestAcked, ack_LowestAcked = lowestAcked,
                   ack_AckRanges = ackRanges, ack_PacketReceivedTime = zero_time,
                   ack_DelayTime = i64 (i64 (uint delay) * Microsecond)\<rparr>, r))))))))"

definition ack_typeByte :: "AckFrame \<Rightarrow> u8" where
  "ack_typeByte f =
     (let largestAckedLen = GetPacketNumberLength (ack_LargestAcked f);
          typeByte = 0x40;
          typeByte = (if largestAckedLen \<noteq> PacketNumberLen1
            then typeByte XOR push_bit 2 (largestAckedLen div 2) else typeByte);
          missingSequenceNumberDeltaLen = ack_getMissingSequenceNumberDeltaLen f;
          typeByte = (if missingSequenceNumberDeltaLen \<noteq> PacketNumberLen1
            then typeByte XOR (missingSequenceNumberDeltaLen div 2) else typeByte);
          typeByte = (if ack_HasMissingRanges f then typeByte OR 0x20 else typeByte)
      in if ack_PathID f \<noteq> 0 then typeByte OR 0x10 else typeByte)"

text \<open>\<^verbatim>\<open>time.Now()\<close> is the argument \<open>now\<close>; the writer stores the delay in the frame.\<close>

definition AckFrame_Write ::
  "gotime \<Rightarrow> AckFrame \<Rightarrow> VersionNumber \<Rightarrow> (bytes \<times> AckFrame) result" where
  "AckFrame_Write now f version =
     andThen (write_number True version (GetPacketNumberLength (ack_LargestAcked f)) (ack_LargestAcked f))
       (\<lambda>largestAcked.
        let f = f\<lparr>ack_DelayTime := time_sub now (ack_PacketReceivedTime f)\<rparr>;
            numRanges = (if ack_HasMissingRanges f then ack_numWritableNackRanges f else 0)
        in if numRanges > 0xFF then Inl Panic
           else andThen (write_ack_blocks True (OtherError ''BUG: Inconsistent number of ACK ranges written'')
               version (ack_LargestAcked f) (ack_LowestAcked f) (ack_AckRanges f)) (\<lambda>blocks.
             Inr ([ack_typeByte f] @ (if ack_PathID f \<noteq> 0 then [ack_PathID f] else [])
               @ largestAcked
               @ writeUfloat16 (GetByteOrder version) (word_of_int (quot (ack_DelayTime f) Microsecond))
               @ (if ack_HasMissingRanges f then [ucast (numRanges - 1)] else [])
               @ blocks @ [0], f)))"

definition AckFrame_MinLength :: "AckFrame \<Rightarrow> VersionNumber \<Rightarrow> ByteCount result" where
  "AckFrame_MinLength f version =
     (let len = 1 + 2 + 1 + ucast (GetPacketNumberLength (ack_LargestAcked f));
          missingSequenceNumberDeltaLen = ucast (ack_getMissingSequenceNumberDeltaLen f);
          len = (if ack_HasMissingRanges f
            then len + (1 + missingSequenceNumberDeltaLen) * ack_numWritableNackRanges f
            else len + missingSequenceNumberDeltaLen)
      in Inr (if ack_PathID f \<noteq> 0 then len + 1 else len))"

section \<open>The close path frame\<close>

record ClosePathFrame =
  cp_PathID :: PathID
  cp_LargestAcked :: PacketNumber
  cp_LowestAcked :: PacketNumber
  cp_AckRanges :: "AckRange list"

definition cp_HasMissingRanges :: "ClosePathFrame \<Rightarrow> bool" where
  "cp_HasMissingRanges f \<longleftrightarrow> length (cp_AckRanges f) > 0"

definition cp_validateAckRanges :: "ClosePathFrame \<Rightarrow> bool" where
  "cp_validateAckRanges f = validate_ranges (cp_LargestAcked f) (cp_AckRanges f)"

definition cp_numWritableNackRanges :: "ClosePathFrame \<Rightarrow> u64" where
  "cp_numWritableNackRanges f = num_writable (cp_AckRanges f)"

definition cp_getMissingSequenceNumberDeltaLen :: "ClosePathFrame \<Rightarrow> PacketNumberLen" where
  "cp_getMissingSequenceNumberDeltaLen f =
     missing_delta_len (cp_LargestAcked f) (cp_LowestAcked f) (cp_AckRanges f)"

definition cp_AcksPacket :: "ClosePathFrame \<Rightarrow> PacketNumber \<Rightarrow> bool" where
  "cp_AcksPacket f p = acks_packet (cp_LargestAcked f) (cp_LowestAcked f) (cp_AckRanges f) p"

definition cp_flags :: "ClosePathFrame \<Rightarrow> u8" where
  "cp_flags f =
     (let largestAckedLen = GetPacketNumberLength (cp_LargestAcked f);
          flags = 0x00;
          flags = (if cp_HasMissingRanges f then flags OR 0x10 else flags);
          flags = (if largestAckedLen \<noteq> PacketNumberLen1
            then flags XOR push_bit 2 (largestAckedLen div 2) else flags);
          missingSequenceNumberDeltaLen = cp_getMissingSequenceNumberDeltaLen f
      in if missingSequenceNumberDeltaLen \<noteq> PacketNumberLen1
         then flags XOR (missingSequenceNumberDeltaLen div 2) else flags)"

definition ClosePathFrame_Write :: "ClosePathFrame \<Rightarrow> VersionNumber \<Rightarrow> bytes result" where
  "ClosePathFrame_Write f version =
     (let numRanges = (if cp_HasMissingRanges f then cp_numWritableNackRanges f else 0)
      in if numRanges > 0xFF then Inl Panic
         else
           andThen (write_number False version (GetPacketNumberLength (cp_LargestAcked f)) (cp_LargestAcked f))
             (\<lambda>largestAcked.
           andThen (write_ack_blocks False
               (OtherError ''BUG: Inconsistent number of ACK ranges written in ClosePath'')
               version (cp_LargestAcked f) (cp_LowestAcked f) (cp_AckRanges f)) (\<lambda>blocks.
             Inr ([0x11, cp_PathID f, cp_flags f]
               @ (if cp_HasMissingRanges f then [ucast (numRanges - 1)] else [])
               @ largestAcked @ blocks))))"

definition ParseClosePathFrame :: "bytes \<Rightarrow> VersionNumber \<Rightarrow> (ClosePathFrame \<times> bytes) result" where
  "ParseClosePathFrame r version =
     andThen (ReadByte r) (\<lambda>(_, r).
     andThen (ReadByte r) (\<lambda>(pathID, r).
     andThen (ReadByte r) (\<lambda>(flags, r).
       let hasMissingRanges = (flags AND 0x10 = 0x10);
           largestAckedLen = number_len (drop_bit 2 (flags AND 0x0C));
           missingSequenceNumberDeltaLen = number_len (flags AND 0x03)
       in
       andThen (if hasMissingRanges then ReadByte r else Inr (0, r)) (\<lambda>(numAckBlocks, r).
         if hasMissingRanges \<and> numAckBlocks = 0 then Inl ErrInvalidAckRanges
         else
           andThen (ReadUintN (GetByteOrder version) r largestAckedLen) (\<lambda>(largestAcked, r).
           andThen (parse_ack_blocks version hasMissingRanges numAckBlocks
               missingSequenceNumberDeltaLen largestAcked r) (\<lambda>((lowestAcked, ackRanges), r).
             Inr (\<lparr>cp_PathID = pathID, cp_LargestAcked = largestAcked, cp_LowestAcked = lowestAcked,
                   cp_AckRanges = ackRanges\<rparr>, r)))))))"

definition ClosePathFrame_MinLength :: "ClosePathFrame \<Rightarrow> VersionNumber \<Rightarrow> ByteCount result" where
  "ClosePathFrame_MinLength f version =
     (let len = 1 + 1 + 1 + ucast (GetPacketNumberLength (cp_LargestAcked f));
          missingSequenceNumberDeltaLen = ucast (cp_getMissingSequenceNumberDeltaLen f)
      in Inr (if cp_HasMissingRanges f
            then len + (1 + missingSequenceNumberDeltaLen) * cp_numWritableNackRanges f
            else len + missingSequenceNumberDeltaLen))"

section \<open>The header bytes\<close>

lemma GetPacketNumberLength_cases: "GetPacketNumberLength pn \<in> {1, 2, 4, 6}"
  using GetPacketNumberLength_valid by (simp add: validPacketNumberLen_def)

lemma missing_delta_len_cases: "missing_delta_len L lo rs \<in> {1, 2, 4, 6}"
  using missing_delta_len_valid by (simp add: validPacketNumberLen_def)

lemma ack_typeByte_decode:
  defines "t f \<equiv> ack_typeByte f"
  shows "(t f AND 0x20 = 0x20) = (ack_AckRanges f \<noteq> [])" "(t f AND 0x10 = 0x10) = (ack_PathID f \<noteq> 0)"
    "t f AND 0xC0 = 0x40"
    "number_len (drop_bit 2 (t f AND 0x0C)) = GetPacketNumberLength (ack_LargestAcked f)"
    "number_len (t f AND 0x03) = missing_delta_len (ack_LargestAcked f) (ack_LowestAcked f) (ack_AckRanges f)"
proof -
  have bits: "(b AND 0x20 = 0x20) = miss \<and> (b AND 0x10 = 0x10) = path \<and> b AND 0xC0 = 0x40
      \<and> number_len (drop_bit 2 (b AND 0x0C)) = L \<and> number_len (b AND 0x03) = D"
    if "L \<in> {1, 2, 4, 6}" "D \<in> {1, 2, 4, 6}"
      "b = (let t = (if L \<noteq> 1 then 0x40 XOR push_bit 2 (L div 2) else 0x40);
              t = (if D \<noteq> 1 then t XOR (D div 2) else t);
              t = (if miss then t OR 0x20 else t)
          in if path then t OR 0x10 else t)" for L D b :: u8 and miss path
    using that by (elim insertE emptyE; cases miss; cases path; simp add: number_len_def)
  from bits [OF GetPacketNumberLength_cases missing_delta_len_cases, of "t f" "ack_LargestAcked f"
      "ack_LargestAcked f" "ack_LowestAcked f" "ack_AckRanges f" "ack_AckRanges f \<noteq> []" "ack_PathID f \<noteq> 0"]
  show "(t f AND 0x20 = 0x20) = (ack_AckRanges f \<noteq> [])" "(t f AND 0x10 = 0x10) = (ack_PathID f \<noteq> 0)"
    "t f AND 0xC0 = 0x40"
    "number_len (drop_bit 2 (t f AND 0x0C)) = GetPacketNumberLength (ack_LargestAcked f)"
    "number_len (t f AND 0x03) = missing_delta_len (ack_LargestAcked f) (ack_LowestAcked f) (ack_AckRanges f)"
    by (simp_all add: t_def ack_typeByte_def Let_def ack_HasMissingRanges_def ack_getMissingSequenceNumberDeltaLen_def)
qed

lemma cp_flags_decode:
  defines "t f \<equiv> cp_flags f"
  shows "(t f AND 0x10 = 0x10) = (cp_AckRanges f \<noteq> [])"
    "number_len (drop_bit 2 (t f AND 0x0C)) = GetPacketNumberLength (cp_LargestAcked f)"
    "number_len (t f AND 0x03) = missing_delta_len (cp_LargestAcked f) (cp_LowestAcked f) (cp_AckRanges f)"
proof -
  have bits: "(b AND 0x10 = 0x10) = miss
      \<and> number_len (drop_bit 2 (b AND 0x0C)) = L \<and> number_len (b AND 0x03) = D"
    if "L \<in> {1, 2, 4, 6}" "D \<in> {1, 2, 4, 6}"
      "b = (let t = (if miss then 0 OR 0x10 else 0);
              t = (if L \<noteq> 1 then t XOR push_bit 2 (L div 2) else t)
          in if D \<noteq> 1 then t XOR (D div 2) else t)" for L D b :: u8 and miss
    using that by (elim insertE emptyE; cases miss; simp add: number_len_def)
  from bits [OF GetPacketNumberLength_cases missing_delta_len_cases, of "t f" "cp_AckRanges f \<noteq> []"
      "cp_LargestAcked f" "cp_LargestAcked f" "cp_LowestAcked f" "cp_AckRanges f"]
  show "(t f AND 0x10 = 0x10) = (cp_AckRanges f \<noteq> [])"
    "number_len (drop_bit 2 (t f AND 0x0C)) = GetPacketNumberLength (cp_LargestAcked f)"
    "number_len (t f AND 0x03) = missing_delta_len (cp_LargestAcked f) (cp_LowestAcked f) (cp_AckRanges f)"
    by (simp_all add: t_def cp_flags_def Let_def cp_HasMissingRanges_def cp_getMissingSequenceNumberDeltaLen_def)
qed

section \<open>Round trip of the frames\<close>

lemma num_writable_bounds:
  assumes "blocks_valid L lo rs" "rs \<noteq> []"
  shows "unat (num_writable rs) \<le> 255" "\<not> 0xFF < num_writable rs" "(ucast (num_writable rs - 1) :: u8) \<noteq> 0"
    "unat (num_writable rs) = unat (num_writable rs - 1) + 1"
proof -
  obtain r rs' where rs: "rs = r # rs'" using assms(2) by (cases rs) auto
  let ?k = "num_writable_loop r rs' 0"
  have k: "unat ?k < 255" using num_writable_loop_bounds [of 0 r rs'] by simp
  have enc: "encodable (missing_delta_len L lo rs) r rs'" using blocks_valid_encodable(1) assms(1) rs by simp
  have "?k \<noteq> 0" using num_writable_loop_none [OF enc, of 0] assms(1) rs by (simp add: blocks_valid_def)
  then have "unat ?k \<noteq> 0" by (simp add: unsigned_eq_0_iff)
  have u: "unat (num_writable rs) = unat ?k + 1" "num_writable rs - 1 = ?k"
    using k by (simp_all add: rs num_writable_def unat_word_ariths)
  have uc: "unat (ucast ?k :: u8) = unat ?k" using k by (simp add: unsigned_ucast_eq take_bit_nat_eq_self)
  then show "(ucast (num_writable rs - 1) :: u8) \<noteq> 0" using \<open>unat ?k \<noteq> 0\<close> u(2) by (metis unsigned_0)
  show "unat (num_writable rs) \<le> 255" "\<not> 0xFF < num_writable rs" "unat (num_writable rs) = unat (num_writable rs - 1) + 1"
    using u k by (simp_all add: word_less_nat_alt)
qed

lemma blocks_length_word:
  assumes "blocks_valid L lo rs" "rs \<noteq> []"
  shows "(1 + ucast (len :: u8)) * num_writable rs
    = 1 + of_nat (unat len + (unat (num_writable rs) - 1) * (1 + unat len)) "
proof -
  define k where "k = num_writable rs - 1"
  have "unat (num_writable rs) - 1 = unat k" "num_writable rs = k + 1"
    using num_writable_bounds(4) [OF assms] by (simp_all add: k_def)
  then show ?thesis by (simp add: algebra_simps)
qed

lemma largest_acked_written:
  assumes "unat L < 2 ^ 48"
  shows "\<exists>bs. write_number m v (GetPacketNumberLength L) L = Inr bs \<and> length bs = unat (GetPacketNumberLength L)
    \<and> (\<forall>r. ReadUintN (GetByteOrder v) (bs @ r) (GetPacketNumberLength L) = Inr (L, r))"
  using number_written [OF GetPacketNumberLength_valid GetPacketNumberLength_fits [OF assms]] .

definition AckFrame_valid :: "AckFrame \<Rightarrow> VersionNumber \<Rightarrow> bool" where
  "AckFrame_valid f version \<longleftrightarrow> blocks_valid (ack_LargestAcked f) (ack_LowestAcked f) (ack_AckRanges f)"

text \<open>What the peer reads: the ranges that fit, and the delay since the packet was received.\<close>

definition AckFrame_canon :: "gotime \<Rightarrow> AckFrame \<Rightarrow> AckFrame" where
  "AckFrame_canon now f =
     (let (lo, ranges) = blocks_canon (ack_LowestAcked f) (ack_AckRanges f)
      in f\<lparr>ack_LowestAcked := lo, ack_AckRanges := ranges, ack_PacketReceivedTime := 0,
           ack_DelayTime := rtt_on_wire (time_sub now (ack_PacketReceivedTime f))\<rparr>)"

lemma length_writeUfloat16 [simp]: "length (writeUfloat16 ord x) = 2"
  by (simp add: writeUfloat16_def)

lemma readUfloat16_written:
  "readUfloat16 ord (writeUfloat16 ord x @ r) = Inr (ufloat16_decode (ufloat16_encode x), r)"
  by (simp add: readUfloat16_def writeUfloat16_def)

lemma parse_ack_blocks_no_missing:
  "parse_ack_blocks v False nb len L r = parse_ack_blocks v False nb' len L r"
  unfolding parse_ack_blocks_def if_False ..

lemma AckFrame_written:
  assumes "AckFrame_valid f v"
  shows "\<exists>bs f'. AckFrame_Write now f v = Inr (ack_typeByte f # bs, f')
    \<and> AckFrame_MinLength f v = Inr (of_nat (Suc (length bs)))
    \<and> (\<forall>r. ParseAckFrame (ack_typeByte f # bs @ r) v = Inr (AckFrame_canon now f, r))"
proof -
  let ?L = "ack_LargestAcked f" and ?lo = "ack_LowestAcked f" and ?rs = "ack_AckRanges f"
  let ?len = "missing_delta_len ?L ?lo ?rs" and ?d = "time_sub now (ack_PacketReceivedTime f)"
  have valid: "blocks_valid ?L ?lo ?rs" using assms by (simp add: AckFrame_valid_def)
  then have "unat ?L < 2 ^ 48" by (auto simp: blocks_valid_def)
  then obtain la where la: "write_number True v (GetPacketNumberLength ?L) ?L = Inr la"
    "length la = unat (GetPacketNumberLength ?L)"
    "\<forall>r. ReadUintN (GetByteOrder v) (la @ r) (GetPacketNumberLength ?L) = Inr (?L, r)"
    using largest_acked_written by blast
  let ?bug = "OtherError ''BUG: Inconsistent number of ACK ranges written''"
  obtain bl where bl: "write_ack_blocks True ?bug v ?L ?lo ?rs = Inr bl"
    "length bl = (if ?rs = [] then unat ?len else unat ?len + (unat (num_writable ?rs) - 1) * (1 + unat ?len))"
    "\<forall>rest. parse_ack_blocks v (?rs \<noteq> []) (ucast (num_writable ?rs - 1)) ?len ?L (bl @ rest)
        = Inr (blocks_canon ?lo ?rs, rest)"
    using ack_blocks_roundtrip [OF valid] by blast
  let ?delay = "writeUfloat16 (GetByteOrder v) (word_of_int (quot ?d 1000))"
  let ?nb = "if ?rs \<noteq> [] then [ucast (num_writable ?rs - 1)] else []"
  let ?bs = "(if ack_PathID f \<noteq> 0 then [ack_PathID f] else []) @ la @ ?delay @ ?nb @ bl @ [0]"
  have "ack_typeByte (f\<lparr>ack_DelayTime := ?d\<rparr>) = ack_typeByte f"
    by (simp add: ack_typeByte_def ack_HasMissingRanges_def ack_getMissingSequenceNumberDeltaLen_def)
  then have "AckFrame_Write now f v = Inr (ack_typeByte f # ?bs, f\<lparr>ack_DelayTime := ?d\<rparr>)"
    using la(1) bl(1) num_writable_bounds(2) [OF valid]
    by (simp add: AckFrame_Write_def Let_def ack_HasMissingRanges_def ack_numWritableNackRanges_def del: andThen_Inr_iff)
  moreover have "AckFrame_MinLength f v = Inr (of_nat (Suc (length ?bs)))"
    using blocks_length_word [OF valid, of ?len]
    by (simp add: AckFrame_MinLength_def Let_def ack_HasMissingRanges_def ack_numWritableNackRanges_def
        ack_getMissingSequenceNumberDeltaLen_def la(2) bl(2) ac_simps del: of_nat_mult of_nat_diff)
  moreover have "ParseAckFrame (ack_typeByte f # ?bs @ r) v = Inr (AckFrame_canon now f, r)" for r
  proof -
    obtain lo rs where c: "blocks_canon ?lo ?rs = (lo, rs)" by fastforce
    have p: "parse_ack_blocks v (?rs \<noteq> []) (if ?rs \<noteq> [] then ucast (num_writable ?rs - 1) else 0) ?len ?L (bl @ 0 # r)
        = Inr ((lo, rs), 0 # r)"
      using bl(3) c parse_ack_blocks_no_missing [of v 0 ?len ?L "bl @ 0 # r" "ucast (num_writable ?rs - 1)"]
      by (cases "?rs = []") simp_all
    have nb: "(if ?rs \<noteq> [] then ReadByte (?nb @ bl @ 0 # r) else Inr (0, ?nb @ bl @ 0 # r))
        = Inr (if ?rs \<noteq> [] then ucast (num_writable ?rs - 1) else 0, bl @ 0 # r)"
      by simp
    have path: "(if ack_PathID f \<noteq> 0 then ReadByte (?bs @ r) else Inr (0, ?bs @ r))
        = Inr (ack_PathID f, la @ ?delay @ ?nb @ bl @ 0 # r)"
      by simp
    have nz: "\<not> (?rs \<noteq> [] \<and> (if ?rs \<noteq> [] then ucast (num_writable ?rs - 1) else (0 :: u8)) = 0)"
      using num_writable_bounds(3) [OF valid] by auto
    have ts: "ParseAckFrame_timestamps v (0 # r) = Inr r"
      by (simp add: ParseAckFrame_timestamps_def)
    have "ParseAckFrame (ack_typeByte f # ?bs @ r) v
      = Inr (\<lparr>ack_PathID = ack_PathID f, ack_LargestAcked = ?L, ack_LowestAcked = lo, ack_AckRanges = rs,
          ack_PacketReceivedTime = 0, ack_DelayTime = rtt_on_wire ?d\<rparr>, r)"
      unfolding ParseAckFrame_def Let_def ReadByte.simps andThen.simps prod.case ack_typeByte_decode path
        la(3) [rule_format] readUfloat16_written nb
      by (simp only: nz p ts andThen.simps prod.case if_False rtt_on_wire_def)
    then show ?thesis by (simp add: AckFrame_canon_def c)
  qed
  ultimately show ?thesis by blast
qed

lemma ClosePathFrame_written:
  assumes valid: "blocks_valid (cp_LargestAcked f) (cp_LowestAcked f) (cp_AckRanges f)"
  shows "\<exists>bs. ClosePathFrame_Write f v = Inr (0x11 # bs)
    \<and> ClosePathFrame_MinLength f v = Inr (of_nat (Suc (length bs)))
    \<and> (\<forall>r. ParseClosePathFrame (0x11 # bs @ r) v =
        Inr (let (lo, ranges) = blocks_canon (cp_LowestAcked f) (cp_AckRanges f)
             in f\<lparr>cp_LowestAcked := lo, cp_AckRanges := ranges\<rparr>, r))"
proof -
  let ?L = "cp_LargestAcked f" and ?lo = "cp_LowestAcked f" and ?rs = "cp_AckRanges f"
  let ?len = "missing_delta_len ?L ?lo ?rs"
  from valid have "unat ?L < 2 ^ 48" by (auto simp: blocks_valid_def)
  then obtain la where la: "write_number False v (GetPacketNumberLength ?L) ?L = Inr la"
    "length la = unat (GetPacketNumberLength ?L)"
    "\<forall>r. ReadUintN (GetByteOrder v) (la @ r) (GetPacketNumberLength ?L) = Inr (?L, r)"
    using largest_acked_written by blast
  let ?bug = "OtherError ''BUG: Inconsistent number of ACK ranges written in ClosePath''"
  obtain bl where bl: "write_ack_blocks False ?bug v ?L ?lo ?rs = Inr bl"
    "length bl = (if ?rs = [] then unat ?len else unat ?len + (unat (num_writable ?rs) - 1) * (1 + unat ?len))"
    "\<forall>rest. parse_ack_blocks v (?rs \<noteq> []) (ucast (num_writable ?rs - 1)) ?len ?L (bl @ rest)
        = Inr (blocks_canon ?lo ?rs, rest)"
    using ack_blocks_roundtrip [OF valid] by blast
  let ?nb = "if ?rs \<noteq> [] then [ucast (num_writable ?rs - 1)] else []"
  let ?bs = "[cp_PathID f, cp_flags f] @ ?nb @ la @ bl"
  have "ClosePathFrame_Write f v = Inr (0x11 # ?bs)"
    using la(1) bl(1) num_writable_bounds(2) [OF valid]
    by (simp add: ClosePathFrame_Write_def Let_def cp_HasMissingRanges_def cp_numWritableNackRanges_def del: andThen_Inr_iff)
  moreover have "ClosePathFrame_MinLength f v = Inr (of_nat (Suc (length ?bs)))"
    using blocks_length_word [OF valid, of ?len]
    by (simp add: ClosePathFrame_MinLength_def Let_def cp_HasMissingRanges_def cp_numWritableNackRanges_def
        cp_getMissingSequenceNumberDeltaLen_def la(2) bl(2) ac_simps del: of_nat_mult of_nat_diff)
  moreover have "ParseClosePathFrame (0x11 # ?bs @ r) v =
      Inr (let (lo, ranges) = blocks_canon ?lo ?rs in f\<lparr>cp_LowestAcked := lo, cp_AckRanges := ranges\<rparr>, r)" for r
  proof -
    obtain lo rs where c: "blocks_canon ?lo ?rs = (lo, rs)" by fastforce
    have p: "parse_ack_blocks v (?rs \<noteq> []) (if ?rs \<noteq> [] then ucast (num_writable ?rs - 1) else 0) ?len ?L (bl @ r)
        = Inr ((lo, rs), r)"
      using bl(3) c parse_ack_blocks_no_missing [of v 0 ?len ?L "bl @ r" "ucast (num_writable ?rs - 1)"]
      by (cases "?rs = []") simp_all
    have nb: "(if ?rs \<noteq> [] then ReadByte (?nb @ la @ bl @ r) else Inr (0, ?nb @ la @ bl @ r))
        = Inr (if ?rs \<noteq> [] then ucast (num_writable ?rs - 1) else 0, la @ bl @ r)"
      by simp
    have nz: "\<not> (?rs \<noteq> [] \<and> (if ?rs \<noteq> [] then ucast (num_writable ?rs - 1) else (0 :: u8)) = 0)"
      using num_writable_bounds(3) [OF valid] by auto
    have "ParseClosePathFrame (0x11 # ?bs @ r) v
      = Inr (\<lparr>cp_PathID = cp_PathID f, cp_LargestAcked = ?L, cp_LowestAcked = lo, cp_AckRanges = rs\<rparr>, r)"
      unfolding ParseClosePathFrame_def Let_def append_Cons append_Nil append_assoc ReadByte.simps andThen.simps prod.case
        cp_flags_decode nb
      by (simp only: nz p la(3) andThen.simps prod.case if_False)
    then show ?thesis by (simp add: c)
  qed
  ultimately show ?thesis by blast
qed

section \<open>The frames as instances of the frame interface\<close>

definition AckFrame_bytes :: "gotime \<Rightarrow> AckFrame \<Rightarrow> VersionNumber \<Rightarrow> bytes result" where
  "AckFrame_bytes now f version = andThen (AckFrame_Write now f version) (\<lambda>(bs, _). Inr bs)"

definition ClosePathFrame_valid :: "ClosePathFrame \<Rightarrow> VersionNumber \<Rightarrow> bool" where
  "ClosePathFrame_valid f version \<longleftrightarrow> blocks_valid (cp_LargestAcked f) (cp_LowestAcked f) (cp_AckRanges f)"

definition ClosePathFrame_canon :: "ClosePathFrame \<Rightarrow> ClosePathFrame" where
  "ClosePathFrame_canon f =
     (let (lo, ranges) = blocks_canon (cp_LowestAcked f) (cp_AckRanges f)
      in f\<lparr>cp_LowestAcked := lo, cp_AckRanges := ranges\<rparr>)"

lemma skip_timestamps_consumes: "skip_timestamps v n b = Inr r \<Longrightarrow> length r \<le> length b"
proof (induction n arbitrary: b)
  case (Suc n)
  then obtain t b1 x b2 where "b = t # b1" "ReadUint16 (GetByteOrder v) b1 = Inr (x, b2)"
    "skip_timestamps v n b2 = Inr r" by auto
  with Suc.IH [of b2] show ?case by (auto dest!: bo_consumes)
qed simp

lemma ParseAckFrame_timestamps_consumes: "ParseAckFrame_timestamps v b = Inr r \<Longrightarrow> length r \<le> length b"
  by (auto simp: ParseAckFrame_timestamps_def split: if_splits dest!: skip_timestamps_consumes bo_consumes)

lemma readUfloat16_consumes: "readUfloat16 ord b = Inr (x, r) \<Longrightarrow> length r \<le> length b"
  by (auto simp: readUfloat16_def dest!: bo_consumes)

text \<open>The steps of a successful parse.\<close>

lemma ParseAckFrame_InrE:
  assumes "ParseAckFrame b v = Inr (f, r)"
  obtains t b1 b2 b3 b4 b5 nb path d lo rs la where "b = t # b1" "length b2 \<le> length b1"
    "ReadUintN (GetByteOrder v) b2 (number_len (drop_bit 2 (t AND 0x0C))) = Inr (la, b3)"
    "length b4 \<le> length b3"
    "parse_ack_blocks v (t AND 0x20 = 0x20) nb (number_len (t AND 3)) la b4 = Inr ((lo, rs), b5)"
    "length r \<le> length b5" "ack_LargestAcked f = la" "ack_LowestAcked f = lo" "ack_AckRanges f = rs"
proof -
  obtain t b1 where b: "b = t # b1" using assms unfolding ParseAckFrame_def by (elim andThen_InrE) auto
  note A = assms [unfolded ParseAckFrame_def b ReadByte.simps andThen.simps prod.case Let_def]
  from A obtain path b2 where p: "(if t AND 0x10 = 0x10 then ReadByte b1 else Inr (0, b1)) = Inr (path, b2)"
    by (elim andThen_InrE) auto
  note A = A [unfolded p andThen.simps prod.case]
  from A obtain la b3 where la: "ReadUintN (GetByteOrder v) b2 (number_len (drop_bit 2 (t AND 0x0C))) = Inr (la, b3)"
    by (elim andThen_InrE) auto
  note A = A [unfolded la andThen.simps prod.case]
  from A obtain d b4 where d: "readUfloat16 (GetByteOrder v) b3 = Inr (d, b4)"
    by (elim andThen_InrE) auto
  note A = A [unfolded d andThen.simps prod.case]
  from A obtain nb b5 where nb: "(if t AND 0x20 = 0x20 then ReadByte b4 else Inr (0, b4)) = Inr (nb, b5)"
    by (elim andThen_InrE) auto
  note A = A [unfolded nb andThen.simps prod.case]
  have nz: "\<not> (t AND 0x20 = 0x20 \<and> nb = 0)" using A by (auto split: if_splits)
  note A = A [unfolded if_not_P [OF nz]]
  from A obtain lo rs b6 where
    bl: "parse_ack_blocks v (t AND 0x20 = 0x20) nb (number_len (t AND 3)) la b5 = Inr ((lo, rs), b6)"
    by (elim andThen_InrE) auto
  note A = A [unfolded bl andThen.simps prod.case]
  from A obtain b7 where ts: "ParseAckFrame_timestamps v b6 = Inr b7"
    by (elim andThen_InrE) auto
  note A = A [unfolded ts andThen.simps prod.case]
  have "length b2 \<le> length b1" "length b5 \<le> length b3" "length r \<le> length b6"
    using p d nb A ts readUfloat16_consumes [OF d] ParseAckFrame_timestamps_consumes [OF ts]
    by (auto split: if_splits)
  with that [OF b _ la _ bl] A show thesis by auto
qed

lemma ParseAckFrame_no_panic: "no_panic (ParseAckFrame b v)"
proof -
  have "no_panic (skip_timestamps v n b)" for n b
    by (induction n arbitrary: b) (auto simp: no_panic_rules)
  then have ts: "no_panic (ParseAckFrame_timestamps v b)" for b
    unfolding ParseAckFrame_timestamps_def by (auto simp: no_panic_rules)
  show ?thesis unfolding ParseAckFrame_def Let_def
    by (rule ts no_panic_intros parse_ack_blocks_no_panic no_panic_read no_panic_readUfloat16 no_panic_ReadByte
        goerror.distinct | assumption | blast)+
qed

lemma ParseClosePathFrame_no_panic: "no_panic (ParseClosePathFrame b v)"
  unfolding ParseClosePathFrame_def Let_def
  by (rule no_panic_intros parse_ack_blocks_no_panic no_panic_read no_panic_ReadByte goerror.distinct | assumption | blast)+

lemma ParseClosePathFrame_InrE:
  assumes "ParseClosePathFrame b v = Inr (f, r)"
  obtains t b1 b2 b3 nb lo rs la where "length b1 < length b"
    "ReadUintN (GetByteOrder v) b1 (number_len (drop_bit 2 (t AND 0x0C))) = Inr (la, b2)"
    "parse_ack_blocks v (t AND 0x10 = 0x10) nb (number_len (t AND 3)) la b2 = Inr ((lo, rs), r)"
    "cp_LargestAcked f = la" "cp_LowestAcked f = lo" "cp_AckRanges f = rs"
proof -
  obtain t0 p t b1 where b: "b = t0 # p # t # b1"
    using assms unfolding ParseClosePathFrame_def by (elim andThen_InrE) auto
  note A = assms [unfolded ParseClosePathFrame_def b ReadByte.simps andThen.simps prod.case Let_def]
  from A obtain nb b2 where nb: "(if t AND 0x10 = 0x10 then ReadByte b1 else Inr (0, b1)) = Inr (nb, b2)"
    by (elim andThen_InrE) auto
  note A = A [unfolded nb andThen.simps prod.case]
  have nz: "\<not> (t AND 0x10 = 0x10 \<and> nb = 0)" using A by (auto split: if_splits)
  note A = A [unfolded if_not_P [OF nz]]
  from A obtain la b3 where la: "ReadUintN (GetByteOrder v) b2 (number_len (drop_bit 2 (t AND 0x0C))) = Inr (la, b3)"
    by (elim andThen_InrE) auto
  note A = A [unfolded la andThen.simps prod.case]
  from A obtain lo rs b4 where
    bl: "parse_ack_blocks v (t AND 0x10 = 0x10) nb (number_len (t AND 3)) la b3 = Inr ((lo, rs), b4)"
    by (elim andThen_InrE) auto
  note A = A [unfolded bl andThen.simps prod.case]
  have "length b2 < length b" using nb b by (auto split: if_splits)
  with that [OF _ la] bl A show thesis by auto
qed

lemma AckFrame_accepted:
  assumes "ParseAckFrame b v = Inr (f, r)"
  shows "length r < length b" "unat (ack_LargestAcked f) < 2 ^ 48"
    "blocks_accepted (ack_LargestAcked f) (ack_LowestAcked f) (ack_AckRanges f)"
proof -
  from assms obtain t b1 b2 b3 b4 b5 nb path d lo rs la where b: "b = t # b1" "length b2 \<le> length b1"
    and la: "ReadUintN (GetByteOrder v) b2 (number_len (drop_bit 2 (t AND 0x0C))) = Inr (la, b3)"
    and l: "length b4 \<le> length b3" "length r \<le> length b5"
    and bl: "parse_ack_blocks v (t AND 0x20 = 0x20) nb (number_len (t AND 3)) la b4 = Inr ((lo, rs), b5)"
    and f: "ack_LargestAcked f = la" "ack_LowestAcked f = lo" "ack_AckRanges f = rs"
    by (rule ParseAckFrame_InrE)
  show "length r < length b"
    using b l bo.readN_consumes [OF la] parse_ack_blocks_consumes [OF bl] by simp
  have len: "unat (number_len (drop_bit 2 (t AND 0x0C))) \<le> 6" by (rule number_len_le)
  then have "unat la < 2 ^ (8 * unat (number_len (drop_bit 2 (t AND 0x0C))))"
    by (intro bo.readN_bound [OF la]) simp
  also have "\<dots> \<le> 2 ^ 48" using len by (intro power_increasing) simp_all
  finally show "unat (ack_LargestAcked f) < 2 ^ 48" using f(1) by simp
  then show "blocks_accepted (ack_LargestAcked f) (ack_LowestAcked f) (ack_AckRanges f)"
    using parse_ack_blocks_accepted [OF bl number_len_le(1)] f by simp
qed

lemma ParseClosePathFrame_consumes:
  assumes "ParseClosePathFrame b v = Inr (f, r)" shows "length r < length b"
  using assms
  by (rule ParseClosePathFrame_InrE) (auto dest!: bo.readN_consumes parse_ack_blocks_consumes)

interpretation ack: frame_codec "AckFrame_bytes now" AckFrame_MinLength ParseAckFrame AckFrame_valid
  "AckFrame_canon now" "\<lambda>t. t AND 0xC0 = 0x40" for now
proof unfold_locales
  fix f v bs r assume valid: "AckFrame_valid f v"
  then obtain b' f' where w: "AckFrame_Write now f v = Inr (ack_typeByte f # b', f')"
    "AckFrame_MinLength f v = Inr (of_nat (Suc (length b')))"
    "\<forall>r. ParseAckFrame (ack_typeByte f # b' @ r) v = Inr (AckFrame_canon now f, r)"
    using AckFrame_written by blast
  show "\<exists>t bs. AckFrame_bytes now f v = Inr (t # bs) \<and> t AND 0xC0 = 0x40"
    using w(1) ack_typeByte_decode(3) by (simp add: AckFrame_bytes_def del: andThen_Inr_iff)
  assume "AckFrame_bytes now f v = Inr bs"
  then have "bs = ack_typeByte f # b'" using w(1) by (simp add: AckFrame_bytes_def del: andThen_Inr_iff)
  then show "ParseAckFrame (bs @ r) v = Inr (AckFrame_canon now f, r)"
    "AckFrame_MinLength f v = Inr (of_nat (length bs))" using w(2,3) by simp_all
qed (rule AckFrame_accepted)

interpretation close_path: frame_codec ClosePathFrame_Write ClosePathFrame_MinLength ParseClosePathFrame
  ClosePathFrame_valid ClosePathFrame_canon "\<lambda>t. t = 0x11"
proof unfold_locales
  fix f v bs r assume "ClosePathFrame_valid f v"
  then obtain b' where w: "ClosePathFrame_Write f v = Inr (0x11 # b')"
    "ClosePathFrame_MinLength f v = Inr (of_nat (Suc (length b')))"
    "\<forall>r. ParseClosePathFrame (0x11 # b' @ r) v = Inr (ClosePathFrame_canon f, r)"
    using ClosePathFrame_written unfolding ClosePathFrame_valid_def ClosePathFrame_canon_def by blast
  then show "\<exists>t bs. ClosePathFrame_Write f v = Inr (t # bs) \<and> t = 0x11" by simp
  assume "ClosePathFrame_Write f v = Inr bs"
  then show "ParseClosePathFrame (bs @ r) v = Inr (ClosePathFrame_canon f, r)"
    "ClosePathFrame_MinLength f v = Inr (of_nat (length bs))" using w by auto
qed (rule ParseClosePathFrame_consumes)

section \<open>Properties\<close>

text \<open>C19. An ACK frame with consistent ranges below \<open>2 ^ 48\<close>, of which at least one more fits beside the first,
  is written without an error, has the length that \<^verbatim>\<open>MinLength\<close> states, and is read back with the ranges
  that fit, in their order; in particular with all ranges when they fit.\<close>

theorem ack_frame_roundtrip:
  assumes "AckFrame_valid f v"
  shows "\<exists>bs f'. AckFrame_Write now f v = Inr (bs, f') \<and> AckFrame_MinLength f v = Inr (of_nat (length bs))
    \<and> ParseAckFrame (bs @ r) v = Inr (AckFrame_canon now f, r)"
proof -
  obtain bs f' where "AckFrame_Write now f v = Inr (ack_typeByte f # bs, f')"
    "AckFrame_MinLength f v = Inr (of_nat (Suc (length bs)))"
    "\<forall>r. ParseAckFrame (ack_typeByte f # bs @ r) v = Inr (AckFrame_canon now f, r)"
    using AckFrame_written [OF assms] by blast
  then show ?thesis by (intro exI [of _ "ack_typeByte f # bs"] exI [of _ f']) simp
qed

lemma ack_frame_roundtrip_witness:
  "let f = \<lparr>ack_PathID = 1, ack_LargestAcked = 1000, ack_LowestAcked = 2,
            ack_AckRanges = [\<lparr>First = 900, Last = 1000\<rparr>, \<lparr>First = 2, Last = 100\<rparr>],
            ack_PacketReceivedTime = 0, ack_DelayTime = 0\<rparr>
   in AckFrame_valid f 39 \<and> (\<exists>bs f'. AckFrame_Write 5000 f 39 = Inr (bs, f')
     \<and> ParseAckFrame bs 39 = Inr (AckFrame_canon 5000 f, []))"
proof -
  let ?f = "\<lparr>ack_PathID = 1, ack_LargestAcked = 1000, ack_LowestAcked = 2,
            ack_AckRanges = [\<lparr>First = 900, Last = 1000\<rparr>, \<lparr>First = 2, Last = 100\<rparr>],
            ack_PacketReceivedTime = 0, ack_DelayTime = 0\<rparr>"
  have valid: "AckFrame_valid ?f 39"
    by (simp add: AckFrame_valid_def blocks_valid_def range_blocks_def Let_def)
  from ack_frame_roundtrip [OF this, of 5000 "[]"] valid show ?thesis unfolding Let_def by auto
qed

text \<open>C20. Whatever bytes arrive, the ranges of an ACK frame that the parser accepts are not empty, descend and
  leave a gap between any two, and \<^verbatim>\<open>AcksPacket\<close> holds exactly for the packets in one of them.\<close>

theorem ack_frame_accepted:
  assumes "ParseAckFrame b v = Inr (f, r)"
  shows "blocks_accepted (ack_LargestAcked f) (ack_LowestAcked f) (ack_AckRanges f)
    \<and> (\<forall>p. ack_AcksPacket f p \<longleftrightarrow>
         (if ack_AckRanges f = [] then p \<in> {ack_LowestAcked f..ack_LargestAcked f}
          else \<exists>r \<in> set (ack_AckRanges f). p \<in> range_set r))"
  using AckFrame_accepted(3) [OF assms] acks_packet_iff [OF AckFrame_accepted(3) [OF assms]]
  by (simp add: ack_AcksPacket_def)

lemma ack_frame_accepted_witness:
  "\<exists>f. ParseAckFrame [0x60, 10, 0, 0, 1, 2, 3, 4, 0] 39 = Inr (f, []) \<and> \<not> ack_AcksPacket f 6"
proof -
  have p: "ParseAckFrame [0x60, 10, 0, 0, 1, 2, 3, 4, 0] 39 = Inr (\<lparr>ack_PathID = 0, ack_LargestAcked = 10,
      ack_LowestAcked = 2, ack_AckRanges = [\<lparr>First = 9, Last = 10\<rparr>, \<lparr>First = 2, Last = 5\<rparr>],
      ack_PacketReceivedTime = 0, ack_DelayTime = 0\<rparr>, [])"
    by code_simp
  then show ?thesis using ack_frame_accepted [OF p] by (auto simp: range_set_def)
qed

text \<open>C28. The writer of ACK frames fails with its internal error when the gap after the first range has
  64771 packets or more, although the ranges are consistent.\<close>

theorem ack_frame_long_gap_error:
  assumes "ack_AckRanges f = r # r' # rs" "Last r = ack_LargestAcked f" "unat (Last r) + 1 < 2 ^ 48"
    and "ack_LowestAcked f = First (last (ack_AckRanges f))" "separated r (r' # rs)"
    and "64771 \<le> unat (First r) - unat (Last r') - 1"
  shows "AckFrame_Write now f v = Inl (OtherError ''BUG: Inconsistent number of ACK ranges written'')"
proof -
  let ?bug = "OtherError ''BUG: Inconsistent number of ACK ranges written''"
  have "unat (ack_LargestAcked f) < 2 ^ 48" using assms(2,3) by simp
  then obtain la where "write_number True v (GetPacketNumberLength (ack_LargestAcked f)) (ack_LargestAcked f) = Inr la"
    using largest_acked_written by blast
  moreover have "write_ack_blocks True ?bug v (ack_LargestAcked f) (ack_LowestAcked f) (r # r' # rs) = Inl ?bug"
    using assms by (intro write_ack_blocks_gap) auto
  moreover have "\<not> num_writable (r # r' # rs) > 0xFF"
    using num_writable_loop_bounds [of 0 r "r' # rs"]
    by (simp add: num_writable_def word_less_nat_alt unat_word_ariths del: num_writable_loop.simps)
  ultimately show ?thesis
    using assms(1) by (simp add: AckFrame_Write_def Let_def ack_numWritableNackRanges_def del: andThen_Inr_iff)
qed

lemma ack_frame_long_gap_error_witness:
  "AckFrame_Write 0 \<lparr>ack_PathID = 0, ack_LargestAcked = 70000, ack_LowestAcked = 1,
            ack_AckRanges = [\<lparr>First = 70000, Last = 70000\<rparr>, \<lparr>First = 1, Last = 1\<rparr>],
            ack_PacketReceivedTime = 0, ack_DelayTime = 0\<rparr> 39
   = Inl (OtherError ''BUG: Inconsistent number of ACK ranges written'')"
  by (rule ack_frame_long_gap_error [where r = "\<lparr>First = 70000, Last = 70000\<rparr>" and r' = "\<lparr>First = 1, Last = 1\<rparr>"
        and rs = "[]"]) simp_all

text \<open>The same round trip for the close path frame, which carries the ranges of the path at the time it
  is closed.\<close>

theorem close_path_frame_roundtrip:
  assumes "ClosePathFrame_valid f v"
  shows "\<exists>bs. ClosePathFrame_Write f v = Inr bs \<and> ClosePathFrame_MinLength f v = Inr (of_nat (length bs))
    \<and> ParseClosePathFrame (bs @ r) v = Inr (ClosePathFrame_canon f, r)"
  using close_path.written [OF assms] close_path.read_back [OF assms] close_path.min_length [OF assms] by blast

lemma close_path_frame_roundtrip_witness:
  "let f = \<lparr>cp_PathID = 3, cp_LargestAcked = 70000, cp_LowestAcked = 60000, cp_AckRanges = []\<rparr>
   in ClosePathFrame_valid f 39 \<and> (\<exists>bs. ClosePathFrame_Write f 39 = Inr bs
     \<and> ParseClosePathFrame bs 39 = Inr (ClosePathFrame_canon f, []))"
proof -
  let ?f = "\<lparr>cp_PathID = 3, cp_LargestAcked = 70000, cp_LowestAcked = 60000, cp_AckRanges = []\<rparr>"
  have valid: "ClosePathFrame_valid ?f 39" by (simp add: ClosePathFrame_valid_def blocks_valid_def)
  from close_path_frame_roundtrip [OF this, of "[]"] valid show ?thesis unfolding Let_def by auto
qed

end
