(* ===== verification/Public_Header.thy ===== *)
theory Public_Header
  imports Ack_Frame
begin

text \<open>The public header of a packet (\<^verbatim>\<open>internal/wire/public_header.go\<close>) and the version negotiation packet
  (\<^verbatim>\<open>internal/wire/version_negotiation.go\<close>): the writer, the parser, the length that the packer reserves
  and the lookahead that finds the connection of a packet.\<close>

type_synonym ConnectionID = u64

record PublicHeader =
  ph_Raw :: bytes
  ph_ConnectionID :: ConnectionID
  ph_PathID :: PathID
  ph_VersionFlag :: bool
  ph_ResetFlag :: bool
  ph_TruncateConnectionID :: bool
  ph_MultipathFlag :: bool
  ph_PacketNumberLen :: PacketNumberLen
  ph_PacketNumber :: PacketNumber
  ph_VersionNumber :: VersionNumber
  ph_SupportedVersions :: "VersionNumber list"
  ph_DiversificationNonce :: bytes

text \<open>The zero value of the structure.\<close>

definition zero_PublicHeader :: PublicHeader where
  "zero_PublicHeader =
     \<lparr>ph_Raw = [], ph_ConnectionID = 0, ph_PathID = 0, ph_VersionFlag = False, ph_ResetFlag = False,
      ph_TruncateConnectionID = False, ph_MultipathFlag = False, ph_PacketNumberLen = 0, ph_PacketNumber = 0,
      ph_VersionNumber = 0, ph_SupportedVersions = [], ph_DiversificationNonce = []\<rparr>"

definition hasPacketNumber :: "PublicHeader \<Rightarrow> Perspective \<Rightarrow> bool" where
  "hasPacketNumber h packetSentBy =
     (if ph_ResetFlag h then False
      else if ph_VersionFlag h \<and> packetSentBy = PerspectiveServer then False
      else True)"

section \<open>Writing\<close>

definition publicFlagByte :: "PublicHeader \<Rightarrow> Perspective \<Rightarrow> u8" where
  "publicFlagByte h pers =
     (let flags = 0;
          flags = (if ph_VersionFlag h then flags OR 0x01 else flags);
          flags = (if ph_ResetFlag h then flags OR 0x02 else flags);
          flags = (if \<not> ph_TruncateConnectionID h then flags OR 0x08 else flags);
          flags = (if length (ph_DiversificationNonce h) > 0 then flags OR 0x04 else flags);
          flags = (if hasPacketNumber h pers then
              (if ph_PacketNumberLen h = PacketNumberLen1 then flags OR 0x00
               else if ph_PacketNumberLen h = PacketNumberLen2 then flags OR 0x10
               else if ph_PacketNumberLen h = PacketNumberLen4 then flags OR 0x20
               else if ph_PacketNumberLen h = PacketNumberLen6 then flags OR 0x30
               else flags)
            else flags)
      in if ph_MultipathFlag h then flags OR 0x40 else flags)"

definition writePacketNumber :: "PublicHeader \<Rightarrow> VersionNumber \<Rightarrow> bytes result" where
  "writePacketNumber h version =
     (if ph_PacketNumberLen h = PacketNumberLen1 then Inr [ucast (ph_PacketNumber h)]
      else if ph_PacketNumberLen h = PacketNumberLen2 then
        Inr (WriteUint16 (GetByteOrder version) (ucast (ph_PacketNumber h)))
      else if ph_PacketNumberLen h = PacketNumberLen4 then
        Inr (WriteUint32 (GetByteOrder version) (ucast (ph_PacketNumber h)))
      else if ph_PacketNumberLen h = PacketNumberLen6 then
        WriteUint48 (GetByteOrder version) (ph_PacketNumber h AND (push_bit 48 1 - 1))
      else Inl (OtherError ''PublicHeader: PacketNumberLen not set''))"

definition PublicHeader_Write :: "PublicHeader \<Rightarrow> VersionNumber \<Rightarrow> Perspective \<Rightarrow> bytes result" where
  "PublicHeader_Write h version pers =
     (if ph_VersionFlag h \<and> ph_ResetFlag h then Inl errResetAndVersionFlagSet
      else if length (ph_DiversificationNonce h) > 0 \<and> length (ph_DiversificationNonce h) \<noteq> 32
      then Inl (OtherError ''invalid diversification nonce length'')
      else
        let b = [publicFlagByte h pers]
              @ (if \<not> ph_TruncateConnectionID h then WriteUint64 LittleEndian (ph_ConnectionID h) else [])
              @ (if ph_VersionFlag h \<and> pers = PerspectiveClient
                 then WriteUint32 LittleEndian (VersionNumberToTag (ph_VersionNumber h)) else [])
              @ (if length (ph_DiversificationNonce h) > 0 then ph_DiversificationNonce h else [])
              @ (if ph_MultipathFlag h then [ph_PathID h] else [])
        in if \<not> hasPacketNumber h pers then Inr b
           else andThen (writePacketNumber h version) (\<lambda>pn. Inr (b @ pn)))"

definition PublicHeader_GetLength :: "PublicHeader \<Rightarrow> Perspective \<Rightarrow> ByteCount result" where
  "PublicHeader_GetLength h pers =
     (if ph_VersionFlag h \<and> ph_ResetFlag h then Inl errResetAndVersionFlagSet
      else if ph_VersionFlag h \<and> pers = PerspectiveServer then Inl errGetLengthNotForVersionNegotiation
      else
        let len = 1 in
        andThen
          (if hasPacketNumber h pers then
             (if ph_PacketNumberLen h \<noteq> PacketNumberLen1 \<and> ph_PacketNumberLen h \<noteq> PacketNumberLen2
                \<and> ph_PacketNumberLen h \<noteq> PacketNumberLen4 \<and> ph_PacketNumberLen h \<noteq> PacketNumberLen6
              then Inl errPacketNumberLenNotSet
              else Inr (len + ucast (ph_PacketNumberLen h)))
           else Inr len)
          (\<lambda>len.
             let len = (if \<not> ph_TruncateConnectionID h then len + 8 else len);
                 len = (if ph_VersionFlag h then len + 4 else len);
                 len = len + of_nat (length (ph_DiversificationNonce h))
             in Inr (if ph_MultipathFlag h then len + 1 else len)))"

definition ComposeVersionNegotiation :: "ConnectionID \<Rightarrow> VersionNumber list \<Rightarrow> bytes" where
  "ComposeVersionNegotiation connectionID versions =
     (let responsePublicHeader =
        zero_PublicHeader\<lparr>ph_ConnectionID := connectionID, ph_PacketNumber := 1, ph_VersionFlag := True\<rparr>
      in (case PublicHeader_Write responsePublicHeader VersionWhatever PerspectiveServer of
            Inl _ \<Rightarrow> [] | Inr bs \<Rightarrow> bs)
         @ concat (map (\<lambda>v. WriteUint32 LittleEndian (VersionNumberToTag v)) versions))"

section \<open>Reading\<close>

text \<open>The reader is restored, so that the result is the connection ID alone.\<close>

definition PeekConnectionID :: "bytes \<Rightarrow> Perspective \<Rightarrow> ConnectionID result" where
  "PeekConnectionID b packetSentBy =
     andThen (ReadByte b) (\<lambda>(flags, b).
       let truncateConnectionID = (flags AND 0x08 = 0)
       in if truncateConnectionID \<and> packetSentBy = PerspectiveClient then Inl errReceivedTruncatedConnectionID
          else if \<not> truncateConnectionID
          then andThen (ReadUint64 LittleEndian b) (\<lambda>(connID, _). Inr connID)
          else Inr 0)"

text \<open>The loop over the versions of a version negotiation packet; it ends at the first failing read.\<close>

function parseVersions :: "bytes \<Rightarrow> VersionNumber list" where
  "parseVersions b =
     (case ReadUint32 LittleEndian b of
        Inl _ \<Rightarrow> []
      | Inr (versionTag, b) \<Rightarrow> VersionTagToNumber versionTag # parseVersions b)"
  by pat_completeness auto
termination
  by (relation "measure length") (auto dest!: le.read32_consumes)

declare parseVersions.simps [simp del]

definition parsePacketNumberLen :: "u8 \<Rightarrow> PacketNumberLen" where
  "parsePacketNumberLen flags =
     (if flags AND 0x30 = 0x30 then PacketNumberLen6
      else if flags AND 0x30 = 0x20 then PacketNumberLen4
      else if flags AND 0x30 = 0x10 then PacketNumberLen2
      else if flags AND 0x30 = 0x00 then PacketNumberLen1
      else 0)"

text \<open>The end of the header: the path and the packet number.\<close>

definition parsePathAndNumber ::
  "PublicHeader \<Rightarrow> bytes \<Rightarrow> Perspective \<Rightarrow> VersionNumber \<Rightarrow> (PublicHeader \<times> bytes) result" where
  "parsePathAndNumber header b packetSentBy version =
     andThen (if ph_MultipathFlag header then ReadByte b else Inr (0, b)) (\<lambda>(pathID, b).
       let header = header\<lparr>ph_PathID := pathID\<rparr>
       in if hasPacketNumber header packetSentBy then
            andThen (ReadUintN (GetByteOrder version) b (ph_PacketNumberLen header)) (\<lambda>(packetNumber, b).
              Inr (header\<lparr>ph_PacketNumber := packetNumber\<rparr>, b))
          else Inr (header, b))"

text \<open>The phases before: the flags, the connection ID, the nonce and the version.\<close>

definition parseFlags :: "u8 \<Rightarrow> Perspective \<Rightarrow> VersionNumber \<Rightarrow> PublicHeader result" where
  "parseFlags flags packetSentBy version =
     (let header = zero_PublicHeader\<lparr>ph_ResetFlag := flags AND 0x02 > 0, ph_VersionFlag := flags AND 0x01 > 0\<rparr>
      in if version = VersionUnknown \<and> \<not> (ph_VersionFlag header \<or> ph_ResetFlag header)
         then Inl ErrPacketWithUnknownVersion
         else
           let header = header\<lparr>ph_TruncateConnectionID := (flags AND 0x08 = 0)\<rparr>
           in if ph_TruncateConnectionID header \<and> packetSentBy = PerspectiveClient
              then Inl errReceivedTruncatedConnectionID
              else
                let header = (if hasPacketNumber header packetSentBy
                      then header\<lparr>ph_PacketNumberLen := parsePacketNumberLen flags\<rparr> else header)
                in Inr (header\<lparr>ph_MultipathFlag := flags AND 0x40 > 0\<rparr>))"

definition parseConnectionID :: "PublicHeader \<Rightarrow> bytes \<Rightarrow> (PublicHeader \<times> bytes) result" where
  "parseConnectionID header b =
     (if \<not> ph_TruncateConnectionID header then
        andThen (ReadUint64 LittleEndian b) (\<lambda>(connID, b).
          if connID = 0 then Inl errInvalidConnectionID
          else Inr (header\<lparr>ph_ConnectionID := connID\<rparr>, b))
      else Inr (header, b))"

definition parseNonce :: "u8 \<Rightarrow> Perspective \<Rightarrow> PublicHeader \<Rightarrow> bytes \<Rightarrow> (PublicHeader \<times> bytes) result" where
  "parseNonce flags packetSentBy header b =
     (if packetSentBy = PerspectiveServer \<and> flags AND 0x04 > 0
         \<and> \<not> ph_VersionFlag header \<and> \<not> ph_ResetFlag header
      then andThen (ReadFull b 32) (\<lambda>(nonce, b). Inr (header\<lparr>ph_DiversificationNonce := nonce\<rparr>, b))
      else Inr (header, b))"

definition parseVersionAndRest ::
  "PublicHeader \<Rightarrow> bytes \<Rightarrow> Perspective \<Rightarrow> VersionNumber \<Rightarrow> (PublicHeader \<times> bytes) result" where
  "parseVersionAndRest header b packetSentBy version =
     (if \<not> ph_ResetFlag header \<and> ph_VersionFlag header then
        (if packetSentBy = PerspectiveServer then
           (if length b mod 4 \<noteq> 0 then Inl (QuicError InvalidVersionNegotiationPacket)
            else Inr (header\<lparr>ph_SupportedVersions := parseVersions b\<rparr>, []))
         else
           andThen (ReadUint32 LittleEndian b) (\<lambda>(versionTag, b).
             let header = header\<lparr>ph_VersionNumber := VersionTagToNumber versionTag\<rparr>
             in parsePathAndNumber header b packetSentBy (ph_VersionNumber header)))
      else parsePathAndNumber header b packetSentBy version)"

definition ParsePublicHeader ::
  "bytes \<Rightarrow> Perspective \<Rightarrow> VersionNumber \<Rightarrow> (PublicHeader \<times> bytes) result" where
  "ParsePublicHeader b packetSentBy version =
     andThen (ReadByte b) (\<lambda>(flags, b).
     andThen (parseFlags flags packetSentBy version) (\<lambda>header.
     andThen (parseConnectionID header b) (\<lambda>(header, b).
     andThen (parseNonce flags packetSentBy header b) (\<lambda>(header, b).
       parseVersionAndRest header b packetSentBy version))))"

section \<open>The flags\<close>

lemma publicFlagByte_decode:
  assumes "hasPacketNumber h pers \<longrightarrow> validPacketNumberLen (ph_PacketNumberLen h)"
  defines "t \<equiv> publicFlagByte h pers"
  shows "(t AND 0x01 > 0) = ph_VersionFlag h" "(t AND 0x02 > 0) = ph_ResetFlag h"
    "(t AND 0x04 > 0) = (ph_DiversificationNonce h \<noteq> [])" "(t AND 0x08 = 0) = ph_TruncateConnectionID h"
    "(t AND 0x40 > 0) = ph_MultipathFlag h"
    "hasPacketNumber h pers \<Longrightarrow> parsePacketNumberLen t = ph_PacketNumberLen h"
proof -
  have bits: "(b AND 0x01 > 0) = V \<and> (b AND 0x02 > 0) = R \<and> (b AND 0x04 > 0) = N \<and> (b AND 0x08 = 0) = T
      \<and> (b AND 0x40 > 0) = M \<and> (has \<longrightarrow> parsePacketNumberLen b = L)"
    if "L \<in> (if has then {1, 2, 4, 6} else {L})"
      "b = (let flags = 0; flags = (if V then flags OR 0x01 else flags); flags = (if R then flags OR 0x02 else flags);
          flags = (if \<not> T then flags OR 0x08 else flags); flags = (if N then flags OR 0x04 else flags);
          flags = (if has then (if L = 1 then flags OR 0x00 else if L = 2 then flags OR 0x10
               else if L = 4 then flags OR 0x20 else if L = 6 then flags OR 0x30 else flags) else flags)
      in if M then flags OR 0x40 else flags)" for b L :: u8 and V R T N has M
    using that
    by (cases V; cases R; cases T; cases N; cases M; cases has; simp;
        elim disjE; simp add: parsePacketNumberLen_def)
  have "ph_PacketNumberLen h \<in> (if hasPacketNumber h pers then {1, 2, 4, 6} else {ph_PacketNumberLen h})"
    using assms(1) by (simp add: validPacketNumberLen_def)
  from bits [OF this, of t "ph_VersionFlag h" "ph_ResetFlag h" "ph_TruncateConnectionID h"
      "length (ph_DiversificationNonce h) > 0" "ph_MultipathFlag h"]
  show "(t AND 0x01 > 0) = ph_VersionFlag h" "(t AND 0x02 > 0) = ph_ResetFlag h"
    "(t AND 0x04 > 0) = (ph_DiversificationNonce h \<noteq> [])" "(t AND 0x08 = 0) = ph_TruncateConnectionID h"
    "(t AND 0x40 > 0) = ph_MultipathFlag h"
    "hasPacketNumber h pers \<Longrightarrow> parsePacketNumberLen t = ph_PacketNumberLen h"
    by (simp_all add: t_def publicFlagByte_def)
qed

section \<open>The packet number\<close>

lemma write_number_truncates:
  assumes "validPacketNumberLen len"
  shows "write_number True v len (take_bit (8 * unat len) x) = write_number True v len x"
proof -
  have "ucast (take_bit 8 x) = (ucast x :: u8)" "ucast (take_bit 16 x) = (ucast x :: u16)"
    "ucast (take_bit 32 x) = (ucast x :: u32)"
    by (rule bit_eqI; auto simp: bit_simps dest: bit_imp_le_length)+
  then show ?thesis using assms
    by (auto simp: validPacketNumberLen_def write_number_def take_bit_eq_mask mask_eq_exp_minus_1)
qed

lemma packet_number_written:
  assumes "validPacketNumberLen (ph_PacketNumberLen h)"
  shows "\<exists>bs. writePacketNumber h v = Inr bs \<and> length bs = unat (ph_PacketNumberLen h)
    \<and> (\<forall>r. ReadUintN (GetByteOrder v) (bs @ r) (ph_PacketNumberLen h)
        = Inr (take_bit (8 * unat (ph_PacketNumberLen h)) (ph_PacketNumber h), r))"
proof -
  let ?len = "ph_PacketNumberLen h" and ?x = "take_bit (8 * unat (ph_PacketNumberLen h)) (ph_PacketNumber h)"
  have "8 * unat ?len \<le> 48" using assms by (auto simp: validPacketNumberLen_def)
  then have "unat ?x < 2 ^ (8 * unat ?len)"
    by (simp add: unsigned_take_bit_eq)
  then obtain bs where "write_number True v ?len ?x = Inr bs" "length bs = unat ?len"
    "\<forall>r. ReadUintN (GetByteOrder v) (bs @ r) ?len = Inr (?x, r)"
    using number_written [OF assms] by blast
  moreover have "writePacketNumber h v = write_number True v ?len (ph_PacketNumber h)"
    using assms by (auto simp: writePacketNumber_def write_number_def validPacketNumberLen_def)
  ultimately show ?thesis using write_number_truncates [OF assms, of v] by simp
qed

section \<open>Headers of regular packets\<close>

text \<open>The headers that the packet packer writes: a server sends no version flag in a regular packet, only a
  server sends a diversification nonce, and only a server may truncate the connection ID.\<close>

definition PublicHeader_regular :: "PublicHeader \<Rightarrow> VersionNumber \<Rightarrow> Perspective \<Rightarrow> bool" where
  "PublicHeader_regular h version pers \<longleftrightarrow>
     \<not> (ph_VersionFlag h \<and> ph_ResetFlag h)
     \<and> (\<not> ph_ResetFlag h \<longrightarrow> validPacketNumberLen (ph_PacketNumberLen h))
     \<and> (ph_TruncateConnectionID h \<longrightarrow> pers = PerspectiveServer)
     \<and> (\<not> ph_TruncateConnectionID h \<longrightarrow> ph_ConnectionID h \<noteq> 0)
     \<and> (ph_VersionFlag h \<longrightarrow> pers = PerspectiveClient \<and> 0 \<le> ph_VersionNumber h \<and> ph_VersionNumber h < 1000
          \<and> GetByteOrder (ph_VersionNumber h) = GetByteOrder version)
     \<and> (ph_DiversificationNonce h \<noteq> [] \<longrightarrow> pers = PerspectiveServer \<and> \<not> ph_ResetFlag h
          \<and> length (ph_DiversificationNonce h) = 32)
     \<and> (version = VersionUnknown \<longrightarrow> ph_VersionFlag h \<or> ph_ResetFlag h)"

text \<open>What the peer reads: the fields that are on the wire, the packet number truncated to its length.\<close>

definition PublicHeader_canon :: "PublicHeader \<Rightarrow> PublicHeader" where
  "PublicHeader_canon h = h\<lparr>ph_Raw := [],
     ph_ConnectionID := (if ph_TruncateConnectionID h then 0 else ph_ConnectionID h),
     ph_PathID := (if ph_MultipathFlag h then ph_PathID h else 0),
     ph_PacketNumberLen := (if ph_ResetFlag h then 0 else ph_PacketNumberLen h),
     ph_PacketNumber := (if ph_ResetFlag h then 0
       else take_bit (8 * unat (ph_PacketNumberLen h)) (ph_PacketNumber h)),
     ph_VersionNumber := (if ph_VersionFlag h then ph_VersionNumber h else 0),
     ph_SupportedVersions := []\<rparr>"

lemma le_write_read:
  "ReadUint64 LittleEndian (WriteUint64 LittleEndian x @ r) = Inr (x, r)"
  "ReadUint32 LittleEndian (WriteUint32 LittleEndian y @ r) = Inr (y, r)"
  by (rule bo.read64_write64 bo.read32_write32)+

lemma regular_header_written:
  assumes "PublicHeader_regular h v pers"
  shows "\<exists>bs. PublicHeader_Write h v pers = Inr bs \<and> PublicHeader_GetLength h pers = Inr (of_nat (length bs))
    \<and> (\<forall>r. ParsePublicHeader (bs @ r) pers v = Inr (PublicHeader_canon h, r))"
proof -
  have has: "hasPacketNumber h pers \<longleftrightarrow> \<not> ph_ResetFlag h"
    using assms by (auto simp: PublicHeader_regular_def hasPacketNumber_def)
  have len: "hasPacketNumber h pers \<longrightarrow> validPacketNumberLen (ph_PacketNumberLen h)"
    using assms has by (simp add: PublicHeader_regular_def)
  have regular: "\<not> (ph_VersionFlag h \<and> ph_ResetFlag h)" "ph_VersionFlag h \<longrightarrow> pers = PerspectiveClient"
    "ph_DiversificationNonce h = [] \<or> length (ph_DiversificationNonce h) = 32"
    "\<not> ph_TruncateConnectionID h \<longrightarrow> ph_ConnectionID h \<noteq> 0"
    "ph_TruncateConnectionID h \<longrightarrow> pers = PerspectiveServer"
    "ph_DiversificationNonce h \<noteq> [] \<longrightarrow> pers = PerspectiveServer \<and> \<not> ph_ResetFlag h"
    "v = VersionUnknown \<longrightarrow> ph_VersionFlag h \<or> ph_ResetFlag h"
    using assms by (auto simp: PublicHeader_regular_def)
  define t where "t = publicFlagByte h pers"
  note decode = publicFlagByte_decode [OF len, folded t_def]
  obtain pn where pn: "\<not> ph_ResetFlag h \<Longrightarrow> writePacketNumber h v = Inr pn"
    "\<not> ph_ResetFlag h \<Longrightarrow> length pn = unat (ph_PacketNumberLen h)"
    "\<And>r. \<not> ph_ResetFlag h \<Longrightarrow> ReadUintN (GetByteOrder v) (pn @ r) (ph_PacketNumberLen h)
        = Inr (take_bit (8 * unat (ph_PacketNumberLen h)) (ph_PacketNumber h), r)"
    using packet_number_written [of h v] len has by (cases "ph_ResetFlag h") blast+
  let ?conn = "if \<not> ph_TruncateConnectionID h then WriteUint64 LittleEndian (ph_ConnectionID h) else []"
  let ?ver = "if ph_VersionFlag h \<and> pers = PerspectiveClient
    then WriteUint32 LittleEndian (VersionNumberToTag (ph_VersionNumber h)) else []"
  let ?path = "if ph_MultipathFlag h then [ph_PathID h] else []"
  let ?pn = "if ph_ResetFlag h then [] else pn"
  let ?bs = "t # ?conn @ ?ver @ ph_DiversificationNonce h @ ?path @ ?pn"
  have "PublicHeader_Write h v pers = Inr ?bs"
    unfolding PublicHeader_Write_def Let_def t_def [symmetric] has
    using regular pn(1) by (cases "ph_ResetFlag h") simp_all
  moreover have "PublicHeader_GetLength h pers = Inr (of_nat (length ?bs))"
  proof -
    have "(if hasPacketNumber h pers then
             (if ph_PacketNumberLen h \<noteq> PacketNumberLen1 \<and> ph_PacketNumberLen h \<noteq> PacketNumberLen2
                \<and> ph_PacketNumberLen h \<noteq> PacketNumberLen4 \<and> ph_PacketNumberLen h \<noteq> PacketNumberLen6
              then Inl errPacketNumberLenNotSet
              else Inr (1 + ucast (ph_PacketNumberLen h)))
           else Inr 1) = (Inr (1 + of_nat (length ?pn)) :: u64 result)"
      using pn(2) len has by (auto simp: validPacketNumberLen_def)
    then show ?thesis
      unfolding PublicHeader_GetLength_def Let_def
      using regular(1,2) by (cases "ph_VersionFlag h"; cases "ph_TruncateConnectionID h")
        (simp_all add: le.length_write64 le.length_write32)
  qed
  moreover have "ParsePublicHeader (?bs @ r) pers v = Inr (PublicHeader_canon h, r)" for r
  proof -
    define H where "H = zero_PublicHeader\<lparr>ph_ResetFlag := ph_ResetFlag h, ph_VersionFlag := ph_VersionFlag h,
      ph_TruncateConnectionID := ph_TruncateConnectionID h,
      ph_PacketNumberLen := (if ph_ResetFlag h then 0 else ph_PacketNumberLen h),
      ph_MultipathFlag := ph_MultipathFlag h\<rparr>"
    define H1 where "H1 = H\<lparr>ph_ConnectionID := (if ph_TruncateConnectionID h then 0 else ph_ConnectionID h)\<rparr>"
    define H2 where "H2 = H1\<lparr>ph_DiversificationNonce := ph_DiversificationNonce h\<rparr>"
    have "parseFlags t pers v = Inr H"
      using regular decode(6) has unfolding parseFlags_def Let_def decode(1-5) H_def
      by (auto simp: hasPacketNumber_def zero_PublicHeader_def)
    moreover have "parseConnectionID H (?conn @ b) = Inr (H1, b)" for b
      using regular by (simp add: parseConnectionID_def H1_def H_def zero_PublicHeader_def le.read64_write64 del: andThen_Inr_iff)
    moreover have "parseNonce t pers H1 (?ver @ ph_DiversificationNonce h @ b) = Inr (H2, ?ver @ b)" for b
      using regular unfolding parseNonce_def decode H2_def
      by (auto simp: H1_def H_def zero_PublicHeader_def simp del: andThen_Inr_iff)
    moreover have *: "parsePathAndNumber (H2\<lparr>ph_VersionNumber := n\<rparr>) (?path @ ?pn @ b) pers v
        = Inr ((PublicHeader_canon h)\<lparr>ph_VersionNumber := n\<rparr>, b)" for n b
      using has regular(2) pn(3) [of b]
      by (cases "ph_ResetFlag h"; cases "ph_MultipathFlag h"; cases pers)
        (simp_all add: parsePathAndNumber_def H2_def H1_def H_def zero_PublicHeader_def PublicHeader_canon_def hasPacketNumber_def del: andThen_Inr_iff)
    have "parseVersionAndRest H2 (?ver @ ?path @ ?pn @ r) pers v = Inr (PublicHeader_canon h, r)"
    proof (cases "ph_VersionFlag h")
      case True
      have "VersionTagToNumber (VersionNumberToTag (ph_VersionNumber h)) = ph_VersionNumber h"
        using assms True by (intro version_tag_read) (simp_all add: PublicHeader_regular_def)
      moreover have "parsePathAndNumber K b pers (ph_VersionNumber h) = parsePathAndNumber K b pers v" for K b
      proof -
        have "GetByteOrder (ph_VersionNumber h) = GetByteOrder v" using assms True by (simp add: PublicHeader_regular_def)
        then show ?thesis unfolding parsePathAndNumber_def by (simp only:)
      qed
      moreover have "(PublicHeader_canon h)\<lparr>ph_VersionNumber := ph_VersionNumber h\<rparr> = PublicHeader_canon h"
        using True by (simp add: PublicHeader_canon_def)
      ultimately show ?thesis
        using True regular(1,2) * [of "ph_VersionNumber h" r]
        by (simp add: parseVersionAndRest_def H2_def H1_def H_def zero_PublicHeader_def le.read32_write32 Let_def
            del: andThen_Inr_iff)
    next
      case False
      have "H2\<lparr>ph_VersionNumber := 0\<rparr> = H2" by (simp add: H2_def H1_def H_def zero_PublicHeader_def)
      moreover have "(PublicHeader_canon h)\<lparr>ph_VersionNumber := 0\<rparr> = PublicHeader_canon h" "\<not> ph_VersionFlag H2"
        using False by (simp_all add: PublicHeader_canon_def H2_def H1_def H_def)
      ultimately show ?thesis
        using False * [of 0 r] by (simp add: parseVersionAndRest_def del: andThen_Inr_iff)
    qed
    ultimately show ?thesis
      by (simp add: ParsePublicHeader_def del: andThen_Inr_iff)
  qed
  ultimately show ?thesis by blast
qed

section \<open>Version negotiation\<close>

lemma parseVersions_written:
  assumes "\<forall>v \<in> set vs. 0 \<le> v \<and> v < 1000"
  shows "parseVersions (concat (map (\<lambda>v. WriteUint32 LittleEndian (VersionNumberToTag v)) vs)) = vs"
  using assms
proof (induction vs)
  case Nil
  then show ?case by (subst parseVersions.simps) (simp add: le_ReadUint32_def)
next
  case (Cons v vs)
  then show ?case
    by (subst parseVersions.simps) (simp add: le.read32_write32 version_tag_read)
qed

lemma length_versions:
  "length (concat (map (\<lambda>v. WriteUint32 LittleEndian (VersionNumberToTag v)) vs)) = 4 * length vs"
  by (induction vs) (simp_all add: le.length_write32)

lemma negotiation_flags:
  "publicFlagByte (zero_PublicHeader\<lparr>ph_ConnectionID := c, ph_PacketNumber := 1, ph_VersionFlag := True\<rparr>)
    PerspectiveServer = 0x09"
  by (simp add: publicFlagByte_def zero_PublicHeader_def hasPacketNumber_def)

lemma ComposeVersionNegotiation_bytes:
  "ComposeVersionNegotiation c vs = 0x09 # WriteUint64 LittleEndian c
     @ concat (map (\<lambda>v. WriteUint32 LittleEndian (VersionNumberToTag v)) vs)"
  unfolding ComposeVersionNegotiation_def PublicHeader_Write_def negotiation_flags Let_def
  by (simp add: zero_PublicHeader_def hasPacketNumber_def)

lemma ParsePublicHeader_no_panic: "no_panic (ParsePublicHeader b pers v)"
proof -
  have path: "no_panic (parsePathAndNumber h b pers v)" for h b v
    unfolding parsePathAndNumber_def Let_def
    by (rule no_panic_intros no_panic_read no_panic_ReadByte)+
  have "no_panic (parseFlags t pers v)" for t
    unfolding parseFlags_def Let_def by (rule no_panic_intros goerror.distinct)+
  moreover have "no_panic (parseConnectionID h b)" for h b
    unfolding parseConnectionID_def by (rule no_panic_intros no_panic_read goerror.distinct)+
  moreover have "no_panic (parseNonce t pers h b)" for t h b
    unfolding parseNonce_def by (rule no_panic_intros no_panic_ReadFull)+
  moreover have "no_panic (parseVersionAndRest h b pers v)" for h b
    unfolding parseVersionAndRest_def Let_def by (rule path no_panic_intros no_panic_read goerror.distinct)+
  ultimately show ?thesis
    unfolding ParsePublicHeader_def by (auto simp: no_panic_rules)
qed

section \<open>Properties\<close>

text \<open>C17. The public header of a regular packet is written without an error and takes the length that the packer
  reserves for it, and the peer reads back every field that is on the wire, the packet number truncated to the
  length it was written with.\<close>

theorem public_header_roundtrip:
  assumes "PublicHeader_regular h v pers"
  shows "\<exists>bs. PublicHeader_Write h v pers = Inr bs \<and> PublicHeader_GetLength h pers = Inr (of_nat (length bs))
    \<and> ParsePublicHeader (bs @ r) pers v = Inr (PublicHeader_canon h, r)"
  using regular_header_written [OF assms] by blast

lemma public_header_roundtrip_witness:
  "let h = zero_PublicHeader\<lparr>ph_ConnectionID := 0x4CFA9F9B668619F6, ph_PathID := 3, ph_VersionFlag := True,
      ph_MultipathFlag := True, ph_PacketNumberLen := 2, ph_PacketNumber := 0x12345, ph_VersionNumber := 39\<rparr>
   in \<exists>bs. PublicHeader_Write h 39 PerspectiveClient = Inr bs
      \<and> ParsePublicHeader bs PerspectiveClient 39 = Inr (h\<lparr>ph_PacketNumber := 0x2345\<rparr>, [])"
  using public_header_roundtrip [of "zero_PublicHeader\<lparr>ph_ConnectionID := 0x4CFA9F9B668619F6, ph_PathID := 3,
      ph_VersionFlag := True, ph_MultipathFlag := True, ph_PacketNumberLen := 2, ph_PacketNumber := 0x12345,
      ph_VersionNumber := 39\<rparr>" 39 PerspectiveClient "[]"]
  by (auto simp: PublicHeader_regular_def PublicHeader_canon_def zero_PublicHeader_def validPacketNumberLen_def)

text \<open>C29. A client that parses a version negotiation packet gets exactly the versions that the server offered, in
  their order, for a connection that is not 0 and versions of at most three digits.\<close>

theorem version_negotiation_roundtrip:
  assumes "connectionID \<noteq> 0" "\<forall>v \<in> set versions. 0 \<le> v \<and> v < 1000"
  shows "ParsePublicHeader (ComposeVersionNegotiation connectionID versions) PerspectiveServer version
    = Inr (zero_PublicHeader\<lparr>ph_ConnectionID := connectionID, ph_VersionFlag := True,
        ph_SupportedVersions := versions\<rparr>, [])"
proof -
  let ?bs = "concat (map (\<lambda>v. WriteUint32 LittleEndian (VersionNumberToTag v)) versions)"
  let ?H = "zero_PublicHeader\<lparr>ph_VersionFlag := True\<rparr>"
  have "parseFlags 9 PerspectiveServer version = Inr ?H"
    by (simp add: parseFlags_def Let_def zero_PublicHeader_def hasPacketNumber_def)
  moreover have "parseConnectionID ?H (WriteUint64 LittleEndian connectionID @ ?bs) = Inr (?H\<lparr>ph_ConnectionID := connectionID\<rparr>, ?bs)"
    using assms(1) by (simp add: parseConnectionID_def zero_PublicHeader_def le.read64_write64 del: andThen_Inr_iff)
  moreover have "parseNonce 9 PerspectiveServer (?H\<lparr>ph_ConnectionID := connectionID\<rparr>) ?bs
      = Inr (?H\<lparr>ph_ConnectionID := connectionID\<rparr>, ?bs)"
    by (simp add: parseNonce_def)
  moreover have "parseVersionAndRest (?H\<lparr>ph_ConnectionID := connectionID\<rparr>) ?bs PerspectiveServer version
      = Inr (?H\<lparr>ph_ConnectionID := connectionID, ph_SupportedVersions := versions\<rparr>, [])"
    using parseVersions_written [OF assms(2)] length_versions [of versions]
    by (simp add: parseVersionAndRest_def zero_PublicHeader_def)
  ultimately show ?thesis
    unfolding ParsePublicHeader_def ComposeVersionNegotiation_bytes ReadByte.simps andThen.simps prod.case
    by (simp add: zero_PublicHeader_def del: andThen_Inr_iff)
qed

lemma version_negotiation_roundtrip_witness:
  "ParsePublicHeader (ComposeVersionNegotiation 1234 [512, 39]) PerspectiveServer 39
    = Inr (zero_PublicHeader\<lparr>ph_ConnectionID := 1234, ph_VersionFlag := True,
        ph_SupportedVersions := [512, 39]\<rparr>, [])"
  by (rule version_negotiation_roundtrip) simp_all

end
