(* ===== verification/Packet_Unpacker.thy ===== *)
theory Packet_Unpacker
  imports Public_Header
begin

text \<open>The packet unpacker (\<^verbatim>\<open>packet_unpacker.go\<close>): the dispatch on the type byte, the loop over the frames of
  a decrypted packet, and the error codes that a session closes the connection with. The AEAD is a parameter.\<close>

section \<open>Encryption levels\<close>

datatype EncryptionLevel =
  EncryptionUnspecified | EncryptionUnencrypted | EncryptionSecure | EncryptionForwardSecure

fun level_index :: "EncryptionLevel \<Rightarrow> nat" where
  "level_index EncryptionUnspecified = 0"
| "level_index EncryptionUnencrypted = 1"
| "level_index EncryptionSecure = 2"
| "level_index EncryptionForwardSecure = 3"

instantiation EncryptionLevel :: linorder
begin

definition less_eq_EncryptionLevel :: "EncryptionLevel \<Rightarrow> EncryptionLevel \<Rightarrow> bool" where
  "less_eq_EncryptionLevel a b \<longleftrightarrow> level_index a \<le> level_index b"

definition less_EncryptionLevel :: "EncryptionLevel \<Rightarrow> EncryptionLevel \<Rightarrow> bool" where
  "less_EncryptionLevel a b \<longleftrightarrow> level_index a < level_index b"

instance
proof
  fix a b :: EncryptionLevel
  show "a \<le> b \<Longrightarrow> b \<le> a \<Longrightarrow> a = b"
    by (cases a; cases b) (simp_all add: less_eq_EncryptionLevel_def)
qed (auto simp: less_eq_EncryptionLevel_def less_EncryptionLevel_def)

end

section \<open>The frames of a packet\<close>

text \<open>The implementations of the interface \<^verbatim>\<open>wire.Frame\<close>.\<close>

datatype Frame =
    F_Stream StreamFrame
  | F_Ack AckFrame
  | F_RstStream RstStreamFrame
  | F_ConnectionClose ConnectionCloseFrame
  | F_Goaway GoawayFrame
  | F_WindowUpdate WindowUpdateFrame
  | F_Blocked BlockedFrame
  | F_StopWaiting StopWaitingFrame
  | F_Ping PingFrame
  | F_AddAddress AddAddressFrame
  | F_ClosePath ClosePathFrame
  | F_Paths PathsFrame

record unpackedPacket =
  up_encryptionLevel :: EncryptionLevel
  up_frames :: "Frame list"

text \<open>\<^verbatim>\<open>qerr.Error(code, err.Error())\<close> replaces an error by one with a code; a panic is not caught.\<close>

fun wrapError :: "u32 \<Rightarrow> 'a result \<Rightarrow> 'a result" where
  "wrapError code (Inr x) = Inr x"
| "wrapError code (Inl e) = (if e = Panic then Inl Panic else Inl (QuicError code))"

definition tagged :: "('a \<Rightarrow> Frame) \<Rightarrow> ('a \<times> bytes) result \<Rightarrow> (Frame \<times> bytes) result" where
  "tagged c m = andThen m (\<lambda>(f, r). Inr (c f, r))"

definition parseFrame ::
  "VersionNumber \<Rightarrow> PacketNumber \<Rightarrow> PacketNumberLen \<Rightarrow> EncryptionLevel \<Rightarrow> u8 \<Rightarrow> bytes \<Rightarrow> (Frame \<times> bytes) result" where
  "parseFrame version pn pnLen encryptionLevel typeByte r =
     (if typeByte AND 0x80 = 0x80 then
        andThen (wrapError InvalidStreamData (ParseStreamFrame r version)) (\<lambda>(frame, r).
          if sf_StreamID frame \<noteq> 1 \<and> encryptionLevel \<le> EncryptionUnencrypted
          then Inl (QuicError UnencryptedStreamData)
          else Inr (F_Stream frame, r))
      else if typeByte AND 0xC0 = 0x40 then
        tagged F_Ack (wrapError InvalidAckData (ParseAckFrame r version))
      else if typeByte AND 0xE0 = 0x20 then Inl (OtherError ''unimplemented: CONGESTION_FEEDBACK'')
      else if typeByte = 0x01 then
        tagged F_RstStream (wrapError InvalidRstStreamData (ParseRstStreamFrame r version))
      else if typeByte = 0x02 then
        tagged F_ConnectionClose (wrapError InvalidConnectionCloseData (ParseConnectionCloseFrame r version))
      else if typeByte = 0x03 then
        tagged F_Goaway (wrapError InvalidGoawayData (ParseGoawayFrame r version))
      else if typeByte = 0x04 then
        tagged F_WindowUpdate (wrapError InvalidWindowUpdateData (ParseWindowUpdateFrame r version))
      else if typeByte = 0x05 then
        tagged F_Blocked (wrapError InvalidBlockedData (ParseBlockedFrame r version))
      else if typeByte = 0x06 then
        tagged F_StopWaiting (wrapError InvalidStopWaitingData (ParseStopWaitingFrame r pn pnLen version))
      else if typeByte = 0x07 then tagged F_Ping (ParsePingFrame r version)
      else if typeByte = 0x10 then tagged F_AddAddress (ParseAddAddressFrame r version)
      else if typeByte = 0x11 then tagged F_ClosePath (ParseClosePathFrame r version)
      else if typeByte = 0x12 then tagged F_Paths (ParsePathsFrame r version)
      else Inl (QuicError InvalidFrameData))"

lemma wrapError_Inr_iff [simp]: "wrapError code m = Inr x \<longleftrightarrow> m = Inr x"
  by (cases m) auto

lemma no_panic_wrapError [no_panic_rules]: "no_panic (wrapError code m) \<longleftrightarrow> no_panic m"
  by (cases m) (auto simp: no_panic_def)

lemma tagged_Inr_iff: "tagged c m = Inr (f, r) \<longleftrightarrow> (\<exists>x. m = Inr (x, r) \<and> f = c x)"
  by (auto simp: tagged_def)

lemma no_panic_tagged [no_panic_rules]: "no_panic (tagged c m) \<longleftrightarrow> no_panic m"
  by (auto simp: tagged_def no_panic_rules)

text \<open>Every frame takes input, so that the loop over the frames ends.\<close>

lemma parseFrame_consumes:
  assumes "parseFrame version pn pnLen level t b = Inr (f, r)" shows "length r < length b"
  using assms unfolding parseFrame_def
  by (auto simp: tagged_Inr_iff split: if_splits dest!: stream.consumes ack.consumes rst_stream.consumes
      connection_close.consumes goaway.consumes window_update.consumes blocked.consumes
      stop_waiting.consumes ping.consumes add_address.consumes close_path.consumes paths.consumes)

function unpackFrames ::
  "VersionNumber \<Rightarrow> PacketNumber \<Rightarrow> PacketNumberLen \<Rightarrow> EncryptionLevel \<Rightarrow> bytes \<Rightarrow> Frame list result" where
  "unpackFrames version pn pnLen level [] = Inr []"
| "unpackFrames version pn pnLen level (typeByte # r) =
     (if typeByte = 0x0 then unpackFrames version pn pnLen level r
      else
        andThen (parseFrame version pn pnLen level typeByte (typeByte # r)) (\<lambda>(frame, r).
        andThen (unpackFrames version pn pnLen level r) (\<lambda>fs. Inr (frame # fs))))"
  by pat_completeness auto
termination
  by (relation "measure (\<lambda>(version, pn, pnLen, level, r). length r)")
    (auto dest: parseFrame_consumes)

declare unpackFrames.simps(2) [simp del]

text \<open>\<open>aeadOpen\<close> takes the ciphertext, the packet number and the associated data.\<close>

definition Unpack ::
  "(bytes \<Rightarrow> PacketNumber \<Rightarrow> bytes \<Rightarrow> (bytes \<times> EncryptionLevel) result) \<Rightarrow> VersionNumber
   \<Rightarrow> bytes \<Rightarrow> PublicHeader \<Rightarrow> bytes \<Rightarrow> unpackedPacket result" where
  "Unpack aeadOpen version publicHeaderBinary hdr data =
     andThen (wrapError DecryptionFailure (aeadOpen data (ph_PacketNumber hdr) publicHeaderBinary))
       (\<lambda>(decrypted, encryptionLevel).
         if length decrypted = 0 then Inl (QuicError MissingPayload)
         else
           andThen (unpackFrames version (ph_PacketNumber hdr) (ph_PacketNumberLen hdr) encryptionLevel decrypted)
             (\<lambda>fs. Inr \<lparr>up_encryptionLevel = encryptionLevel, up_frames = fs\<rparr>))"

section \<open>The frame interface\<close>

text \<open>The methods of \<^verbatim>\<open>wire.Frame\<close>, by the dynamic type of the frame. \<open>Frame_Length\<close> is the space a frame takes
  in a packet: \<^verbatim>\<open>MinLength\<close>, and for a stream frame the data in addition.\<close>

fun Frame_Write :: "gotime \<Rightarrow> Frame \<Rightarrow> VersionNumber \<Rightarrow> bytes result" where
  "Frame_Write now (F_Stream f) v = StreamFrame_Write f v"
| "Frame_Write now (F_Ack f) v = AckFrame_bytes now f v"
| "Frame_Write now (F_RstStream f) v = RstStreamFrame_Write f v"
| "Frame_Write now (F_ConnectionClose f) v = ConnectionCloseFrame_Write f v"
| "Frame_Write now (F_Goaway f) v = GoawayFrame_Write f v"
| "Frame_Write now (F_WindowUpdate f) v = WindowUpdateFrame_Write f v"
| "Frame_Write now (F_Blocked f) v = BlockedFrame_Write f v"
| "Frame_Write now (F_StopWaiting f) v = StopWaitingFrame_Write f v"
| "Frame_Write now (F_Ping f) v = PingFrame_Write f v"
| "Frame_Write now (F_AddAddress f) v = AddAddressFrame_Write f v"
| "Frame_Write now (F_ClosePath f) v = ClosePathFrame_Write f v"
| "Frame_Write now (F_Paths f) v = PathsFrame_Write f v"

fun Frame_MinLength :: "Frame \<Rightarrow> VersionNumber \<Rightarrow> ByteCount result" where
  "Frame_MinLength (F_Stream f) v = StreamFrame_MinLength f v"
| "Frame_MinLength (F_Ack f) v = AckFrame_MinLength f v"
| "Frame_MinLength (F_RstStream f) v = RstStreamFrame_MinLength f v"
| "Frame_MinLength (F_ConnectionClose f) v = ConnectionCloseFrame_MinLength f v"
| "Frame_MinLength (F_Goaway f) v = GoawayFrame_MinLength f v"
| "Frame_MinLength (F_WindowUpdate f) v = WindowUpdateFrame_MinLength f v"
| "Frame_MinLength (F_Blocked f) v = BlockedFrame_MinLength f v"
| "Frame_MinLength (F_StopWaiting f) v = StopWaitingFrame_MinLength f v"
| "Frame_MinLength (F_Ping f) v = PingFrame_MinLength f v"
| "Frame_MinLength (F_AddAddress f) v = AddAddressFrame_MinLength f v"
| "Frame_MinLength (F_ClosePath f) v = ClosePathFrame_MinLength f v"
| "Frame_MinLength (F_Paths f) v = PathsFrame_MinLength f v"

definition Frame_Length :: "Frame \<Rightarrow> VersionNumber \<Rightarrow> ByteCount result" where
  "Frame_Length f v = (case f of F_Stream sf \<Rightarrow> StreamFrame_Length sf v | _ \<Rightarrow> Frame_MinLength f v)"

text \<open>The frames that may go into a packet with the given number and encryption level, and what the peer reads.\<close>

fun Frame_valid ::
  "PacketNumber \<Rightarrow> PacketNumberLen \<Rightarrow> EncryptionLevel \<Rightarrow> Frame \<Rightarrow> VersionNumber \<Rightarrow> bool" where
  "Frame_valid pn len level (F_Stream f) v =
     (StreamFrame_valid f v \<and> (sf_StreamID f = 1 \<or> level > EncryptionUnencrypted))"
| "Frame_valid pn len level (F_Ack f) v = AckFrame_valid f v"
| "Frame_valid pn len level (F_ConnectionClose f) v = ConnectionCloseFrame_valid f v"
| "Frame_valid pn len level (F_Goaway f) v = GoawayFrame_valid f v"
| "Frame_valid pn len level (F_StopWaiting f) v = StopWaitingFrame_valid pn len f v"
| "Frame_valid pn len level (F_AddAddress f) v = AddAddressFrame_valid f v"
| "Frame_valid pn len level (F_ClosePath f) v = ClosePathFrame_valid f v"
| "Frame_valid pn len level (F_Paths f) v = PathsFrame_valid f v"
| "Frame_valid pn len level f v = True"

fun Frame_canon :: "gotime \<Rightarrow> Frame \<Rightarrow> Frame" where
  "Frame_canon now (F_Ack f) = F_Ack (AckFrame_canon now f)"
| "Frame_canon now (F_StopWaiting f) = F_StopWaiting (StopWaitingFrame_canon f)"
| "Frame_canon now (F_AddAddress f) = F_AddAddress (AddAddressFrame_canon f)"
| "Frame_canon now (F_ClosePath f) = F_ClosePath (ClosePathFrame_canon f)"
| "Frame_canon now (F_Paths f) = F_Paths (PathsFrame_canon f)"
| "Frame_canon now f = f"

definition parseNext ::
  "PacketNumber \<Rightarrow> PacketNumberLen \<Rightarrow> EncryptionLevel \<Rightarrow> bytes \<Rightarrow> VersionNumber \<Rightarrow> (Frame \<times> bytes) result" where
  "parseNext pn len level b v = (case b of [] \<Rightarrow> Inl EOF | t # _ \<Rightarrow> parseFrame v pn len level t b)"

lemma type_byte_disjoint:
  "t AND 0xC0 = 0x40 \<Longrightarrow> t AND 0x80 \<noteq> (0x80 :: u8)"
proof
  assume "t AND 0xC0 = 0x40" "t AND 0x80 = (0x80 :: u8)"
  moreover have "t AND 0x80 = (t AND 0xC0) AND 0x80" by (simp add: and.assoc)
  ultimately show False by simp
qed

lemma parseFrame_dispatch:
  "parseFrame v pn len level 0x01 r = tagged F_RstStream (wrapError InvalidRstStreamData (ParseRstStreamFrame r v))"
  "parseFrame v pn len level 0x02 r = tagged F_ConnectionClose (wrapError InvalidConnectionCloseData (ParseConnectionCloseFrame r v))"
  "parseFrame v pn len level 0x03 r = tagged F_Goaway (wrapError InvalidGoawayData (ParseGoawayFrame r v))"
  "parseFrame v pn len level 0x04 r = tagged F_WindowUpdate (wrapError InvalidWindowUpdateData (ParseWindowUpdateFrame r v))"
  "parseFrame v pn len level 0x05 r = tagged F_Blocked (wrapError InvalidBlockedData (ParseBlockedFrame r v))"
  "parseFrame v pn len level 0x06 r = tagged F_StopWaiting (wrapError InvalidStopWaitingData (ParseStopWaitingFrame r pn len v))"
  "parseFrame v pn len level 0x07 r = tagged F_Ping (ParsePingFrame r v)"
  "parseFrame v pn len level 0x10 r = tagged F_AddAddress (ParseAddAddressFrame r v)"
  "parseFrame v pn len level 0x11 r = tagged F_ClosePath (ParseClosePathFrame r v)"
  "parseFrame v pn len level 0x12 r = tagged F_Paths (ParsePathsFrame r v)"
  "t AND 0xC0 = 0x40 \<Longrightarrow> parseFrame v pn len level t r = tagged F_Ack (wrapError InvalidAckData (ParseAckFrame r v))"
  by (simp_all add: parseFrame_def type_byte_disjoint)

lemma parseFrame_stream:
  assumes "t AND 0x80 = 0x80" "ParseStreamFrame b v = Inr (f, r)" "sf_StreamID f = 1 \<or> level > EncryptionUnencrypted"
  shows "parseFrame v pn len level t b = Inr (F_Stream f, r)"
  using assms by (auto simp: parseFrame_def)

context frame_codec
begin

lemma codec:
  assumes "valid f v"
  shows "\<exists>t bs. encode f v = Inr (t # bs) \<and> typeByte t \<and> minLength f v = Inr (of_nat (length (t # bs)))
    \<and> (\<forall>r. parse (t # bs @ r) v = Inr (canon f, r))"
proof -
  obtain t bs where w: "encode f v = Inr (t # bs)" "typeByte t" using written [OF assms] by blast
  with min_length [OF assms w(1)] read_back [OF assms w(1)] show ?thesis by auto
qed

end

text \<open>The dispatch preserves the laws of the codecs it dispatches to.\<close>

lemma Frame_written:
  assumes "Frame_valid pn len level f v"
  shows "\<exists>t bs. Frame_Write now f v = Inr (t # bs) \<and> t \<noteq> 0
    \<and> Frame_Length f v = Inr (of_nat (length (t # bs)))
    \<and> (\<forall>r. parseFrame v pn len level t (t # bs @ r) = Inr (Frame_canon now f, r))"
proof (cases f)
  case (F_Stream x)
  with assms have v: "StreamFrame_valid x v" "sf_StreamID x = 1 \<or> level > EncryptionUnencrypted" by auto
  then show ?thesis using stream.codec [OF v(1)] F_Stream
    by (fastforce simp: Frame_Length_def intro: parseFrame_stream)
next
  case (F_Ack x)
  then show ?thesis using assms ack.codec [of x v now]
    by (auto simp: Frame_Length_def parseFrame_dispatch tagged_def)
next
  case (F_ConnectionClose x)
  then show ?thesis using assms connection_close.codec [of x v]
    by (auto simp: Frame_Length_def parseFrame_dispatch tagged_def)
next
  case (F_Goaway x)
  then show ?thesis using assms goaway.codec [of x v]
    by (auto simp: Frame_Length_def parseFrame_dispatch tagged_def)
next
  case (F_WindowUpdate x)
  then show ?thesis using assms window_update.codec [of x v]
    by (auto simp: Frame_Length_def parseFrame_dispatch tagged_def)
next
  case (F_Blocked x)
  then show ?thesis using assms blocked.codec [of x v]
    by (auto simp: Frame_Length_def parseFrame_dispatch tagged_def)
next
  case (F_RstStream x)
  then show ?thesis using assms rst_stream.codec [of x v]
    by (auto simp: Frame_Length_def parseFrame_dispatch tagged_def)
next
  case (F_StopWaiting x)
  then show ?thesis using assms stop_waiting.codec [of pn len x v]
    by (auto simp: Frame_Length_def parseFrame_dispatch tagged_def)
next
  case (F_Ping x)
  then show ?thesis using assms ping.codec [of x v]
    by (auto simp: Frame_Length_def parseFrame_dispatch tagged_def)
next
  case (F_AddAddress x)
  then show ?thesis using assms add_address.codec [of x v]
    by (auto simp: Frame_Length_def parseFrame_dispatch tagged_def)
next
  case (F_ClosePath x)
  then show ?thesis using assms close_path.codec [of x v]
    by (auto simp: Frame_Length_def parseFrame_dispatch tagged_def)
next
  case (F_Paths x)
  then show ?thesis using assms paths.codec [of x v]
    by (auto simp: Frame_Length_def parseFrame_dispatch tagged_def)
qed

interpretation frame: frame_codec "Frame_Write now" Frame_Length "parseNext pn len level"
  "Frame_valid pn len level" "Frame_canon now" "\<lambda>t. t \<noteq> 0" for now pn len level
proof unfold_locales
  fix f v bs r assume "Frame_valid pn len level f v"
  then obtain t bs' where w: "Frame_Write now f v = Inr (t # bs')" "t \<noteq> 0"
    "Frame_Length f v = Inr (of_nat (length (t # bs')))"
    "\<forall>r. parseFrame v pn len level t (t # bs' @ r) = Inr (Frame_canon now f, r)"
    using Frame_written by blast
  then show "\<exists>t bs. Frame_Write now f v = Inr (t # bs) \<and> t \<noteq> 0" by blast
  assume "Frame_Write now f v = Inr bs"
  with w show "parseNext pn len level (bs @ r) v = Inr (Frame_canon now f, r)" "Frame_Length f v = Inr (of_nat (length bs))"
    by (auto simp: parseNext_def)
next
  fix bs v f r assume "parseNext pn len level bs v = Inr (f, r)"
  then show "length r < length bs"
    using parseFrame_consumes by (auto simp: parseNext_def split: list.splits dest: parseFrame_consumes)
qed

section \<open>Absence of panics\<close>

lemma no_panic_control_frames:
  "no_panic (ParseWindowUpdateFrame b v)" "no_panic (ParseBlockedFrame b v)" "no_panic (ParsePingFrame b v)"
  "no_panic (ParseRstStreamFrame b v)" "no_panic (ParseGoawayFrame b v)" "no_panic (ParseConnectionCloseFrame b v)"
  "no_panic (ParseStopWaitingFrame b pn len v)"
  by (auto simp: ParseWindowUpdateFrame_def ParseBlockedFrame_def ParsePingFrame_def ParseRstStreamFrame_def
      ParseGoawayFrame_def ParseConnectionCloseFrame_def ParseStopWaitingFrame_def no_panic_rules Let_def)

lemma no_panic_ParsePathsFrame: "no_panic (ParsePathsFrame b v)"
proof -
  have "no_panic (ParsePathsFrame_loop n v b)" for n b
    by (induction n arbitrary: b) (auto simp: no_panic_rules)
  then show ?thesis by (auto simp: ParsePathsFrame_def no_panic_rules Let_def)
qed

lemma no_panic_ParseAddAddressFrame: "no_panic (ParseAddAddressFrame b v)"
proof -
  have "no_panic (ReadBytes_loop n b)" for n b
    by (induction n arbitrary: b) (auto simp: no_panic_rules)
  then show ?thesis by (auto simp: ParseAddAddressFrame_def no_panic_rules Let_def)
qed

lemma no_panic_ParseStreamFrame: "no_panic (ParseStreamFrame b v)"
proof -
  have "no_panic (ParseStreamFrame_data v fin present sid offset b)" for fin present sid offset b
    by (auto simp: ParseStreamFrame_data_def no_panic_rules Let_def)
  then show ?thesis by (auto simp: ParseStreamFrame_def no_panic_rules Let_def)
qed

lemma parseFrame_no_panic: "no_panic (parseFrame v pn len level t b)"
  unfolding parseFrame_def
  by (auto simp: no_panic_rules no_panic_control_frames no_panic_ParsePathsFrame no_panic_ParseAddAddressFrame
      no_panic_ParseStreamFrame ParseAckFrame_no_panic ParseClosePathFrame_no_panic)

lemma unpackFrames_no_panic: "no_panic (unpackFrames v pn len level b)"
  by (induction v pn len level b rule: unpackFrames.induct)
    (auto simp: no_panic_rules parseFrame_no_panic unpackFrames.simps(2))

section \<open>Sequences of frames\<close>

text \<open>The loop of the packer that writes the frames of a packet one after the other.\<close>

fun Frames_Write :: "gotime \<Rightarrow> VersionNumber \<Rightarrow> Frame list \<Rightarrow> bytes result" where
  "Frames_Write now v [] = Inr []"
| "Frames_Write now v (f # fs) =
     andThen (Frame_Write now f v) (\<lambda>bs. andThen (Frames_Write now v fs) (\<lambda>rest. Inr (bs @ rest)))"

text \<open>Only the last frame of a packet may be a stream frame without a length.\<close>

fun frames_valid :: "PacketNumber \<Rightarrow> PacketNumberLen \<Rightarrow> EncryptionLevel \<Rightarrow> VersionNumber \<Rightarrow> Frame list \<Rightarrow> bool" where
  "frames_valid pn len level v [] = True"
| "frames_valid pn len level v [f] =
     (case f of F_Stream sf \<Rightarrow> StreamFrame_sendable sf \<and> (sf_StreamID sf = 1 \<or> level > EncryptionUnencrypted)
      | _ \<Rightarrow> Frame_valid pn len level f v)"
| "frames_valid pn len level v (f # g # fs) = (Frame_valid pn len level f v \<and> frames_valid pn len level v (g # fs))"

lemma unpackFrames_step:
  assumes "t \<noteq> 0" "parseFrame v pn len level t (t # bs) = Inr (f, r)"
  shows "unpackFrames v pn len level (t # bs) = andThen (unpackFrames v pn len level r) (\<lambda>fs. Inr (f # fs))"
  using assms by (simp add: unpackFrames.simps(2))

lemma unpackFrames_padding: "unpackFrames v pn len level (replicate n 0 @ r) = unpackFrames v pn len level r"
  by (induction n) (simp_all add: unpackFrames.simps(2))

lemma last_frame_written:
  assumes "frames_valid pn len level v [f]"
  shows "\<exists>t bs. Frame_Write now f v = Inr (t # bs) \<and> t \<noteq> 0
    \<and> parseFrame v pn len level t (t # bs) = Inr (Frame_canon now f, [])"
proof (cases "\<exists>sf. f = F_Stream sf")
  case True
  then obtain sf where F_Stream: "f = F_Stream sf" by blast
  with assms have sf: "StreamFrame_sendable sf" "sf_StreamID sf = 1 \<or> level > EncryptionUnencrypted" by auto
  obtain bs where w: "StreamFrame_Write sf v = Inr (streamFrame_typeByte sf # bs)"
    using StreamFrame_written [OF sf(1), of v] by metis
  have "streamFrame_typeByte sf AND 0x80 = 0x80" by (rule type_byte_decode)
  moreover have "ParseStreamFrame ((streamFrame_typeByte sf # bs) @ []) v = Inr (sf, [])"
    by (rule ParseStreamFrame_written [OF sf(1) w]) simp
  ultimately show ?thesis using w F_Stream sf(2) by (auto intro: parseFrame_stream)
next
  case False
  then have "Frame_valid pn len level f v" using assms by (cases f) auto
  from Frame_written [OF this, of now] show ?thesis by (metis append_Nil2)
qed

lemma unpackFrames_written:
  assumes "frames_valid pn len level v fs"
  shows "\<exists>bs. Frames_Write now v fs = Inr bs \<and> (fs \<noteq> [] \<longrightarrow> bs \<noteq> [])
    \<and> unpackFrames v pn len level bs = Inr (map (Frame_canon now) fs)"
  using assms
proof (induction pn len level v fs rule: frames_valid.induct)
  case (2 pn len level v f)
  then obtain t bs where "Frame_Write now f v = Inr (t # bs)" "t \<noteq> 0"
    "parseFrame v pn len level t (t # bs) = Inr (Frame_canon now f, [])"
    using last_frame_written by blast
  then show ?case by (simp add: unpackFrames_step del: andThen_Inr_iff)
next
  case (3 pn len level v f g fs)
  then obtain rest where rest: "Frames_Write now v (g # fs) = Inr rest"
    "unpackFrames v pn len level rest = Inr (map (Frame_canon now) (g # fs))" by auto
  obtain t bs where "Frame_Write now f v = Inr (t # bs)" "t \<noteq> 0"
    "\<forall>r. parseFrame v pn len level t (t # bs @ r) = Inr (Frame_canon now f, r)"
    using 3 Frame_written [of pn len level f v now] by auto
  then have "Frames_Write now v (f # g # fs) = Inr (t # bs @ rest)"
    "unpackFrames v pn len level (t # bs @ rest) = Inr (map (Frame_canon now) (f # g # fs))"
    unfolding Frames_Write.simps(2) [of now v f] rest(1) using rest(2)
    by (simp_all add: unpackFrames_step del: andThen_Inr_iff)
  then show ?case by blast
qed simp

lemma parseFrame_stream_encrypted:
  assumes "parseFrame v pn len level t b = Inr (F_Stream sf, r)"
  shows "sf_StreamID sf = 1 \<or> level > EncryptionUnencrypted"
  using assms unfolding parseFrame_def by (auto simp: tagged_Inr_iff not_le split: if_splits)

lemma unpackFrames_stream_encrypted:
  "unpackFrames v pn len level b = Inr fs \<Longrightarrow> F_Stream sf \<in> set fs
    \<Longrightarrow> sf_StreamID sf = 1 \<or> level > EncryptionUnencrypted"
proof (induction v pn len level b arbitrary: fs rule: unpackFrames.induct)
  case (2 v pn len level t b)
  show ?case
  proof (cases "t = 0")
    case True
    with 2 show ?thesis by (simp add: unpackFrames.simps(2))
  next
    case False
    then obtain f r gs where p: "parseFrame v pn len level t (t # b) = Inr (f, r)"
      "unpackFrames v pn len level r = Inr gs" "fs = f # gs"
      using "2.prems"(1) by (auto simp: unpackFrames.simps(2))
    show ?thesis
    proof (cases "f = F_Stream sf")
      case True
      with p(1) show ?thesis using parseFrame_stream_encrypted by blast
    next
      case False
      with "2.prems"(2) p(3) have "F_Stream sf \<in> set gs" by simp
      with "2.IH"(2) [OF \<open>t \<noteq> 0\<close> p(1) _ p(2)] show ?thesis by simp
    qed
  qed
qed simp

section \<open>Properties\<close>

text \<open>C6. When the AEAD opens a packet to the frames that the packer wrote, one after the other, the unpacker
  returns exactly these frames in their order, up to the fields that are not transmitted. Only the last frame may be
  a stream frame without a length.\<close>

theorem unpack_packed_frames:
  assumes "frames_valid (ph_PacketNumber hdr) (ph_PacketNumberLen hdr) level v fs" "fs \<noteq> []"
    and "Frames_Write now v fs = Inr payload"
    and "aeadOpen data (ph_PacketNumber hdr) binary = Inr (payload, level)"
  shows "Unpack aeadOpen v binary hdr data
    = Inr \<lparr>up_encryptionLevel = level, up_frames = map (Frame_canon now) fs\<rparr>"
proof -
  obtain bs where "Frames_Write now v fs = Inr bs" "bs \<noteq> []"
    "unpackFrames v (ph_PacketNumber hdr) (ph_PacketNumberLen hdr) level bs = Inr (map (Frame_canon now) fs)"
    using unpackFrames_written [OF assms(1), of now] assms(2) by blast
  with assms(3,4) show ?thesis by (simp add: Unpack_def del: andThen_Inr_iff)
qed

lemma unpack_packed_frames_witness:
  "let fs = [F_Ping PingFrame, F_Blocked \<lparr>bl_StreamID = 7\<rparr>,
      F_Stream \<lparr>sf_StreamID = 5, sf_FinBit = True, sf_DataLenPresent = False, sf_Offset = 0, sf_Data = [1, 2]\<rparr>]
   in \<exists>payload. Frames_Write 0 39 fs = Inr payload
     \<and> Unpack (\<lambda>d n a. Inr (d, EncryptionForwardSecure)) 39 [] zero_PublicHeader payload
       = Inr \<lparr>up_encryptionLevel = EncryptionForwardSecure, up_frames = fs\<rparr>"
proof -
  let ?fs = "[F_Ping PingFrame, F_Blocked \<lparr>bl_StreamID = 7\<rparr>,
      F_Stream \<lparr>sf_StreamID = 5, sf_FinBit = True, sf_DataLenPresent = False, sf_Offset = 0, sf_Data = [1, 2]\<rparr>]"
  let ?open = "\<lambda>d n a. Inr (d, EncryptionForwardSecure)"
  have valid: "frames_valid (ph_PacketNumber zero_PublicHeader) (ph_PacketNumberLen zero_PublicHeader) EncryptionForwardSecure 39 ?fs"
    by (simp add: StreamFrame_sendable_def less_EncryptionLevel_def)
  then obtain payload where w: "Frames_Write 0 39 ?fs = Inr payload" using unpackFrames_written by blast
  have "Unpack ?open 39 [] zero_PublicHeader payload
      = Inr \<lparr>up_encryptionLevel = EncryptionForwardSecure, up_frames = map (Frame_canon 0) ?fs\<rparr>"
    by (rule unpack_packed_frames [OF valid _ w]) simp_all
  then have "Unpack ?open 39 [] zero_PublicHeader payload
      = Inr \<lparr>up_encryptionLevel = EncryptionForwardSecure, up_frames = ?fs\<rparr>" by simp
  with w show ?thesis unfolding Let_def by blast
qed

text \<open>C12. No packet makes the unpacker panic: whatever bytes the AEAD returns, parsing the public header and all
  frames ends with a result or an error.\<close>

theorem unpack_never_panics:
  assumes "aeadOpen data (ph_PacketNumber hdr) binary \<noteq> Inl Panic"
  shows "ParsePublicHeader packet pers v \<noteq> Inl Panic \<and> Unpack aeadOpen v binary hdr data \<noteq> Inl Panic"
proof -
  have "no_panic (Unpack aeadOpen v binary hdr data)"
    using assms unfolding Unpack_def
    by (auto simp: no_panic_rules unpackFrames_no_panic) (simp add: no_panic_def)
  then show ?thesis using ParsePublicHeader_no_panic [of packet pers v] by (simp add: no_panic_def)
qed

lemma unpack_never_panics_witness:
  "Unpack (\<lambda>d n a. Inr (d, EncryptionUnencrypted)) 39 [] zero_PublicHeader [0x60, 0xFF, 0xFF] \<noteq> Inl Panic"
  using unpack_never_panics [of "\<lambda>d n a. Inr (d, EncryptionUnencrypted)" "[0x60, 0xFF, 0xFF]" zero_PublicHeader "[]"]
  by simp

text \<open>C22. A packet that is not encrypted delivers data only on the crypto stream: every stream frame that the unpacker
  returns at such a level belongs to stream 1.\<close>

theorem unpack_rejects_unencrypted_data:
  assumes "Unpack aeadOpen v binary hdr data = Inr p" "F_Stream f \<in> set (up_frames p)"
    and "up_encryptionLevel p \<le> EncryptionUnencrypted"
  shows "sf_StreamID f = 1"
proof -
  obtain decrypted level fs where
    u: "unpackFrames v (ph_PacketNumber hdr) (ph_PacketNumberLen hdr) level decrypted = Inr fs"
    and "p = \<lparr>up_encryptionLevel = level, up_frames = fs\<rparr>"
    using assms(1) unfolding Unpack_def by (auto split: if_splits)
  with assms(2,3) unpackFrames_stream_encrypted [OF u, of f] show ?thesis by auto
qed

lemma unpack_rejects_unencrypted_data_witness:
  "\<exists>p f. Unpack (\<lambda>d n a. Inr (d, EncryptionUnencrypted)) 39 [] zero_PublicHeader [0x80, 1, 42] = Inr p
    \<and> F_Stream f \<in> set (up_frames p) \<and> sf_StreamID f = 1"
proof -
  let ?open = "\<lambda>d n a. Inr (d, EncryptionUnencrypted)"
  let ?f = "\<lparr>sf_StreamID = 1, sf_FinBit = False, sf_DataLenPresent = False, sf_Offset = 0, sf_Data = [42]\<rparr>"
  let ?p = "\<lparr>up_encryptionLevel = EncryptionUnencrypted, up_frames = [F_Stream ?f]\<rparr>"
  have p: "Unpack ?open 39 [] zero_PublicHeader [0x80, 1, 42] = Inr ?p"
    by (simp add: Unpack_def unpackFrames.simps(2) parseFrame_def ParseStreamFrame_def ParseStreamFrame_data_def
        GetByteOrder_def Version39_def ReadFull_def sf_DataLen_def be.readN_1 be.readN_0 del: andThen_Inr_iff)
  have "sf_StreamID ?f = 1"
    by (rule unpack_rejects_unencrypted_data [OF p]) simp_all
  with p show ?thesis by fastforce
qed

end
