(* ===== verification/Received_Packets.thy ===== *)
theory Received_Packets
  imports Packet_Unpacker
begin

text \<open>The receiving side of the ACK handling (\<^verbatim>\<open>ackhandler/\<close>): the history of received packet numbers as a list
  of intervals, the handler that decides when an ACK is sent and builds the ACK and close path frames, the STOP_WAITING
  manager of the sender, and the classification of frames.\<close>

section \<open>Retransmittable frames\<close>

fun IsFrameRetransmittable :: "Frame \<Rightarrow> bool" where
  "IsFrameRetransmittable (F_StopWaiting _) = False"
| "IsFrameRetransmittable (F_Ack _) = False"
| "IsFrameRetransmittable _ = True"

fun stripNonRetransmittableFrames :: "Frame list \<Rightarrow> Frame list" where
  "stripNonRetransmittableFrames [] = []"
| "stripNonRetransmittableFrames (f # fs) =
     (if IsFrameRetransmittable f then f # stripNonRetransmittableFrames fs else stripNonRetransmittableFrames fs)"

fun HasRetransmittableFrames :: "Frame list \<Rightarrow> bool" where
  "HasRetransmittableFrames [] = False"
| "HasRetransmittableFrames (f # fs) = (if IsFrameRetransmittable f then True else HasRetransmittableFrames fs)"

section \<open>The history of received packets\<close>

record PacketInterval =
  Start :: PacketNumber
  End :: PacketNumber

text \<open>\<open>rh_ranges\<close> is the linked list from its front to its back.\<close>

record receivedPacketHistory =
  rh_ranges :: "PacketInterval list"
  rh_lowestInReceivedPacketNumbers :: PacketNumber

definition newReceivedPacketHistory :: receivedPacketHistory where
  "newReceivedPacketHistory = \<lparr>rh_ranges = [], rh_lowestInReceivedPacketNumbers = 0\<rparr>"

definition MaxTrackedReceivedAckRanges :: nat where "MaxTrackedReceivedAckRanges = 2500"

text \<open>The loop from the back to the front. The argument holds the current element, its predecessors towards the
  front follow; the result is the list in the same order.\<close>

fun receivedPacket_loop :: "PacketNumber \<Rightarrow> PacketInterval list \<Rightarrow> PacketInterval list" where
  "receivedPacket_loop p [] = [\<lparr>Start = p, End = p\<rparr>]"
| "receivedPacket_loop p (el # prevs) =
     (if p \<ge> Start el \<and> p \<le> End el then el # prevs
      else
        let (rangeExtended, el) =
          (if End el = p - 1 then (True, el\<lparr>End := p\<rparr>)
           else if Start el = p + 1 then (True, el\<lparr>Start := p\<rparr>)
           else (False, el))
        in if rangeExtended then
             (case prevs of
                prev # rest \<Rightarrow>
                  if End prev + 1 = Start el then prev\<lparr>End := End el\<rparr> # rest else el # prev # rest
              | [] \<Rightarrow> [el])
           else if p > End el then \<lparr>Start = p, End = p\<rparr> # el # prevs
           else el # receivedPacket_loop p prevs)"

definition history_ReceivedPacket :: "receivedPacketHistory \<Rightarrow> PacketNumber \<Rightarrow> receivedPacketHistory result" where
  "history_ReceivedPacket h p =
     (if length (rh_ranges h) \<ge> MaxTrackedReceivedAckRanges then Inl errTooManyOutstandingReceivedAckRanges
      else if length (rh_ranges h) = 0 then Inr (h\<lparr>rh_ranges := rh_ranges h @ [\<lparr>Start = p, End = p\<rparr>]\<rparr>)
      else Inr (h\<lparr>rh_ranges := rev (receivedPacket_loop p (rev (rh_ranges h)))\<rparr>))"

fun deleteUpTo_loop :: "PacketNumber \<Rightarrow> PacketInterval list \<Rightarrow> PacketInterval list" where
  "deleteUpTo_loop p [] = []"
| "deleteUpTo_loop p (el # nexts) =
     (if p \<ge> Start el \<and> p < End el then el\<lparr>Start := p + 1\<rparr> # deleteUpTo_loop p nexts
      else if End el \<le> p then deleteUpTo_loop p nexts
      else el # nexts)"

definition history_DeleteUpTo :: "receivedPacketHistory \<Rightarrow> PacketNumber \<Rightarrow> receivedPacketHistory" where
  "history_DeleteUpTo h p =
     h\<lparr>rh_lowestInReceivedPacketNumbers := MaxPacketNumber (rh_lowestInReceivedPacketNumbers h) (p + 1),
       rh_ranges := deleteUpTo_loop p (rh_ranges h)\<rparr>"

definition ackRange_of :: "PacketInterval \<Rightarrow> AckRange" where
  "ackRange_of r = \<lparr>First = Start r, Last = End r\<rparr>"

definition history_GetAckRanges :: "receivedPacketHistory \<Rightarrow> AckRange list" where
  "history_GetAckRanges h = (if length (rh_ranges h) = 0 then [] else map ackRange_of (rev (rh_ranges h)))"

definition history_GetHighestAckRange :: "receivedPacketHistory \<Rightarrow> AckRange" where
  "history_GetHighestAckRange h =
     (if length (rh_ranges h) > 0 then ackRange_of (last (rh_ranges h)) else \<lparr>First = 0, Last = 0\<rparr>)"

section \<open>The handler of received packets\<close>

abbreviation (input) AckSendDelay :: duration where "AckSendDelay \<equiv> 25 * Millisecond"

definition MaxPacketsReceivedBeforeAckSend :: int where "MaxPacketsReceivedBeforeAckSend = 20"
definition RetransmittablePacketsBeforeAck :: int where "RetransmittablePacketsBeforeAck = 2"

record receivedPacketHandler =
  rp_largestObserved :: PacketNumber
  rp_lowerLimit :: PacketNumber
  rp_largestObservedReceivedTime :: gotime
  rp_packetHistory :: receivedPacketHistory
  rp_ackSendDelay :: duration
  rp_packetsReceivedSinceLastAck :: int
  rp_retransmittablePacketsReceivedSinceLastAck :: int
  rp_ackQueued :: bool
  rp_ackAlarm :: gotime
  rp_lastAck :: "AckFrame option"
  rp_version :: VersionNumber
  rp_packets :: u64
  rp_recvStreamFrameBytes :: u64

definition NewReceivedPacketHandler :: "VersionNumber \<Rightarrow> receivedPacketHandler" where
  "NewReceivedPacketHandler version =
     \<lparr>rp_largestObserved = 0, rp_lowerLimit = 0, rp_largestObservedReceivedTime = zero_time,
      rp_packetHistory = newReceivedPacketHistory, rp_ackSendDelay = AckSendDelay,
      rp_packetsReceivedSinceLastAck = 0, rp_retransmittablePacketsReceivedSinceLastAck = 0,
      rp_ackQueued = False, rp_ackAlarm = zero_time, rp_lastAck = None, rp_version = version,
      rp_packets = 0, rp_recvStreamFrameBytes = 0\<rparr>"

definition rp_GetStatistics :: "receivedPacketHandler \<Rightarrow> u64 \<times> u64" where
  "rp_GetStatistics h = (rp_packets h, rp_recvStreamFrameBytes h)"

text \<open>The statements of \<^verbatim>\<open>maybeQueueAck\<close> one after the other: count the packet, always ack the first packet, ack
  every 20 packets before version 39, ack a packet that was reported missing, ack a new missing range, and ack every
  second retransmittable packet or set the alarm.\<close>

definition countPacket :: "bool \<Rightarrow> receivedPacketHandler \<Rightarrow> receivedPacketHandler" where
  "countPacket shouldInstigateAck h =
     (let h = h\<lparr>rp_packetsReceivedSinceLastAck := rp_packetsReceivedSinceLastAck h + 1\<rparr>
      in if shouldInstigateAck
         then h\<lparr>rp_retransmittablePacketsReceivedSinceLastAck := rp_retransmittablePacketsReceivedSinceLastAck h + 1\<rparr>
         else h)"

definition queueFirst :: "receivedPacketHandler \<Rightarrow> receivedPacketHandler" where
  "queueFirst h = (if rp_lastAck h = None then h\<lparr>rp_ackQueued := True\<rparr> else h)"

definition queueEvery20 :: "receivedPacketHandler \<Rightarrow> receivedPacketHandler" where
  "queueEvery20 h =
     (if rp_version h < Version39 then
        (if rp_packetsReceivedSinceLastAck h \<ge> MaxPacketsReceivedBeforeAckSend then h\<lparr>rp_ackQueued := True\<rparr> else h)
      else h)"

definition queueReported :: "PacketNumber \<Rightarrow> receivedPacketHandler \<Rightarrow> receivedPacketHandler" where
  "queueReported packetNumber h =
     (case rp_lastAck h of
        Some lastAck \<Rightarrow> if packetNumber < ack_LargestAcked lastAck then h\<lparr>rp_ackQueued := True\<rparr> else h
      | None \<Rightarrow> h)"

definition queueNewGap :: "receivedPacketHandler \<Rightarrow> receivedPacketHandler" where
  "queueNewGap h =
     (case rp_lastAck h of
        Some lastAck \<Rightarrow>
          if First (history_GetHighestAckRange (rp_packetHistory h)) > ack_LargestAcked lastAck
          then h\<lparr>rp_ackQueued := True\<rparr> else h
      | None \<Rightarrow> h)"

definition queueOrAlarm :: "gotime \<Rightarrow> bool \<Rightarrow> receivedPacketHandler \<Rightarrow> receivedPacketHandler" where
  "queueOrAlarm now shouldInstigateAck h =
     (if \<not> rp_ackQueued h \<and> shouldInstigateAck then
        (if rp_retransmittablePacketsReceivedSinceLastAck h \<ge> RetransmittablePacketsBeforeAck
         then h\<lparr>rp_ackQueued := True\<rparr>
         else if rp_ackAlarm h = zero_time then h\<lparr>rp_ackAlarm := time_add now (rp_ackSendDelay h)\<rparr>
         else h)
      else h)"

definition cancelAlarm :: "receivedPacketHandler \<Rightarrow> receivedPacketHandler" where
  "cancelAlarm h = (if rp_ackQueued h then h\<lparr>rp_ackAlarm := zero_time\<rparr> else h)"

definition maybeQueueAck ::
  "gotime \<Rightarrow> receivedPacketHandler \<Rightarrow> PacketNumber \<Rightarrow> bool \<Rightarrow> receivedPacketHandler" where
  "maybeQueueAck now h packetNumber shouldInstigateAck =
     cancelAlarm (queueOrAlarm now shouldInstigateAck (queueNewGap (queueReported packetNumber
       (queueEvery20 (queueFirst (countPacket shouldInstigateAck h))))))"

text \<open>The handler is changed also when an error is returned. The calls of \<^verbatim>\<open>time.Now()\<close> in one operation see the
  same instant \<open>now\<close>.\<close>

definition rp_ReceivedPacket ::
  "gotime \<Rightarrow> receivedPacketHandler \<Rightarrow> PacketNumber \<Rightarrow> bool \<Rightarrow> u64 \<Rightarrow> goerror option \<times> receivedPacketHandler" where
  "rp_ReceivedPacket now h packetNumber shouldInstigateAck payloadLength =
     (if packetNumber = 0 then (Some errInvalidPacketNumber, h)
      else
        let h = h\<lparr>rp_packets := rp_packets h + 1, rp_recvStreamFrameBytes := rp_recvStreamFrameBytes h + payloadLength\<rparr>;
            h = (if packetNumber > rp_largestObserved h
              then h\<lparr>rp_largestObserved := packetNumber, rp_largestObservedReceivedTime := now\<rparr> else h)
        in if packetNumber \<le> rp_lowerLimit h then (None, h)
           else
             (case history_ReceivedPacket (rp_packetHistory h) packetNumber of
                Inl err \<Rightarrow> (Some err, h)
              | Inr history \<Rightarrow>
                  (None, maybeQueueAck now (h\<lparr>rp_packetHistory := history\<rparr>) packetNumber shouldInstigateAck)))"

definition SetLowerLimit :: "receivedPacketHandler \<Rightarrow> PacketNumber \<Rightarrow> receivedPacketHandler" where
  "SetLowerLimit h p = h\<lparr>rp_lowerLimit := p, rp_packetHistory := history_DeleteUpTo (rp_packetHistory h) p\<rparr>"

text \<open>Without ranges the index \<^verbatim>\<open>len(ackRanges)-1\<close> is out of range, which panics.\<close>

definition rp_GetAckFrame :: "gotime \<Rightarrow> receivedPacketHandler \<Rightarrow> (AckFrame option \<times> receivedPacketHandler) result" where
  "rp_GetAckFrame now h =
     (if \<not> rp_ackQueued h \<and> (rp_ackAlarm h = zero_time \<or> rp_ackAlarm h > now) then Inr (None, h)
      else
        let ackRanges = history_GetAckRanges (rp_packetHistory h)
        in if ackRanges = [] then Inl Panic
           else
             let ack = \<lparr>ack_PathID = 0, ack_LargestAcked = rp_largestObserved h,
                        ack_LowestAcked = First (last ackRanges),
                        ack_AckRanges = (if length ackRanges > 1 then ackRanges else []),
                        ack_PacketReceivedTime = rp_largestObservedReceivedTime h, ack_DelayTime = 0\<rparr>
             in Inr (Some ack, h\<lparr>rp_lastAck := Some ack, rp_ackAlarm := zero_time, rp_ackQueued := False,
                  rp_packetsReceivedSinceLastAck := 0, rp_retransmittablePacketsReceivedSinceLastAck := 0\<rparr>))"

definition rp_GetClosePathFrame :: "receivedPacketHandler \<Rightarrow> ClosePathFrame result" where
  "rp_GetClosePathFrame h =
     (let ackRanges = history_GetAckRanges (rp_packetHistory h)
      in if ackRanges = [] then Inl Panic
         else Inr \<lparr>cp_PathID = 0, cp_LargestAcked = rp_largestObserved h, cp_LowestAcked = First (last ackRanges),
                   cp_AckRanges = (if length ackRanges > 1 then ackRanges else [])\<rparr>)"

definition rp_GetAlarmTimeout :: "receivedPacketHandler \<Rightarrow> gotime" where
  "rp_GetAlarmTimeout h = rp_ackAlarm h"

section \<open>The STOP_WAITING manager\<close>

record stopWaitingManager =
  sm_largestLeastUnackedSent :: PacketNumber
  sm_nextLeastUnacked :: PacketNumber
  sm_lastStopWaitingFrame :: "StopWaitingFrame option"

definition newStopWaitingFrame :: "PacketNumber \<Rightarrow> StopWaitingFrame" where
  "newStopWaitingFrame p = \<lparr>sw_LeastUnacked = p, sw_PacketNumberLen = 0, sw_PacketNumber = 0\<rparr>"

definition sm_GetStopWaitingFrame ::
  "stopWaitingManager \<Rightarrow> bool \<Rightarrow> StopWaitingFrame option \<times> stopWaitingManager" where
  "sm_GetStopWaitingFrame s force =
     (if sm_nextLeastUnacked s \<le> sm_largestLeastUnackedSent s then
        (if force then
           (let s = (if sm_lastStopWaitingFrame s = None \<and> sm_largestLeastUnackedSent s > 0
              then s\<lparr>sm_lastStopWaitingFrame := Some (newStopWaitingFrame (sm_nextLeastUnacked s))\<rparr> else s)
            in (sm_lastStopWaitingFrame s, s))
         else (None, s))
      else
        let s = s\<lparr>sm_largestLeastUnackedSent := sm_nextLeastUnacked s\<rparr>;
            swf = newStopWaitingFrame (sm_nextLeastUnacked s)
        in (Some swf, s\<lparr>sm_lastStopWaitingFrame := Some swf\<rparr>))"

definition sm_ReceivedAck :: "stopWaitingManager \<Rightarrow> AckFrame \<Rightarrow> stopWaitingManager" where
  "sm_ReceivedAck s ack =
     (if ack_LargestAcked ack \<ge> sm_nextLeastUnacked s
      then s\<lparr>sm_nextLeastUnacked := ack_LargestAcked ack + 1\<rparr> else s)"

definition QueuedRetransmissionForPacketNumber :: "stopWaitingManager \<Rightarrow> PacketNumber \<Rightarrow> stopWaitingManager" where
  "QueuedRetransmissionForPacketNumber s p =
     (if p \<ge> sm_nextLeastUnacked s then s\<lparr>sm_nextLeastUnacked := p + 1\<rparr> else s)"

section \<open>The history as a set of packet numbers\<close>

definition packets :: "PacketInterval list \<Rightarrow> nat set" where
  "packets rs = (\<Union>r \<in> set rs. {unat (Start r)..unat (End r)})"

text \<open>The intervals from the back to the front: not empty, descending, and with a gap between any two.\<close>

fun descending :: "PacketInterval list \<Rightarrow> bool" where
  "descending [] = True"
| "descending [r] = (0 < unat (Start r) \<and> unat (Start r) \<le> unat (End r))"
| "descending (r # s # rs) =
     (unat (Start r) \<le> unat (End r) \<and> unat (End s) + 1 < unat (Start r) \<and> descending (s # rs))"

lemma packets_simps [simp]:
  "packets [] = {}" "packets (r # rs) = {unat (Start r)..unat (End r)} \<union> packets rs"
  "packets (rs @ ss) = packets rs \<union> packets ss" "packets (rev rs) = packets rs"
  by (auto simp: packets_def)

lemma descending_Cons:
  "descending (r # rs) \<longleftrightarrow> 0 < unat (Start r) \<and> unat (Start r) \<le> unat (End r) \<and> descending rs
     \<and> (rs \<noteq> [] \<longrightarrow> unat (End (hd rs)) + 1 < unat (Start r))"
  by (cases rs) auto

lemma descending_packets_less:
  "descending rs \<Longrightarrow> n \<in> packets rs \<Longrightarrow> 0 < n \<and> n \<le> unat (End (hd rs))"
proof (induction rs)
  case (Cons r rs)
  then show ?case by (cases rs) (auto simp: descending_Cons)
qed simp

lemma unat_pred: "0 < unat p \<Longrightarrow> unat (p - 1 :: u64) = unat p - 1"
  by (subst unat_sub) (simp_all add: word_le_nat_alt)

lemma pred_eq_iff: "0 < unat (p :: u64) \<Longrightarrow> e = p - 1 \<longleftrightarrow> unat e + 1 = unat p"
  by (auto simp: word_unat_eq_iff unat_pred)

lemma succ_eq_iff: "0 < unat (s :: u64) \<Longrightarrow> s = p + 1 \<longleftrightarrow> unat s = unat p + 1"
  using pred_eq_iff [of s p] by (metis add_diff_cancel_right' diff_add_cancel)

lemma receivedPacket_loop_correct:
  assumes "descending rs" "0 < unat p"
  shows "descending (receivedPacket_loop p rs) \<and> packets (receivedPacket_loop p rs) = insert (unat p) (packets rs)
    \<and> receivedPacket_loop p rs \<noteq> []
    \<and> unat (End (hd (receivedPacket_loop p rs))) = (if rs = [] then unat p else max (unat p) (unat (End (hd rs))))"
  using assms
proof (induction rs)
  case Nil
  then show ?case by simp
next
  case (Cons el prevs)
  have el: "0 < unat (Start el)" "unat (Start el) \<le> unat (End el)" and d: "descending prevs"
    and gap: "prevs \<noteq> [] \<Longrightarrow> unat (End (hd prevs)) + 1 < unat (Start el)"
    using Cons.prems(1) by (auto simp: descending_Cons)
  consider (included) "Start el \<le> p" "p \<le> End el" | (up) "unat (End el) + 1 = unat p"
    | (down) "unat (Start el) = unat p + 1" | (above) "unat (End el) + 1 < unat p"
    | (below) "unat p + 1 < unat (Start el)"
    by (auto simp: word_le_nat_alt) linarith
  then show ?case
  proof cases
    case included
    then show ?thesis using Cons.prems(1) by (auto simp: word_le_nat_alt)
  next
    case up
    have n: "\<not> (p \<ge> Start el \<and> p \<le> End el)" "End el = p - 1"
      using up Cons.prems(2) by (auto simp: word_le_nat_alt pred_eq_iff)
    have "End prev + 1 \<noteq> Start el" if "prevs = prev # rest" for prev rest
      using gap that el succ_eq_iff [of "Start el" "End prev"] by auto
    then have "receivedPacket_loop p (el # prevs) = el\<lparr>End := p\<rparr> # prevs"
      using n by (auto split: list.splits)
    then show ?thesis using up el d gap by (auto simp: descending_Cons)
  next
    case down
    have n: "\<not> (p \<ge> Start el \<and> p \<le> End el)" "End el \<noteq> p - 1" "Start el = p + 1"
      using down el Cons.prems(2) by (auto simp: word_le_nat_alt pred_eq_iff succ_eq_iff)
    show ?thesis
    proof (cases prevs)
      case Nil
      with n down el Cons.prems(2) show ?thesis by (auto simp: descending_Cons)
    next
      case (Cons prev rest)
      have "(End prev + 1 = p) = (unat (End prev) + 1 = unat p)"
        using Cons.prems(2) succ_eq_iff [of p "End prev"] by auto
      then show ?thesis
        using n down el d gap Cons Cons.prems(2) by (auto simp: descending_Cons)
    qed
  next
    case above
    have n: "\<not> (p \<ge> Start el \<and> p \<le> End el)" "End el \<noteq> p - 1" "Start el \<noteq> p + 1" "p > End el"
      using above el Cons.prems(2) by (auto simp: word_le_nat_alt word_less_nat_alt pred_eq_iff succ_eq_iff)
    then show ?thesis using above el d gap Cons.prems(2) by (auto simp: descending_Cons)
  next
    case below
    have n: "\<not> (p \<ge> Start el \<and> p \<le> End el)" "End el \<noteq> p - 1" "Start el \<noteq> p + 1" "\<not> p > End el"
      using below el Cons.prems(2) by (auto simp: word_le_nat_alt word_less_nat_alt pred_eq_iff succ_eq_iff)
    then have "receivedPacket_loop p (el # prevs) = el # receivedPacket_loop p prevs" by auto
    then show ?thesis using Cons.IH [OF d Cons.prems(2)] below el gap by (auto simp: descending_Cons)
  qed
qed

lemma descending_snoc:
  "descending (rs @ [r]) \<longleftrightarrow> descending rs \<and> 0 < unat (Start r) \<and> unat (Start r) \<le> unat (End r)
     \<and> (rs \<noteq> [] \<longrightarrow> unat (End r) + 1 < unat (Start (last rs)))"
  by (induction rs rule: descending.induct) auto

lemma descending_above_last:
  "descending (rs @ [r]) \<Longrightarrow> x \<in> set rs \<Longrightarrow> unat (End r) + 1 < unat (Start x)"
proof (induction rs arbitrary: x)
  case (Cons a rs)
  have d: "descending (rs @ [r])" and gap: "unat (End (hd (rs @ [r]))) + 1 < unat (Start a)"
    using Cons.prems(1) by (simp_all add: descending_Cons)
  show ?case
  proof (cases "rs = []")
    case True
    with gap Cons.prems(2) show ?thesis by simp
  next
    case False
    have "unat (Start (hd rs)) \<le> unat (End (hd rs))" using d False by (cases rs) (simp_all add: descending_Cons)
    with Cons.IH [OF d, of "hd rs"] gap False have "unat (End r) + 1 < unat (Start a)" by simp
    with Cons.IH [OF d] Cons.prems(2) show ?thesis by auto
  qed
qed simp

lemma descending_packets_greater:
  "descending (rs @ [r]) \<Longrightarrow> n \<in> packets rs \<Longrightarrow> unat (End r) + 1 < n"
  by (fastforce simp: packets_def dest: descending_above_last)

lemma descending_hd_max:
  assumes "descending rs" "rs \<noteq> []"
  shows "unat (End (hd rs)) \<in> packets rs" "n \<in> packets rs \<Longrightarrow> n \<le> unat (End (hd rs))"
  using assms descending_packets_less [OF assms(1)] by (cases rs; auto simp: descending_Cons)+

lemma deleteUpTo_loop_correct:
  assumes "descending (rev rs)"
  shows "descending (rev (deleteUpTo_loop p rs))
    \<and> packets (deleteUpTo_loop p rs) = packets rs \<inter> {n. unat p < n}"
  using assms
proof (induction rs)
  case (Cons el nexts)
  have el: "0 < unat (Start el)" "unat (Start el) \<le> unat (End el)" and d: "descending (rev nexts)"
    and gap: "nexts \<noteq> [] \<Longrightarrow> unat (End el) + 1 < unat (Start (hd nexts))"
    using Cons.prems by (auto simp: descending_snoc last_rev)
  have above: "unat (End el) + 1 < n" if "n \<in> packets nexts" for n
    using descending_packets_greater [of "rev nexts" el n] Cons.prems that by simp
  note IH = Cons.IH [OF d, THEN conjunct1] Cons.IH [OF d, THEN conjunct2]
  consider (cut) "unat (Start el) \<le> unat p" "unat p < unat (End el)" | (drop) "unat (End el) \<le> unat p"
    | (stop) "unat p < unat (Start el)" by linarith
  then show ?case
  proof cases
    case cut
    have p1: "unat (p + 1) = unat p + 1" using cut unsigned_less [of "End el", where ?'a = nat]
      by (subst unat_add_lem [THEN iffD1]) simp_all
    have "unat p < n" if "n \<in> packets nexts" for n using above [OF that] cut(2) by simp
    then have keep: "packets nexts \<inter> {n. unat p < n} = packets nexts" by blast
    have "deleteUpTo_loop p (el # nexts) = el\<lparr>Start := p + 1\<rparr> # deleteUpTo_loop p nexts"
      using cut by (simp add: word_le_nat_alt word_less_nat_alt)
    moreover have "unat (End el) + 1 < unat (Start (last (rev (deleteUpTo_loop p nexts))))" if ne: "deleteUpTo_loop p nexts \<noteq> []"
    proof -
      obtain y ys where y: "deleteUpTo_loop p nexts = y # ys" using ne by (cases "deleteUpTo_loop p nexts") auto
      then have "unat (Start y) \<in> packets (deleteUpTo_loop p nexts)"
        using IH(1) by (simp add: descending_snoc)
      then have "unat (End el) + 1 < unat (Start y)" unfolding IH(2) using above by blast
      then show ?thesis using y by simp
    qed
    moreover have "packets (el # nexts) \<inter> {n. unat p < n} = {unat p + 1..unat (End el)} \<union> packets nexts"
      unfolding packets_simps(2) Int_Un_distrib2 keep using cut by auto
    ultimately show ?thesis using IH(1) IH(2) [unfolded keep] cut p1 by (simp add: descending_snoc)
  next
    case drop
    then have "deleteUpTo_loop p (el # nexts) = deleteUpTo_loop p nexts"
      by (auto simp: word_le_nat_alt word_less_nat_alt)
    moreover have "packets (el # nexts) \<inter> {n. unat p < n} = packets nexts \<inter> {n. unat p < n}" using drop by auto
    ultimately show ?thesis using IH by simp
  next
    case stop
    then have "deleteUpTo_loop p (el # nexts) = el # nexts"
      using el by (auto simp: word_le_nat_alt word_less_nat_alt)
    moreover have "unat p < n" if "n \<in> packets (el # nexts)" for n using that stop above [of n] el by auto
    then have "packets (el # nexts) \<inter> {n. unat p < n} = packets (el # nexts)" by blast
    ultimately show ?thesis using Cons.prems by simp
  qed
qed simp

section \<open>The interface of a history\<close>

text \<open>A history promises to remember the set \<open>seen\<close> of packet numbers and to list it as separated ACK ranges.\<close>

locale packet_history =
  fixes add :: "'h \<Rightarrow> PacketNumber \<Rightarrow> 'h result"
    and forget :: "'h \<Rightarrow> PacketNumber \<Rightarrow> 'h"
    and ranges :: "'h \<Rightarrow> AckRange list"
    and inv :: "'h \<Rightarrow> bool"
    and seen :: "'h \<Rightarrow> nat set"
  assumes add_inv: "inv h \<Longrightarrow> p \<noteq> 0 \<Longrightarrow> add h p = Inr h' \<Longrightarrow> inv h'"
    and add_seen: "inv h \<Longrightarrow> p \<noteq> 0 \<Longrightarrow> add h p = Inr h' \<Longrightarrow> seen h' = insert (unat p) (seen h)"
    and forget_inv: "inv h \<Longrightarrow> inv (forget h p)"
    and forget_seen: "inv h \<Longrightarrow> seen (forget h p) = seen h \<inter> {n. unat p < n}"
    and ranges_separated: "inv h \<Longrightarrow> ranges h = r # rs \<Longrightarrow> separated r rs"
    and ranges_seen: "inv h \<Longrightarrow> seen h = (\<Union>r \<in> set (ranges h). {unat (First r)..unat (Last r)})"
    and ranges_positive: "inv h \<Longrightarrow> r \<in> set (ranges h) \<Longrightarrow> 0 < unat (First r)"
begin

lemma ranges_empty_iff: "inv h \<Longrightarrow> ranges h = [] \<longleftrightarrow> seen h = {}"
  using ranges_separated [of h] ranges_seen [of h] separated_head
  by (cases "ranges h") (auto simp: word_le_nat_alt)

lemma seen_iff: "inv h \<Longrightarrow> unat p \<in> seen h \<longleftrightarrow> (\<exists>r \<in> set (ranges h). p \<in> range_set r)"
  by (auto simp: ranges_seen range_set_def word_le_nat_alt)

lemma largest_seen:
  assumes "inv h" "ranges h = r # rs"
  shows "unat (Last r) \<in> seen h" "n \<in> seen h \<Longrightarrow> n \<le> unat (Last r)"
  using separated_bounds [OF ranges_separated [OF assms]] assms
  by (fastforce simp: ranges_seen word_le_nat_alt)+

lemma seen_positive: "inv h \<Longrightarrow> n \<in> seen h \<Longrightarrow> 0 < n"
  using ranges_positive by (fastforce simp: ranges_seen)

text \<open>The ranges as a frame carries them: none if there is only one.\<close>

lemma acks_seen:
  assumes "inv h" "ranges h = r # rs"
  shows "blocks_accepted (Last r) (First (last (r # rs))) (if length (r # rs) > 1 then r # rs else [])"
    and "acks_packet (Last r) (First (last (r # rs))) (if length (r # rs) > 1 then r # rs else []) p
      \<longleftrightarrow> unat p \<in> seen h"
proof -
  have sep: "separated r rs" using ranges_separated [OF assms] .
  have "0 < unat (First r)" using ranges_positive [OF assms(1), of r] assms(2) by simp
  then have "First r \<noteq> 0" by auto
  then show acc: "blocks_accepted (Last r) (First (last (r # rs))) (if length (r # rs) > 1 then r # rs else [])"
    using sep separated_head [OF sep] by (auto simp: blocks_accepted_def)
  show "acks_packet (Last r) (First (last (r # rs))) (if length (r # rs) > 1 then r # rs else []) p
      \<longleftrightarrow> unat p \<in> seen h"
    unfolding acks_packet_iff [OF acc] seen_iff [OF assms(1)] assms(2)
    by (cases rs) (auto simp: range_set_def)
qed

end

definition history_inv :: "receivedPacketHistory \<Rightarrow> bool" where
  "history_inv h \<longleftrightarrow> descending (rev (rh_ranges h))"

definition history_seen :: "receivedPacketHistory \<Rightarrow> nat set" where
  "history_seen h = packets (rh_ranges h)"

lemma descending_separated: "descending (r # rs) \<Longrightarrow> separated (ackRange_of r) (map ackRange_of rs)"
  by (induction rs arbitrary: r) (auto simp: descending_Cons ackRange_of_def word_le_nat_alt)

lemma descending_start: "descending rs \<Longrightarrow> r \<in> set rs \<Longrightarrow> 0 < unat (Start r)"
  by (induction rs) (auto simp: descending_Cons)

lemma history_ReceivedPacket_ranges:
  "history_ReceivedPacket h p = Inr h' \<Longrightarrow> rh_ranges h' = rev (receivedPacket_loop p (rev (rh_ranges h)))"
  by (cases "rh_ranges h") (auto simp: history_ReceivedPacket_def simp del: receivedPacket_loop.simps(2) split: if_splits)

interpretation history: packet_history history_ReceivedPacket history_DeleteUpTo history_GetAckRanges
  history_inv history_seen
proof unfold_locales
  fix h h' p assume h: "history_inv h" and "p \<noteq> 0" and h': "history_ReceivedPacket h p = Inr h'"
  have "0 < unat p" using \<open>p \<noteq> 0\<close> by (simp add: unat_gt_0)
  with h show "history_inv h'" "history_seen h' = insert (unat p) (history_seen h)"
    using receivedPacket_loop_correct [of "rev (rh_ranges h)" p]
    unfolding history_inv_def history_seen_def history_ReceivedPacket_ranges [OF h'] by simp_all
next
  fix h p assume "history_inv h"
  then show "history_inv (history_DeleteUpTo h p)" "history_seen (history_DeleteUpTo h p) = history_seen h \<inter> {n. unat p < n}"
    using deleteUpTo_loop_correct [of "rh_ranges h" p]
    by (simp_all add: history_inv_def history_seen_def history_DeleteUpTo_def)
next
  fix h r rs assume "history_inv h" "history_GetAckRanges h = r # rs"
  then show "separated r rs"
    using descending_separated [of "hd (rev (rh_ranges h))" "tl (rev (rh_ranges h))"]
    by (cases "rev (rh_ranges h)") (simp_all add: history_inv_def history_GetAckRanges_def split: if_splits)
next
  fix h show "history_seen h = (\<Union>r \<in> set (history_GetAckRanges h). {unat (First r)..unat (Last r)})"
    by (auto simp: history_seen_def history_GetAckRanges_def packets_def ackRange_of_def)
next
  fix h r assume "history_inv h" "r \<in> set (history_GetAckRanges h)"
  then show "0 < unat (First r)"
    by (auto simp: history_inv_def history_GetAckRanges_def ackRange_of_def split: if_splits dest: descending_start)
qed

section \<open>The handler refines a set of packet numbers\<close>

text \<open>The states that a handler goes through: \<open>handler_run t h S\<close> when \<open>h\<close> is reached at time \<open>t\<close> and \<open>S\<close> is the
  set of packets that were received above the lower limit of their time and are not below a later one. A path sets
  a lower limit only from a STOP_WAITING frame of a packet it has just received, which is below the packet's number.\<close>

inductive handler_run :: "gotime \<Rightarrow> receivedPacketHandler \<Rightarrow> nat set \<Rightarrow> bool" where
  run_new: "0 \<le> t \<Longrightarrow> handler_run t (NewReceivedPacketHandler version) {}"
| run_receive: "handler_run t h S \<Longrightarrow> t \<le> now \<Longrightarrow> rp_ReceivedPacket now h p ia len = (None, h') \<Longrightarrow>
    handler_run now h' (if p \<le> rp_lowerLimit h then S else insert (unat p) S)"
| run_limit: "handler_run t h S \<Longrightarrow> p < rp_largestObserved h \<Longrightarrow>
    handler_run t (SetLowerLimit h p) (S \<inter> {n. unat p < n})"
| run_ack: "handler_run t h S \<Longrightarrow> t \<le> now \<Longrightarrow> rp_GetAckFrame now h = Inr (a, h') \<Longrightarrow> handler_run now h' S"

text \<open>What connects a handler with the set: the history remembers it, its largest element is the largest packet
  observed, and when an ACK is due there is something to acknowledge.\<close>

definition handler_inv :: "gotime \<Rightarrow> receivedPacketHandler \<Rightarrow> nat set \<Rightarrow> bool" where
  "handler_inv t h S \<longleftrightarrow> 0 \<le> t \<and> history_inv (rp_packetHistory h) \<and> history_seen (rp_packetHistory h) = S
     \<and> (\<forall>n \<in> S. n \<le> unat (rp_largestObserved h))
     \<and> (if rp_largestObserved h = 0 then S = {} \<and> rp_lowerLimit h = 0 \<and> \<not> rp_ackQueued h \<and> rp_ackAlarm h = 0
        else rp_lowerLimit h < rp_largestObserved h \<and> unat (rp_largestObserved h) \<in> S)
     \<and> rp_ackSendDelay h = AckSendDelay \<and> 0 \<le> rp_ackAlarm h \<and> rp_ackAlarm h \<le> t + AckSendDelay"

lemmas queue_steps = countPacket_def queueFirst_def queueEvery20_def queueReported_def queueNewGap_def
  queueOrAlarm_def cancelAlarm_def

lemma queue_steps_frame [simp]:
  "rp_largestObserved (countPacket ia h) = rp_largestObserved h" "rp_largestObserved (queueFirst h) = rp_largestObserved h"
  "rp_largestObserved (queueEvery20 h) = rp_largestObserved h" "rp_largestObserved (queueReported p h) = rp_largestObserved h"
  "rp_largestObserved (queueNewGap h) = rp_largestObserved h" "rp_largestObserved (queueOrAlarm now ia h) = rp_largestObserved h"
  "rp_largestObserved (cancelAlarm h) = rp_largestObserved h"
  "rp_lowerLimit (countPacket ia h) = rp_lowerLimit h" "rp_lowerLimit (queueFirst h) = rp_lowerLimit h"
  "rp_lowerLimit (queueEvery20 h) = rp_lowerLimit h" "rp_lowerLimit (queueReported p h) = rp_lowerLimit h"
  "rp_lowerLimit (queueNewGap h) = rp_lowerLimit h" "rp_lowerLimit (queueOrAlarm now ia h) = rp_lowerLimit h"
  "rp_lowerLimit (cancelAlarm h) = rp_lowerLimit h"
  "rp_packetHistory (countPacket ia h) = rp_packetHistory h" "rp_packetHistory (queueFirst h) = rp_packetHistory h"
  "rp_packetHistory (queueEvery20 h) = rp_packetHistory h" "rp_packetHistory (queueReported p h) = rp_packetHistory h"
  "rp_packetHistory (queueNewGap h) = rp_packetHistory h" "rp_packetHistory (queueOrAlarm now ia h) = rp_packetHistory h"
  "rp_packetHistory (cancelAlarm h) = rp_packetHistory h"
  "rp_ackSendDelay (countPacket ia h) = rp_ackSendDelay h" "rp_ackSendDelay (queueFirst h) = rp_ackSendDelay h"
  "rp_ackSendDelay (queueEvery20 h) = rp_ackSendDelay h" "rp_ackSendDelay (queueReported p h) = rp_ackSendDelay h"
  "rp_ackSendDelay (queueNewGap h) = rp_ackSendDelay h" "rp_ackSendDelay (queueOrAlarm now ia h) = rp_ackSendDelay h"
  "rp_ackSendDelay (cancelAlarm h) = rp_ackSendDelay h"
  "rp_ackAlarm (countPacket ia h) = rp_ackAlarm h" "rp_ackAlarm (queueFirst h) = rp_ackAlarm h"
  "rp_ackAlarm (queueEvery20 h) = rp_ackAlarm h" "rp_ackAlarm (queueReported p h) = rp_ackAlarm h"
  "rp_ackAlarm (queueNewGap h) = rp_ackAlarm h"
  by (simp_all add: queue_steps Let_def split: option.splits)

lemma maybeQueueAck_frame [simp]:
  "rp_largestObserved (maybeQueueAck now h p ia) = rp_largestObserved h"
  "rp_lowerLimit (maybeQueueAck now h p ia) = rp_lowerLimit h"
  "rp_packetHistory (maybeQueueAck now h p ia) = rp_packetHistory h"
  "rp_ackSendDelay (maybeQueueAck now h p ia) = rp_ackSendDelay h"
  by (simp_all add: maybeQueueAck_def)

lemma maybeQueueAck_alarm:
  "rp_ackAlarm (maybeQueueAck now h p ia) \<in> {0, rp_ackAlarm h, time_add now (rp_ackSendDelay h)}"
proof -
  have "rp_ackAlarm (cancelAlarm h) \<in> {0, rp_ackAlarm h}" for h by (simp add: cancelAlarm_def)
  moreover have "rp_ackAlarm (queueOrAlarm now ia h) \<in> {rp_ackAlarm h, time_add now (rp_ackSendDelay h)}" for h
    by (simp add: queueOrAlarm_def)
  ultimately show ?thesis unfolding maybeQueueAck_def
    by (smt (verit) insert_iff singletonD queue_steps_frame)
qed

lemma handler_inv_new: "0 \<le> t \<Longrightarrow> handler_inv t (NewReceivedPacketHandler version) {}"
  by (simp add: handler_inv_def NewReceivedPacketHandler_def newReceivedPacketHistory_def history_inv_def history_seen_def)

lemma handler_inv_receive:
  assumes inv: "handler_inv t h S" and t: "t \<le> now" and r: "rp_ReceivedPacket now h p ia len = (None, h')"
  shows "handler_inv now h' (if p \<le> rp_lowerLimit h then S else insert (unat p) S)"
proof -
  have p: "p \<noteq> 0" using r by (auto simp: rp_ReceivedPacket_def)
  define L where "L = max (rp_largestObserved h) p"
  define h2 where "h2 = (let h = h\<lparr>rp_packets := rp_packets h + 1, rp_recvStreamFrameBytes := rp_recvStreamFrameBytes h + len\<rparr>
    in if p > rp_largestObserved h then h\<lparr>rp_largestObserved := p, rp_largestObservedReceivedTime := now\<rparr> else h)"
  have h2: "rp_largestObserved h2 = L" "rp_lowerLimit h2 = rp_lowerLimit h" "rp_packetHistory h2 = rp_packetHistory h"
    "rp_ackSendDelay h2 = rp_ackSendDelay h" "rp_ackAlarm h2 = rp_ackAlarm h" "rp_ackQueued h2 = rp_ackQueued h"
    by (auto simp: h2_def Let_def L_def max_def)
  have r': "(if p \<le> rp_lowerLimit h2 then (None, h2)
      else (case history_ReceivedPacket (rp_packetHistory h2) p of Inl err \<Rightarrow> (Some err, h2)
         | Inr history \<Rightarrow> (None, maybeQueueAck now (h2\<lparr>rp_packetHistory := history\<rparr>) p ia))) = (None, h')"
    using r p unfolding rp_ReceivedPacket_def h2_def Let_def by simp
  show ?thesis
  proof (cases "p \<le> rp_lowerLimit h")
    case True
    then have "rp_largestObserved h \<noteq> 0" using inv p by (auto simp: handler_inv_def split: if_splits)
    then have "L = rp_largestObserved h" using True inv by (auto simp: handler_inv_def L_def)
    then show ?thesis using True inv t r' h2 by (auto simp: handler_inv_def)
  next
    case False
    then obtain history where add: "history_ReceivedPacket (rp_packetHistory h) p = Inr history"
      and h': "h' = maybeQueueAck now (h2\<lparr>rp_packetHistory := history\<rparr>) p ia"
      using r' h2 by (auto split: sum.splits)
    have hist: "history_inv (rp_packetHistory h)" "history_seen (rp_packetHistory h) = S" using inv by (simp_all add: handler_inv_def)
    have hist': "history_inv history" "history_seen history = insert (unat p) S"
      using history.add_inv [OF hist(1) p add] history.add_seen [OF hist(1) p add] hist(2) by simp_all
    have L: "\<forall>n \<in> insert (unat p) S. n \<le> unat L" "L \<noteq> 0" "rp_lowerLimit h < L" "unat L \<in> insert (unat p) S"
      using inv p False by (auto simp: handler_inv_def L_def max_def word_le_nat_alt word_less_nat_alt unat_gt_0 split: if_splits)
    have "rp_ackAlarm h' \<in> {0, rp_ackAlarm h, time_add now AckSendDelay}"
      using maybeQueueAck_alarm [of now "h2\<lparr>rp_packetHistory := history\<rparr>" p ia] inv h2 by (simp add: h' handler_inv_def)
    then have "0 \<le> rp_ackAlarm h'" "rp_ackAlarm h' \<le> now + AckSendDelay" using inv t by (auto simp: handler_inv_def time_add_def)
    then show ?thesis using False hist' L inv t h2 by (simp add: handler_inv_def h')
  qed
qed

lemma handler_inv_limit:
  assumes inv: "handler_inv t h S" and p: "p < rp_largestObserved h"
  shows "handler_inv t (SetLowerLimit h p) (S \<inter> {n. unat p < n})"
  using assms history.forget_inv [of "rp_packetHistory h" p] history.forget_seen [of "rp_packetHistory h" p]
  by (auto simp: handler_inv_def SetLowerLimit_def word_less_nat_alt split: if_splits)

lemma handler_inv_ack:
  assumes "handler_inv t h S" "t \<le> now" "rp_GetAckFrame now h = Inr (a, h')"
  shows "handler_inv now h' S"
  using assms by (auto simp: handler_inv_def rp_GetAckFrame_def Let_def split: if_splits)

lemma handler_run_inv: "handler_run t h S \<Longrightarrow> handler_inv t h S"
proof (induction rule: handler_run.induct)
  case (run_receive t h S now p ia len h')
  then show ?case by (intro handler_inv_receive)
qed (auto intro: handler_inv_new handler_inv_limit handler_inv_ack)

text \<open>When an ACK is due, the handler builds the frame from its ranges.\<close>

lemma handler_ranges:
  assumes "handler_inv t h S"
  shows "history_GetAckRanges (rp_packetHistory h) = [] \<longleftrightarrow> S = {}"
    and "history_GetAckRanges (rp_packetHistory h) = r # rs \<Longrightarrow> Last r = rp_largestObserved h"
proof -
  have inv: "history_inv (rp_packetHistory h)" "history_seen (rp_packetHistory h) = S"
    using assms by (simp_all add: handler_inv_def)
  then show empty: "history_GetAckRanges (rp_packetHistory h) = [] \<longleftrightarrow> S = {}"
    using history.ranges_empty_iff by blast
  assume r: "history_GetAckRanges (rp_packetHistory h) = r # rs"
  with empty have "S \<noteq> {}" by auto
  then have "unat (rp_largestObserved h) \<in> S" "\<forall>n \<in> S. n \<le> unat (rp_largestObserved h)"
    using assms by (auto simp: handler_inv_def split: if_splits)
  then show "Last r = rp_largestObserved h"
    using history.largest_seen [OF inv(1) r] inv(2) by (auto simp: word_unat_eq_iff intro: antisym)
qed

definition ack_due :: "gotime \<Rightarrow> receivedPacketHandler \<Rightarrow> bool" where
  "ack_due now h \<longleftrightarrow> rp_ackQueued h \<or> (rp_ackAlarm h \<noteq> zero_time \<and> rp_ackAlarm h \<le> now)"

lemma ack_due_frame:
  assumes "handler_inv t h S" "ack_due now h"
  shows "\<exists>f h'. rp_GetAckFrame now h = Inr (Some f, h') \<and> S \<noteq> {}
    \<and> ack_LargestAcked f = rp_largestObserved h
    \<and> blocks_accepted (ack_LargestAcked f) (ack_LowestAcked f) (ack_AckRanges f)
    \<and> (\<forall>p. ack_AcksPacket f p \<longleftrightarrow> unat p \<in> S)"
proof -
  have inv: "history_inv (rp_packetHistory h)" "history_seen (rp_packetHistory h) = S"
    using assms by (simp_all add: handler_inv_def)
  have "rp_largestObserved h \<noteq> 0" using assms by (auto simp: handler_inv_def ack_due_def split: if_splits)
  then have "S \<noteq> {}" using assms(1) by (auto simp: handler_inv_def split: if_splits)
  then obtain r rs where r: "history_GetAckRanges (rp_packetHistory h) = r # rs"
    using handler_ranges(1) [OF assms(1)] by (cases "history_GetAckRanges (rp_packetHistory h)") auto
  have "Last r = rp_largestObserved h" by (rule handler_ranges(2) [OF assms(1) r])
  with history.acks_seen [OF inv(1) r] r inv(2) assms(2) \<open>S \<noteq> {}\<close> show ?thesis
    by (auto simp: rp_GetAckFrame_def ack_due_def ack_AcksPacket_def Let_def)
qed

lemma no_ack_due: "\<not> ack_due now h \<Longrightarrow> rp_GetAckFrame now h = Inr (None, h)"
  by (auto simp: rp_GetAckFrame_def ack_due_def)

lemma maybeQueueAck_due:
  assumes "0 \<le> now" "rp_ackSendDelay h = AckSendDelay"
  shows "rp_ackQueued (maybeQueueAck now h p True) \<or> rp_ackAlarm (maybeQueueAck now h p True) \<noteq> zero_time"
    and "1 \<le> rp_retransmittablePacketsReceivedSinceLastAck h \<Longrightarrow> rp_ackQueued (maybeQueueAck now h p True)"
proof -
  let ?g = "queueNewGap (queueReported p (queueEvery20 (queueFirst (countPacket True h))))"
  have "rp_ackQueued (queueOrAlarm now True ?g) \<or> rp_ackAlarm (queueOrAlarm now True ?g) \<noteq> zero_time"
    using assms by (simp add: queueOrAlarm_def time_add_def)
  then show "rp_ackQueued (maybeQueueAck now h p True) \<or> rp_ackAlarm (maybeQueueAck now h p True) \<noteq> zero_time"
    by (auto simp: maybeQueueAck_def cancelAlarm_def)
  assume "1 \<le> rp_retransmittablePacketsReceivedSinceLastAck h"
  moreover have "rp_retransmittablePacketsReceivedSinceLastAck ?g = rp_retransmittablePacketsReceivedSinceLastAck h + 1"
    by (simp add: queue_steps Let_def split: option.splits)
  ultimately have "rp_ackQueued (queueOrAlarm now True ?g)"
    by (simp add: queueOrAlarm_def RetransmittablePacketsBeforeAck_def)
  then show "rp_ackQueued (maybeQueueAck now h p True)" by (simp add: maybeQueueAck_def cancelAlarm_def)
qed

section \<open>Properties\<close>

text \<open>C3. In every state that a handler reaches, asking it for an ACK does not panic, and the frame it returns
  acknowledges exactly the packets received and not given up by the sender: its largest number is the largest of them
  and \<^verbatim>\<open>AcksPacket\<close> holds for these packets and no others.\<close>

theorem ack_frame_reports_received_packets:
  assumes "handler_run t h S"
  shows "rp_GetAckFrame now h \<noteq> Inl Panic
    \<and> (\<forall>f h'. rp_GetAckFrame now h = Inr (Some f, h') \<longrightarrow>
         unat (ack_LargestAcked f) = Max S \<and> (\<forall>p. ack_AcksPacket f p \<longleftrightarrow> unat p \<in> S))"
proof (cases "ack_due now h")
  case True
  have inv: "handler_inv t h S" by (rule handler_run_inv [OF assms])
  obtain f h' where f: "rp_GetAckFrame now h = Inr (Some f, h')" "S \<noteq> {}" "ack_LargestAcked f = rp_largestObserved h"
    "\<forall>p. ack_AcksPacket f p \<longleftrightarrow> unat p \<in> S"
    using ack_due_frame [OF inv True] by blast
  have "unat (rp_largestObserved h) \<in> S" "\<forall>n \<in> S. n \<le> unat (rp_largestObserved h)"
    using inv f(2) by (auto simp: handler_inv_def split: if_splits)
  then have "Max S = unat (rp_largestObserved h)"
    by (intro Max_eqI) (auto intro: finite_subset [of _ "{..unat (rp_largestObserved h)}"])
  with f show ?thesis by auto
qed (simp add: no_ack_due)

lemma handler_run_example:
  "handler_run 10 (snd (rp_ReceivedPacket 10 (NewReceivedPacketHandler 39) 5 True 0)) {5}"
proof -
  have "rp_ReceivedPacket 10 (NewReceivedPacketHandler 39) 5 True 0
    = (None, snd (rp_ReceivedPacket 10 (NewReceivedPacketHandler 39) 5 True 0))"
    by (simp add: rp_ReceivedPacket_def NewReceivedPacketHandler_def newReceivedPacketHistory_def
        history_ReceivedPacket_def MaxTrackedReceivedAckRanges_def)
  from run_receive [OF run_new [of 0 39] _ this] show ?thesis by (simp add: NewReceivedPacketHandler_def)
qed

lemma ack_frame_reports_received_packets_witness:
  "rp_GetAckFrame 20 (snd (rp_ReceivedPacket 10 (NewReceivedPacketHandler 39) 5 True 0)) \<noteq> Inl Panic"
  using ack_frame_reports_received_packets [OF handler_run_example] by blast

text \<open>C7. A packet that has to be acknowledged is acknowledged in time: when it is recorded at time \<open>now\<close>, then from
  25 milliseconds later on the handler returns an ACK frame for it, and at once when it is the second such packet since
  the last ACK.\<close>

theorem ack_sent_in_time:
  assumes "handler_run t h S" "t \<le> now" "rp_ReceivedPacket now h p True len = (None, h')" "p > rp_lowerLimit h"
    and "now + 25 * Millisecond \<le> now' \<or> 1 \<le> rp_retransmittablePacketsReceivedSinceLastAck h"
  shows "\<exists>f h''. rp_GetAckFrame now' h' = Inr (Some f, h'') \<and> ack_AcksPacket f p"
proof -
  have inv: "handler_inv t h S" by (rule handler_run_inv [OF assms(1)])
  have inv': "handler_inv now h' (insert (unat p) S)"
    using handler_inv_receive [OF inv assms(2,3)] assms(4) by (cases "p \<le> rp_lowerLimit h") auto
  obtain g where h': "h' = maybeQueueAck now g p True" and g: "rp_ackSendDelay g = AckSendDelay"
    "rp_retransmittablePacketsReceivedSinceLastAck g = rp_retransmittablePacketsReceivedSinceLastAck h"
    using assms(3,4) inv by (auto simp: rp_ReceivedPacket_def Let_def handler_inv_def split: if_splits sum.splits)
  have "0 \<le> now" using inv assms(2) by (simp add: handler_inv_def)
  have "rp_ackAlarm h' \<le> now + AckSendDelay" using inv' by (simp add: handler_inv_def)
  then have "ack_due now' h'"
    using maybeQueueAck_due [OF \<open>0 \<le> now\<close> g(1), of p] g(2) assms(5) by (auto simp: ack_due_def h')
  from ack_due_frame [OF inv' this] show ?thesis by auto
qed

lemma ack_sent_in_time_witness:
  "let h = NewReceivedPacketHandler 39; h' = snd (rp_ReceivedPacket 10 h 5 True 0)
   in \<exists>f h''. rp_GetAckFrame 25000010 h' = Inr (Some f, h'') \<and> ack_AcksPacket f 5"
proof -
  have r: "rp_ReceivedPacket 10 (NewReceivedPacketHandler 39) 5 True 0
    = (None, snd (rp_ReceivedPacket 10 (NewReceivedPacketHandler 39) 5 True 0))"
    by (simp add: rp_ReceivedPacket_def NewReceivedPacketHandler_def newReceivedPacketHistory_def
        history_ReceivedPacket_def MaxTrackedReceivedAckRanges_def)
  show ?thesis unfolding Let_def
    by (rule ack_sent_in_time [OF run_new [of 0 39] _ r]) (simp_all add: NewReceivedPacketHandler_def)
qed

text \<open>C30. Building a close path frame panics exactly when the path has no received packet to report, in particular on
  a path that was created but has not received a packet yet.\<close>

theorem close_path_frame_panics_iff:
  assumes "handler_run t h S"
  shows "rp_GetClosePathFrame h = Inl Panic \<longleftrightarrow> S = {}"
  using handler_ranges(1) [OF handler_run_inv [OF assms]] by (auto simp: rp_GetClosePathFrame_def Let_def)

lemma close_path_frame_panics_iff_witness:
  "rp_GetClosePathFrame (NewReceivedPacketHandler 39) = Inl Panic"
  using close_path_frame_panics_iff [OF run_new [of 0 39]] by simp

end
