(* ===== verification/Stream_Sorter.thy ===== *)
theory Stream_Sorter
  imports Received_Packets
begin

text \<open>The reassembly of a stream (\<^verbatim>\<open>stream_frame_sorter.go\<close>): a map of queued frames by their offset and the list
  of gaps, the parts of the stream that have not been received. Frames may arrive in any order and may overlap.\<close>

section \<open>Definitions\<close>

record ByteInterval =
  gStart :: ByteCount
  gEnd :: ByteCount

record streamFrameSorter =
  so_queuedFrames :: "ByteCount \<Rightarrow> StreamFrame option"
  so_readPosition :: ByteCount
  so_gaps :: "ByteInterval list"

definition protocol_MaxByteCount :: ByteCount where "protocol_MaxByteCount = - 1"
definition MaxStreamFrameSorterGaps :: nat where "MaxStreamFrameSorterGaps = 2500"

definition newStreamFrameSorter :: streamFrameSorter where
  "newStreamFrameSorter =
     \<lparr>so_queuedFrames = (\<lambda>_. None), so_readPosition = 0, so_gaps = [\<lparr>gStart = 0, gEnd = protocol_MaxByteCount\<rparr>]\<rparr>"

text \<open>A frame that starts at a queued frame is cut to what the queued frame does not have. The result is the frame,
  or the error for a duplicate.\<close>

definition cutQueued :: "streamFrameSorter \<Rightarrow> StreamFrame \<Rightarrow> StreamFrame result" where
  "cutQueued s frame =
     (case so_queuedFrames s (sf_Offset frame) of
        Some oldFrame \<Rightarrow>
          if sf_DataLen frame \<le> sf_DataLen oldFrame then Inl errDuplicateStreamData
          else Inr (frame\<lparr>sf_Data := drop (unat (sf_DataLen oldFrame)) (sf_Data frame),
                          sf_Offset := sf_Offset frame + sf_DataLen oldFrame\<rparr>)
      | None \<Rightarrow> Inr frame)"

text \<open>The search for the first gap that the frame touches. \<open>before\<close> collects the skipped gaps; the result splits
  the list into them, the gap and the gaps after it.\<close>

fun findGap ::
  "ByteCount \<Rightarrow> ByteCount \<Rightarrow> ByteInterval list \<Rightarrow> ByteInterval list
   \<Rightarrow> (ByteInterval list \<times> ByteInterval \<times> ByteInterval list) result" where
  "findGap start end before [] = Inl (OtherError ''StreamFrameSorter BUG: no gap found'')"
| "findGap start end before (gap # after) =
     (if end \<le> gStart gap then Inl errDuplicateStreamData
      else if end > gStart gap \<and> start \<le> gEnd gap then Inr (before, gap, after)
      else findGap start end (before @ [gap]) after)"

definition cutStart :: "ByteInterval \<Rightarrow> StreamFrame \<Rightarrow> StreamFrame" where
  "cutStart gap frame =
     (if sf_Offset frame < gStart gap then
        (let add = gStart gap - sf_Offset frame
         in frame\<lparr>sf_Offset := sf_Offset frame + add, sf_Data := drop (unat add) (sf_Data frame)\<rparr>)
      else frame)"

text \<open>The search for the last gap before the end of the frame. \<open>isGap\<close> tells whether \<open>endGap\<close> is the first gap; the
  other gaps that the frame reaches beyond are removed from the list. The result is the end gap, whether it is the
  first gap, whether it is still in the list, the gaps after it and the queued frames. A missing gap is an error, which
  leaves the gaps in the list that have not been removed.\<close>

fun findEndGap ::
  "ByteCount \<Rightarrow> bool \<Rightarrow> ByteInterval \<Rightarrow> ByteInterval list \<Rightarrow> (ByteCount \<Rightarrow> StreamFrame option)
   \<Rightarrow> (ByteInterval list \<times> (ByteCount \<Rightarrow> StreamFrame option))
      + (ByteInterval \<times> bool \<times> bool \<times> ByteInterval list \<times> (ByteCount \<Rightarrow> StreamFrame option))" where
  "findEndGap end isGap endGap [] queued =
     (if end \<ge> gEnd endGap then Inl (if isGap then [] else [endGap], queued)
      else Inr (endGap, isGap, True, [], queued))"
| "findEndGap end isGap endGap (nextEndGap # rest) queued =
     (if end \<ge> gEnd endGap then
        (if end \<le> gStart nextEndGap then Inr (endGap, isGap, isGap, nextEndGap # rest, queued)
         else findEndGap end False nextEndGap rest (queued(gEnd endGap := None)))
      else Inr (endGap, isGap, True, nextEndGap # rest, queued))"

definition cutEnd :: "ByteCount \<Rightarrow> ByteInterval \<Rightarrow> StreamFrame \<Rightarrow> ByteCount \<times> StreamFrame" where
  "cutEnd end endGap frame =
     (if end > gEnd endGap then
        (let cutLen = end - gEnd endGap; len = sf_DataLen frame - cutLen
         in (end - cutLen, frame\<lparr>sf_Data := take (unat len) (sf_Data frame)\<rparr>))
      else (end, frame))"

text \<open>The update of the gaps. The result replaces the gaps from the first gap to the end gap.\<close>

definition adjustGaps ::
  "ByteCount \<Rightarrow> ByteCount \<Rightarrow> ByteInterval \<Rightarrow> ByteInterval \<Rightarrow> bool \<Rightarrow> bool \<Rightarrow> ByteInterval list" where
  "adjustGaps start end gap endGap isGap present =
     (if start = gStart gap then
        (if isGap then
           (if end \<ge> gEnd gap then []
            else if end < gEnd endGap then [gap\<lparr>gStart := end\<rparr>] else [gap])
         else (if end \<ge> gEnd gap then [] else [gap])
           @ (if present then [if end < gEnd endGap then endGap\<lparr>gStart := end\<rparr> else endGap] else []))
      else if end = gEnd endGap then
        gap\<lparr>gEnd := start\<rparr> # (if \<not> isGap \<and> present then [endGap] else [])
      else if isGap then [gap\<lparr>gEnd := start\<rparr>, \<lparr>gStart = end, gEnd = gEnd gap\<rparr>]
      else gap\<lparr>gEnd := start\<rparr> # (if present then [endGap\<lparr>gStart := end\<rparr>] else []))"

text \<open>The sorter is changed also when an error is returned.\<close>

definition so_Push :: "streamFrameSorter \<Rightarrow> StreamFrame \<Rightarrow> goerror option \<times> streamFrameSorter" where
  "so_Push s frame =
     (if sf_DataLen frame = 0 then
        (if sf_FinBit frame then
           (None, s\<lparr>so_queuedFrames := (so_queuedFrames s)(sf_Offset frame \<mapsto> frame)\<rparr>)
         else (Some errEmptyStreamData, s))
      else
        (case cutQueued s frame of
           Inl err \<Rightarrow> (Some err, s)
         | Inr frame \<Rightarrow>
             let end = sf_Offset frame + sf_DataLen frame
             in case findGap (sf_Offset frame) end [] (so_gaps s) of
                  Inl err \<Rightarrow> (Some err, s)
                | Inr (before, gap, after) \<Rightarrow>
                    let frame = cutStart gap frame; start = sf_Offset frame
                    in case findEndGap end True gap after (so_queuedFrames s) of
                         Inl (kept, queued) \<Rightarrow>
                           (Some (OtherError ''StreamFrameSorter BUG: no end gap found''),
                            s\<lparr>so_gaps := before @ gap # kept, so_queuedFrames := queued\<rparr>)
                       | Inr (endGap, isGap, present, rest, queued) \<Rightarrow>
                           let (end, frame) = cutEnd end endGap frame;
                               gaps = before @ adjustGaps start end gap endGap isGap present @ rest;
                               s = s\<lparr>so_gaps := gaps, so_queuedFrames := queued\<rparr>
                           in if length gaps > MaxStreamFrameSorterGaps
                              then (Some errTooManyGapsInReceivedStreamData, s)
                              else (None, s\<lparr>so_queuedFrames := queued(sf_Offset frame \<mapsto> frame)\<rparr>)))"

definition so_Head :: "streamFrameSorter \<Rightarrow> StreamFrame option" where
  "so_Head s = so_queuedFrames s (so_readPosition s)"

definition so_Pop :: "streamFrameSorter \<Rightarrow> StreamFrame option \<times> streamFrameSorter" where
  "so_Pop s =
     (case so_Head s of
        Some frame \<Rightarrow> (Some frame, s\<lparr>so_readPosition := so_readPosition s + sf_DataLen frame,
             so_queuedFrames := (so_queuedFrames s)(sf_Offset frame := None)\<rparr>)
      | None \<Rightarrow> (None, s))"

section \<open>The list of gaps\<close>

definition in_gap :: "ByteInterval list \<Rightarrow> nat \<Rightarrow> bool" where
  "in_gap gs n \<longleftrightarrow> (\<exists>g \<in> set gs. unat (gStart g) \<le> n \<and> n < unat (gEnd g))"

abbreviation gap_before_gap :: "ByteInterval \<Rightarrow> ByteInterval \<Rightarrow> bool" where
  "gap_before_gap g h \<equiv> unat (gEnd g) < unat (gStart h)"

definition gaps_ok :: "ByteInterval list \<Rightarrow> bool" where
  "gaps_ok gs \<longleftrightarrow> (\<forall>g \<in> set gs. unat (gStart g) < unat (gEnd g)) \<and> sorted_wrt gap_before_gap gs
     \<and> gs \<noteq> [] \<and> gEnd (last gs) = protocol_MaxByteCount"

lemma in_gap_simps [simp]:
  "in_gap [] n = False" "in_gap (g # gs) n = (unat (gStart g) \<le> n \<and> n < unat (gEnd g) \<or> in_gap gs n)"
  "in_gap (gs @ hs) n = (in_gap gs n \<or> in_gap hs n)"
  by (auto simp: in_gap_def)

lemma gaps_ok_Cons:
  "gaps_ok (g # gs) \<longleftrightarrow> unat (gStart g) < unat (gEnd g)
     \<and> (if gs = [] then gEnd g = protocol_MaxByteCount else gap_before_gap g (hd gs) \<and> gaps_ok gs)"
proof (cases gs)
  case (Cons h hs)
  have "\<forall>x \<in> set hs. gap_before_gap g x"
    if "gap_before_gap g h" "unat (gStart h) < unat (gEnd h)" "\<forall>x \<in> set hs. gap_before_gap h x"
    using that by fastforce
  with Cons show ?thesis by (auto simp: gaps_ok_def)
qed (auto simp: gaps_ok_def)

lemma gaps_ok_append:
  "hs \<noteq> [] \<Longrightarrow> gaps_ok (gs @ hs) \<longleftrightarrow> (\<forall>g \<in> set gs. unat (gStart g) < unat (gEnd g)) \<and> sorted_wrt gap_before_gap gs
     \<and> (\<forall>g \<in> set gs. \<forall>h \<in> set hs. gap_before_gap g h) \<and> gaps_ok hs"
  by (auto simp: gaps_ok_def sorted_wrt_append)

lemma gaps_ok_after: "gaps_ok (gs @ hs) \<Longrightarrow> hs \<noteq> [] \<Longrightarrow> gaps_ok hs"
  by (simp add: gaps_ok_append)

lemma unat_max: "unat protocol_MaxByteCount = 2 ^ 64 - 1"
  by (simp add: protocol_MaxByteCount_def unsigned_minus_1_eq_mask mask_eq_exp_minus_1)

text \<open>The gaps skipped lie before the frame; the gap found reaches it.\<close>

lemma findGap_cases:
  assumes "gaps_ok gs" "unat start < unat end" "unat end < unat protocol_MaxByteCount"
  shows "case findGap start end before gs of
      Inl e \<Rightarrow> e = errDuplicateStreamData \<and> (\<forall>n. unat start \<le> n \<and> n < unat end \<longrightarrow> \<not> in_gap gs n)
    | Inr (before', gap, after) \<Rightarrow> \<exists>skipped. before' = before @ skipped \<and> gs = skipped @ gap # after
        \<and> unat (gStart gap) < unat end \<and> unat start \<le> unat (gEnd gap)
        \<and> (\<forall>g \<in> set skipped. unat (gEnd g) < unat start)"
  using assms
proof (induction gs arbitrary: before)
  case Nil
  then show ?case by (simp add: gaps_ok_def)
next
  case (Cons g gs)
  consider (dup) "unat end \<le> unat (gStart g)" | (found) "unat (gStart g) < unat end" "unat start \<le> unat (gEnd g)"
    | (skip) "unat (gStart g) < unat end" "unat (gEnd g) < unat start" by linarith
  then show ?case
  proof cases
    case dup
    have "\<not> in_gap (g # gs) n" if "n < unat end" for n
    proof -
      have "unat (gStart g) \<le> unat (gStart h)" if "h \<in> set (g # gs)" for h
        using Cons.prems(1) that by (fastforce simp: gaps_ok_def)
      with dup \<open>n < unat end\<close> show ?thesis unfolding in_gap_def by fastforce
    qed
    with dup show ?thesis by (simp add: word_le_nat_alt del: in_gap_simps)
  next
    case found
    then show ?thesis by (simp add: word_le_nat_alt word_less_nat_alt)
  next
    case skip
    then have "gs \<noteq> []" using Cons.prems by (auto simp: gaps_ok_Cons)
    then have "gaps_ok gs" using Cons.prems(1) by (simp add: gaps_ok_Cons)
    have step: "findGap start end before (g # gs) = findGap start end (before @ [g]) gs"
      using skip by (simp add: word_le_nat_alt word_less_nat_alt)
    have notin: "\<not> (unat (gStart g) \<le> n \<and> n < unat (gEnd g))" if "unat start \<le> n" for n using skip that by simp
    show ?thesis
    proof (cases "findGap start end (before @ [g]) gs")
      case (Inl e)
      with Cons.IH [OF \<open>gaps_ok gs\<close> Cons.prems(2,3), of "before @ [g]"] step notin show ?thesis by simp
    next
      case (Inr x)
      obtain b p a where x: "x = (b, p, a)" by (cases x)
      from Cons.IH [OF \<open>gaps_ok gs\<close> Cons.prems(2,3), of "before @ [g]"] Inr x
      obtain sk where "b = before @ g # sk" "gs = sk @ p # a" "unat (gStart p) < unat end" "unat start \<le> unat (gEnd p)"
        "\<forall>g \<in> set sk. unat (gEnd g) < unat start" by auto
      with skip show ?thesis unfolding step Inr x by (auto intro!: exI [of _ "g # sk"])
    qed
  qed
qed

lemma findEndGap_cases:
  assumes "gaps_ok (e # after)" "unat (gStart e) < unat end" "unat end < unat protocol_MaxByteCount"
  shows "\<exists>mid e' rest present. e # after = mid @ e' # rest
    \<and> findEndGap end isGap e after q = Inr (e', isGap \<and> mid = [], present, rest,
        \<lambda>k. if k \<in> gEnd ` set mid then None else q k)
    \<and> present = (isGap \<and> mid = [] \<or> unat end < unat (gEnd e'))
    \<and> unat (gStart e') < unat end
    \<and> (unat end < unat (gEnd e') \<or> rest \<noteq> [] \<and> unat end \<le> unat (gStart (hd rest)))"
  using assms
proof (induction after arbitrary: e isGap q)
  case Nil
  then have "unat end < unat (gEnd e)" by (simp add: gaps_ok_Cons)
  then show ?case using Nil.prems(2) by (intro exI [of _ "[]"]) (simp add: word_le_nat_alt)
next
  case (Cons nxt rest)
  consider (within) "unat end < unat (gEnd e)" | (stop) "unat (gEnd e) \<le> unat end" "unat end \<le> unat (gStart nxt)"
    | (go) "unat (gEnd e) \<le> unat end" "unat (gStart nxt) < unat end" by linarith
  then show ?case
  proof cases
    case within
    then show ?thesis using Cons.prems(2) by (intro exI [of _ "[]"]) (simp add: word_le_nat_alt)
  next
    case stop
    then show ?thesis using Cons.prems(2) by (intro exI [of _ "[]"]) (auto simp: word_le_nat_alt)
  next
    case go
    then have step: "findEndGap end isGap e (nxt # rest) q = findEndGap end False nxt rest (q(gEnd e := None))"
      by (simp add: word_le_nat_alt)
    have "gaps_ok (nxt # rest)" using Cons.prems(1) by (simp add: gaps_ok_Cons [of e])
    define q1 where "q1 = q(gEnd e := None)"
    from Cons.IH [OF \<open>gaps_ok (nxt # rest)\<close> go(2) Cons.prems(3), of False q1] obtain mid e' rest' where
      "nxt # rest = mid @ e' # rest'"
      "findEndGap end False nxt rest q1 = Inr (e', False, unat end < unat (gEnd e'), rest',
        \<lambda>k. if k \<in> gEnd ` set mid then None else q1 k)"
      "unat (gStart e') < unat end"
      "unat end < unat (gEnd e') \<or> rest' \<noteq> [] \<and> unat end \<le> unat (gStart (hd rest'))" by auto
    then show ?thesis unfolding step q1_def by (intro exI [of _ "e # mid"]) (auto intro!: ext)
  qed
qed
text \<open>The update of the gaps takes the range of the frame out of them.\<close>

lemma adjustGaps_eq:
  assumes "isGap \<Longrightarrow> endGap = gap \<and> present"
    "\<not> isGap \<Longrightarrow> present = (end < gEnd endGap) \<and> gEnd gap \<le> end"
    "end \<le> gEnd endGap"
  shows "adjustGaps start end gap endGap isGap present =
     (if start = gStart gap then [] else [\<lparr>gStart = gStart gap, gEnd = start\<rparr>])
     @ (if end = gEnd endGap then [] else [\<lparr>gStart = end, gEnd = gEnd endGap\<rparr>])"
proof (cases isGap)
  case True
  with assms show ?thesis by (cases gap) (auto simp: adjustGaps_def)
next
  case False
  with assms show ?thesis by (cases gap; cases endGap) (auto simp: adjustGaps_def)
qed

lemma gaps_ok_carve:
  assumes "gaps_ok (before @ (mid @ e # rest))"
    and gap: "gap = hd (mid @ [e])"
    and range: "unat (gStart gap) \<le> unat start" "unat start < unat (gEnd gap)" "unat (gStart e) < unat end"
      "unat end \<le> unat (gEnd e)" "unat start < unat end" "end = gEnd e \<longrightarrow> rest \<noteq> []"
  defines "new \<equiv> before @ ((if start = gStart gap then [] else [\<lparr>gStart = gStart gap, gEnd = start\<rparr>])
     @ (if end = gEnd e then [] else [\<lparr>gStart = end, gEnd = gEnd e\<rparr>])) @ rest"
  shows "gaps_ok new"
    "in_gap new n \<longleftrightarrow> in_gap (before @ (mid @ e # rest)) n \<and> \<not> (unat start \<le> n \<and> n < unat end)"
proof -
  have gap_mem: "gap \<in> set (mid @ [e])" unfolding gap by (rule hd_in_set) simp
  have ok: "gaps_ok (before @ mid @ e # rest)" using assms(1) by simp
  have lt: "\<And>g. g \<in> set before \<union> set mid \<union> {e} \<union> set rest \<Longrightarrow> unat (gStart g) < unat (gEnd g)"
    and bg: "\<And>b. b \<in> set before \<Longrightarrow> unat (gEnd b) < unat (gStart gap)"
    and br: "\<And>b r. b \<in> set before \<Longrightarrow> r \<in> set rest \<Longrightarrow> unat (gEnd b) < unat (gStart r)"
    and er: "\<And>r. r \<in> set rest \<Longrightarrow> unat (gEnd e) < unat (gStart r)"
    and me: "\<And>m. m \<in> set mid \<Longrightarrow> unat (gEnd m) < unat (gStart e)"
    and sb: "sorted_wrt gap_before_gap before" and sr: "sorted_wrt gap_before_gap rest"
    and la: "gEnd (last (e # rest)) = protocol_MaxByteCount"
    using ok gap_mem by (auto simp: gaps_ok_def sorted_wrt_append)
  have gap_head: "unat (gEnd gap) < unat (gStart m)" if "m \<in> set (mid @ [e])" "m \<noteq> gap" for m
  proof (cases mid)
    case (Cons x xs)
    with ok gap that show ?thesis by (auto simp: gaps_ok_def sorted_wrt_append)
  qed (use that gap in simp)
  have "gap \<in> set mid \<union> {e}" using gap_mem by simp
  then have gap_lt: "unat (gStart gap) < unat (gEnd gap)" using lt by blast
  have gm: "unat (gEnd gap) \<le> unat (gEnd m)" "unat (gStart gap) \<le> unat (gStart m)"
    "m = gap \<or> unat (gEnd gap) < unat (gStart m)" if "m \<in> set (mid @ [e])" for m
    using that gap_lt lt [of m] gap_head [of m] by (cases "m = gap"; auto)+
  have ge: "unat (gEnd gap) \<le> unat (gEnd e)" by (rule gm) simp
  have be: "unat (gEnd b) < unat end" if "b \<in> set before" for b using bg [OF that] range by linarith
  have sr2: "unat start < unat (gStart r)" "unat end < unat (gStart r)" if "r \<in> set rest" for r
    using er [OF that] range by linarith+
  have neq: "end \<noteq> gEnd e \<Longrightarrow> unat end < unat (gEnd e)" "start \<noteq> gStart gap \<Longrightarrow> unat (gStart gap) < unat start"
    using range(1,4) by (auto simp: le_less word_unat_eq_iff)
  define L where "L = (if start = gStart gap then [] else [\<lparr>gStart = gStart gap, gEnd = start\<rparr>])"
  define M where "M = (if end = gEnd e then [] else [\<lparr>gStart = end, gEnd = gEnd e\<rparr>])"
  have L: "x \<in> set L \<Longrightarrow> gStart x = gStart gap \<and> gEnd x = start \<and> unat (gStart gap) < unat start" for x
    using neq(2) by (auto simp: L_def split: if_splits)
  have M: "x \<in> set M \<Longrightarrow> gStart x = end \<and> gEnd x = gEnd e \<and> unat end < unat (gEnd e)" for x
    using neq(1) by (auto simp: M_def split: if_splits)
  have new: "new = before @ L @ M @ rest" by (simp add: new_def L_def M_def)
  have "sorted_wrt gap_before_gap L" "sorted_wrt gap_before_gap M" by (simp_all add: L_def M_def)
  moreover have "gap_before_gap x y" if "x \<in> set L" "y \<in> set M \<union> set rest" for x y
    using L [OF that(1)] M [of y] sr2 [of y] that(2) range(5) by auto
  moreover have "gap_before_gap x y" if "x \<in> set M" "y \<in> set rest" for x y
    using M [OF that(1)] er [OF that(2)] by simp
  moreover have "gap_before_gap x y" if "x \<in> set before" "y \<in> set L \<union> set M \<union> set rest" for x y
    using bg [OF that(1)] be [OF that(1)] br [OF that(1)] L [of y] M [of y] that(2) by auto
  ultimately have "sorted_wrt gap_before_gap new"
    unfolding new sorted_wrt_append set_append using sb sr by blast
  moreover have "unat (gStart g) < unat (gEnd g)" if "g \<in> set new" for g
    using that lt [of g] L [of g] M [of g] unfolding new by auto
  moreover have "new \<noteq> []" "gEnd (last new) = protocol_MaxByteCount"
    using la range(6) unfolding new M_def by (cases "rest = []"; simp)+
  ultimately show "gaps_ok new" unfolding gaps_ok_def by blast
  show "in_gap new n \<longleftrightarrow> in_gap (before @ (mid @ e # rest)) n \<and> \<not> (unat start \<le> n \<and> n < unat end)"
    (is "_ \<longleftrightarrow> ?old \<and> _")
  proof -
    have b: "in_gap before n \<Longrightarrow> n < unat start" using bg range by (fastforce simp: in_gap_def)
    have r: "in_gap rest n \<Longrightarrow> unat end \<le> n" using sr2 by (fastforce simp: in_gap_def)
    have m: "in_gap (mid @ [e]) n \<and> \<not> (unat start \<le> n \<and> n < unat end) \<longleftrightarrow>
      (unat (gStart gap) \<le> n \<and> n < unat start) \<or> (unat end \<le> n \<and> n < unat (gEnd e))" (is "?l = ?r")
    proof
      assume ?l
      then obtain m where m: "m \<in> set (mid @ [e])" "unat (gStart m) \<le> n" "n < unat (gEnd m)"
        "\<not> (unat start \<le> n \<and> n < unat end)" unfolding in_gap_def by auto
      have "unat (gEnd m) \<le> unat (gEnd e)" using m(1) me [of m] lt [of e] by fastforce
      with m gm [OF m(1)] show ?r by linarith
    next
      assume ?r
      then show ?l
      proof
        assume n: "unat (gStart gap) \<le> n \<and> n < unat start"
        with range have "unat (gStart gap) \<le> n \<and> n < unat (gEnd gap)" by linarith
        with gap_mem n show ?l unfolding in_gap_def by auto
      next
        assume n: "unat end \<le> n \<and> n < unat (gEnd e)"
        with range show ?l by (auto simp: in_gap_def)
      qed
    qed
    have "?old \<longleftrightarrow> in_gap before n \<or> in_gap (mid @ [e]) n \<or> in_gap rest n" by auto
    moreover have "in_gap new n \<longleftrightarrow> in_gap before n
      \<or> (unat (gStart gap) \<le> n \<and> n < unat start) \<or> (unat end \<le> n \<and> n < unat (gEnd e)) \<or> in_gap rest n"
      unfolding new_def by auto
    moreover have "\<not> (unat start \<le> n \<and> n < unat end)" if "in_gap before n \<or> in_gap rest n" using that b r by auto
    ultimately show ?thesis using m by blast
  qed
qed

section \<open>Received data\<close>

text \<open>\<open>D\<close> is the data of the whole stream. The data of a frame is the part of it at the offset, and an empty frame, which
  carries the FIN bit, stands at its end.\<close>

definition carries :: "u8 list \<Rightarrow> StreamFrame \<Rightarrow> bool" where
  "carries D f \<longleftrightarrow> unat (sf_Offset f) + length (sf_Data f) \<le> length D
     \<and> sf_Data f = take (length (sf_Data f)) (drop (unat (sf_Offset f)) D)
     \<and> (sf_Data f = [] \<longrightarrow> unat (sf_Offset f) = length D)"

text \<open>The data from one position of the stream to another is queued in a chain of frames.\<close>

inductive tiled :: "(ByteCount \<Rightarrow> StreamFrame option) \<Rightarrow> nat \<Rightarrow> nat \<Rightarrow> bool" for q where
  tiled_refl: "tiled q n n"
| tiled_frame: "q k = Some f \<Longrightarrow> sf_Data f \<noteq> [] \<Longrightarrow> tiled q (unat k + length (sf_Data f)) m \<Longrightarrow> tiled q (unat k) m"

fun blocks_tiled :: "(ByteCount \<Rightarrow> StreamFrame option) \<Rightarrow> nat \<Rightarrow> ByteInterval list \<Rightarrow> bool" where
  "blocks_tiled q a [] = True"
| "blocks_tiled q a (g # gs) = (tiled q a (unat (gStart g)) \<and> blocks_tiled q (unat (gEnd g)) gs)"

definition blocks_end :: "nat \<Rightarrow> ByteInterval list \<Rightarrow> nat" where
  "blocks_end a gs = (if gs = [] then a else unat (gEnd (last gs)))"

definition sorter_inv :: "u8 list \<Rightarrow> streamFrameSorter \<Rightarrow> bool" where
  "sorter_inv D s \<longleftrightarrow> length D < unat protocol_MaxByteCount \<and> gaps_ok (so_gaps s)
     \<and> unat (so_readPosition s) \<le> unat (gStart (hd (so_gaps s)))
     \<and> (\<forall>k f. so_queuedFrames s k = Some f \<longrightarrow> sf_Offset f = k \<and> carries D f
          \<and> (\<forall>n. unat k \<le> n \<and> n < unat k + length (sf_Data f) \<longrightarrow> \<not> in_gap (so_gaps s) n))
     \<and> blocks_tiled (so_queuedFrames s) (unat (so_readPosition s)) (so_gaps s)"

lemma tiled_trans: "tiled q a b \<Longrightarrow> tiled q b c \<Longrightarrow> tiled q a c"
  by (induction rule: tiled.induct) (auto intro: tiled_frame)

lemma tiled_le: "tiled q a b \<Longrightarrow> a \<le> b"
  by (induction rule: tiled.induct) auto

lemma tiled_cong:
  "tiled q a b \<Longrightarrow> (\<And>k. a \<le> unat k \<Longrightarrow> unat k < b \<Longrightarrow> q' k = q k) \<Longrightarrow> tiled q' a b"
proof (induction rule: tiled.induct)
  case (tiled_frame k f m)
  have "unat k < m" using tiled_le [OF tiled_frame(3)] tiled_frame(2) by (cases "sf_Data f") auto
  with tiled_frame show ?case by (intro tiled.tiled_frame [of q' k f]) auto
qed (rule tiled.tiled_refl)

lemma tiledE:
  assumes "tiled q (unat k) b" "unat k < b"
  obtains f where "q k = Some f" "sf_Data f \<noteq> []" "tiled q (unat k + length (sf_Data f)) b"
  using assms by (cases rule: tiled.cases) (auto simp: word_unat_eq_iff [symmetric])

lemma tiled_one: "q k = Some f \<Longrightarrow> sf_Data f \<noteq> [] \<Longrightarrow> m = unat k + length (sf_Data f) \<Longrightarrow> tiled q (unat k) m"
  by (auto intro: tiled.intros)

lemma blocks_tiled_append [simp]:
  "blocks_tiled q a (gs @ hs) \<longleftrightarrow> blocks_tiled q a gs \<and> blocks_tiled q (blocks_end a gs) hs"
  by (induction gs arbitrary: a) (auto simp: blocks_end_def)

lemma blocks_tiled_below:
  "blocks_tiled q a gs \<Longrightarrow> \<forall>g \<in> set gs. unat (gStart g) \<le> b \<Longrightarrow> (\<And>k. unat k < b \<Longrightarrow> q' k = q k)
   \<Longrightarrow> blocks_tiled q' a gs"
  by (induction gs arbitrary: a) (auto elim!: tiled_cong)

lemma blocks_tiled_above:
  "blocks_tiled q a gs \<Longrightarrow> b \<le> a \<Longrightarrow> \<forall>g \<in> set gs. b \<le> unat (gEnd g) \<Longrightarrow> (\<And>k. b \<le> unat k \<Longrightarrow> q' k = q k)
   \<Longrightarrow> blocks_tiled q' a gs"
  by (induction gs arbitrary: a) (auto elim!: tiled_cong)

text \<open>The chain of frames survives when the frame is queued in place of the part of the gaps that it fills.\<close>

lemma blocks_tiled_carve:
  assumes old: "blocks_tiled q a (before @ (mid @ e # rest))" and ok: "gaps_ok (before @ (mid @ e # rest))"
    and gap: "gap = hd (mid @ [e])"
    and range: "unat (gStart gap) \<le> unat start" "unat start < unat (gEnd gap)" "unat (gStart e) < unat end"
      "unat end \<le> unat (gEnd e)" "unat start < unat end" "end = gEnd e \<longrightarrow> rest \<noteq> []"
    and outside: "\<And>k. \<not> (unat start \<le> unat k \<and> unat k < unat end) \<Longrightarrow> q' k = q k"
    and frame: "q' start = Some f" "sf_Data f \<noteq> []" "unat end = unat start + length (sf_Data f)"
  shows "blocks_tiled q' a (before @ ((if start = gStart gap then [] else [\<lparr>gStart = gStart gap, gEnd = start\<rparr>])
     @ (if end = gEnd e then [] else [\<lparr>gStart = end, gEnd = gEnd e\<rparr>])) @ rest)"
proof -
  have b: "blocks_tiled q a before" and m: "blocks_tiled q (blocks_end a before) (mid @ [e])"
    and r: "blocks_tiled q (unat (gEnd e)) rest"
    using old by (auto simp: blocks_end_def)
  have gap_mem: "gap \<in> set (mid @ [e])" unfolding gap by (rule hd_in_set) simp
  have "unat (gStart g) \<le> unat start" if "g \<in> set before" for g
  proof -
    have "unat (gStart g) < unat (gEnd g)" "unat (gEnd g) < unat (gStart gap)"
      using ok gap_mem that by (auto simp: gaps_ok_def sorted_wrt_append)
    with range(1) show ?thesis by linarith
  qed
  then have "\<forall>g \<in> set before. unat (gStart g) \<le> unat start" by blast
  then have b': "blocks_tiled q' a before"
    by (rule blocks_tiled_below [OF b]) (use outside in auto)
  have "tiled q (blocks_end a before) (unat (gStart gap))" using m gap by (cases mid) auto
  then have t: "tiled q' (blocks_end a before) (unat (gStart gap))"
    by (rule tiled_cong) (use outside range(1) in auto)
  have t2: "tiled q' (unat start) (unat end)" using frame by (blast intro: tiled_one)
  have "unat (gEnd e) \<le> unat (gEnd g)" if "g \<in> set rest" for g
  proof -
    have "unat (gStart g) < unat (gEnd g)" "unat (gEnd e) < unat (gStart g)"
      using ok that by (auto simp: gaps_ok_def sorted_wrt_append)
    then show ?thesis by linarith
  qed
  then have r': "blocks_tiled q' (unat (gEnd e)) rest"
    by (intro blocks_tiled_above [OF r, of "unat (gEnd e)"]) (use outside range(4) in auto)
  have tr: "tiled q' c (unat (gStart (hd rest))) \<and> blocks_tiled q' (unat (gEnd (hd rest))) (tl rest)"
    if "rest \<noteq> []" "tiled q' c (unat (gEnd e))" for c
    using that r' by (cases rest) (auto intro: tiled_trans)
  have fin: "blocks_tiled q' c ((if end = gEnd e then [] else [\<lparr>gStart = end, gEnd = gEnd e\<rparr>]) @ rest)"
    if "tiled q' c (unat end)" for c
    using that r' tr [of c] range(6) by (cases rest) (auto simp: blocks_end_def)
  show ?thesis
  proof (cases "start = gStart gap")
    case True
    with t t2 have "tiled q' (blocks_end a before) (unat end)" by (auto intro: tiled_trans)
    with True b' fin show ?thesis by simp
  next
    case False
    with b' t fin [OF t2] show ?thesis by (simp add: blocks_end_def)
  qed
qed

lemma gap_end_queued:
  "gaps_ok gs \<Longrightarrow> blocks_tiled q a gs \<Longrightarrow> g \<in> set gs \<Longrightarrow> gEnd g \<noteq> protocol_MaxByteCount
   \<Longrightarrow> \<exists>f. q (gEnd g) = Some f \<and> sf_Data f \<noteq> []"
proof (induction gs arbitrary: a)
  case (Cons h gs)
  show ?case
  proof (cases "g \<in> set gs")
    case True
    with Cons show ?thesis by (cases gs) (auto simp: gaps_ok_Cons [of h])
  next
    case False
    with Cons.prems have "g = h" "gs \<noteq> []" by (auto simp: gaps_ok_Cons)
    with Cons.prems have "tiled q (unat (gEnd g)) (unat (gStart (hd gs)))" "unat (gEnd g) < unat (gStart (hd gs))"
      by (cases gs; simp add: gaps_ok_Cons [of h])+
    then show ?thesis by (auto elim: tiledE)
  qed
qed simp

lemma carries_offset: "carries D f \<Longrightarrow> length D < unat protocol_MaxByteCount \<Longrightarrow>
   k \<le> length (sf_Data f) \<Longrightarrow> unat (sf_Offset f + of_nat k) = unat (sf_Offset f) + k"
  unfolding carries_def unat_max by (subst unat_word_ariths) (simp add: unat_of_nat take_bit_eq_mod)

lemma carries_len: "carries D f \<Longrightarrow> length D < unat protocol_MaxByteCount \<Longrightarrow>
   unat (sf_DataLen f) = length (sf_Data f)"
  unfolding carries_def unat_max sf_DataLen_def by (simp add: unat_of_nat take_bit_eq_mod)

lemma carries_drop:
  assumes "carries D f" "length D < unat protocol_MaxByteCount" "k < length (sf_Data f)"
  shows "carries D (f\<lparr>sf_Data := drop k (sf_Data f), sf_Offset := sf_Offset f + of_nat k\<rparr>)"
proof -
  have "sf_Data f = take (length (sf_Data f)) (drop (unat (sf_Offset f)) D)" using assms(1) by (simp add: carries_def)
  then have "drop k (sf_Data f) = take (length (sf_Data f) - k) (drop (unat (sf_Offset f) + k) D)"
    by (metis add.commute drop_drop drop_take)
  with assms carries_offset [OF assms(1,2), of k] show ?thesis by (auto simp: carries_def)
qed

lemma carries_take:
  assumes "carries D f" "0 < k" "k \<le> length (sf_Data f)"
  shows "carries D (f\<lparr>sf_Data := take k (sf_Data f)\<rparr>)"
proof -
  have "sf_Data f = take (length (sf_Data f)) (drop (unat (sf_Offset f)) D)" using assms(1) by (simp add: carries_def)
  then have "take k (sf_Data f) = take k (drop (unat (sf_Offset f)) D)"
    using assms(3) by (metis min.absorb1 take_take)
  with assms show ?thesis by (auto simp: carries_def min_def)
qed

lemma cutQueued_cases:
  assumes inv: "sorter_inv D s" and f: "carries D f" "sf_Data f \<noteq> []"
  shows "case cutQueued s f of
      Inl e \<Rightarrow> e = errDuplicateStreamData
        \<and> (\<forall>n. unat (sf_Offset f) \<le> n \<and> n < unat (sf_Offset f) + length (sf_Data f) \<longrightarrow> \<not> in_gap (so_gaps s) n)
    | Inr f' \<Rightarrow> carries D f' \<and> sf_Data f' \<noteq> [] \<and> unat (sf_Offset f) \<le> unat (sf_Offset f')
        \<and> unat (sf_Offset f') + length (sf_Data f') = unat (sf_Offset f) + length (sf_Data f)
        \<and> (\<forall>n. unat (sf_Offset f) \<le> n \<and> n < unat (sf_Offset f') \<longrightarrow> \<not> in_gap (so_gaps s) n)
        \<and> (\<forall>g \<in> set (so_gaps s). gEnd g \<noteq> sf_Offset f')"
proof -
  have D: "length D < unat protocol_MaxByteCount" and ok: "gaps_ok (so_gaps s)"
    and q: "\<And>k f. so_queuedFrames s k = Some f \<Longrightarrow> sf_Offset f = k \<and> carries D f
      \<and> (\<forall>n. unat k \<le> n \<and> n < unat k + length (sf_Data f) \<longrightarrow> \<not> in_gap (so_gaps s) n)"
    and t: "blocks_tiled (so_queuedFrames s) (unat (so_readPosition s)) (so_gaps s)"
    using inv unfolding sorter_inv_def by blast+
  have off: "unat (sf_Offset f) < length D" using f by (cases "sf_Data f") (auto simp: carries_def)
  show ?thesis
  proof (cases "so_queuedFrames s (sf_Offset f)")
    case None
    have "gEnd g \<noteq> sf_Offset f" if "g \<in> set (so_gaps s)" for g
    proof
      assume "gEnd g = sf_Offset f"
      moreover from this off D have "gEnd g \<noteq> protocol_MaxByteCount" by auto
      ultimately show False using gap_end_queued [OF ok t that] None by simp
    qed
    with None f show ?thesis by (auto simp: cutQueued_def)
  next
    case (Some old)
    note old = q [OF Some]
    have len: "unat (sf_DataLen f) = length (sf_Data f)" "unat (sf_DataLen old) = length (sf_Data old)"
      using carries_len D f(1) old by auto
    have ne: "sf_Data old \<noteq> []" using old off by (auto simp: carries_def)
    show ?thesis
    proof (cases "length (sf_Data f) \<le> length (sf_Data old)")
      case True
      with old Some len show ?thesis by (auto simp: cutQueued_def word_le_nat_alt)
    next
      case False
      define f' where "f' = f\<lparr>sf_Data := drop (length (sf_Data old)) (sf_Data f), sf_Offset := sf_Offset f + sf_DataLen old\<rparr>"
      have res: "cutQueued s f = Inr f'" using Some len False by (simp add: cutQueued_def word_le_nat_alt f'_def)
      have c: "carries D f'" using carries_drop [OF f(1) D, of "length (sf_Data old)"] False by (simp add: f'_def sf_DataLen_def)
      have o: "unat (sf_Offset f') = unat (sf_Offset f) + length (sf_Data old)"
        using carries_offset [OF f(1) D, of "length (sf_Data old)"] False by (simp add: f'_def sf_DataLen_def)
      have "gEnd g \<noteq> sf_Offset f'" if "g \<in> set (so_gaps s)" for g
      proof
        assume g: "gEnd g = sf_Offset f'"
        have "unat (gStart g) < unat (gEnd g)" using ok that by (simp add: gaps_ok_def)
        then have "in_gap (so_gaps s) (unat (gEnd g) - 1)" using that unfolding in_gap_def by force
        moreover have "unat (sf_Offset f) \<le> unat (gEnd g) - 1" "unat (gEnd g) - 1 < unat (sf_Offset f) + length (sf_Data old)"
          using ne unfolding g o by (cases "sf_Data old"; simp)+
        ultimately show False using old by blast
      qed
      with res c o old False show ?thesis by (auto simp: f'_def)
    qed
  qed
qed

text \<open>What \<open>Push\<close> does after the search for the gap: the cuts at both ends, the gaps and the queued frames.\<close>

lemma cutStart_eq:
  assumes "carries D f" "length D < unat protocol_MaxByteCount"
    "unat (gStart gap) < unat (sf_Offset f) + length (sf_Data f)"
    "sf_Data f \<noteq> []"
  defines "f' \<equiv> cutStart gap f"
  shows "carries D f'" "sf_Data f' \<noteq> []"
    "unat (sf_Offset f') = max (unat (sf_Offset f)) (unat (gStart gap))"
    "unat (sf_Offset f') + length (sf_Data f') = unat (sf_Offset f) + length (sf_Data f)"
proof -
  have "carries D f' \<and> sf_Data f' \<noteq> []
    \<and> unat (sf_Offset f') = max (unat (sf_Offset f)) (unat (gStart gap))
    \<and> unat (sf_Offset f') + length (sf_Data f') = unat (sf_Offset f) + length (sf_Data f)"
  proof (cases "sf_Offset f < gStart gap")
    case True
    define k where "k = unat (gStart gap - sf_Offset f)"
    have k: "k = unat (gStart gap) - unat (sf_Offset f)" using True unfolding k_def by (simp add: unat_sub less_imp_le)
    have w: "gStart gap - sf_Offset f = of_nat k" by (simp add: k_def)
    have f': "f' = f\<lparr>sf_Data := drop k (sf_Data f), sf_Offset := sf_Offset f + of_nat k\<rparr>"
      using True by (simp add: f'_def cutStart_def w [symmetric] k_def)
    have lt: "unat (sf_Offset f) < unat (gStart gap)" using True by (simp add: word_less_nat_alt)
    have kl: "k < length (sf_Data f)" using k assms(3) lt by simp
    have o: "unat (sf_Offset f') = unat (sf_Offset f) + k" using carries_offset [OF assms(1,2), of k] kl by (simp add: f')
    then have "unat (sf_Offset f') = max (unat (sf_Offset f)) (unat (gStart gap))" using k lt by simp
    moreover have "unat (sf_Offset f') + length (sf_Data f') = unat (sf_Offset f) + length (sf_Data f)"
      using o kl by (simp add: f')
    ultimately show ?thesis using carries_drop [OF assms(1,2) kl] kl by (simp add: f')
  next
    case False
    then have "f' = f" "unat (gStart gap) \<le> unat (sf_Offset f)" by (simp_all add: f'_def cutStart_def word_le_nat_alt word_less_nat_alt)
    then show ?thesis using assms(1,4) by simp
  qed
  then show "carries D f'" "sf_Data f' \<noteq> []"
    "unat (sf_Offset f') = max (unat (sf_Offset f)) (unat (gStart gap))"
    "unat (sf_Offset f') + length (sf_Data f') = unat (sf_Offset f) + length (sf_Data f)" by blast+
qed

lemma cutEnd_eq:
  assumes f: "carries D f" "length D < unat protocol_MaxByteCount"
    and e: "end = sf_Offset f + sf_DataLen f" "unat (sf_Offset f) < unat (gEnd endGap)" "sf_Data f \<noteq> []"
    and r: "cutEnd end endGap f = (end', f')"
  shows "carries D f'" "sf_Data f' \<noteq> []" "sf_Offset f' = sf_Offset f"
    "unat end' = unat (sf_Offset f) + length (sf_Data f')" "unat end' = min (unat end) (unat (gEnd endGap))"
proof -
  have len: "unat (sf_DataLen f) = length (sf_Data f)" using f by (rule carries_len)
  have ue: "unat end = unat (sf_Offset f) + length (sf_Data f)"
    using carries_offset [OF f, of "length (sf_Data f)"] e(1) by (simp add: sf_DataLen_def)
  have "carries D f' \<and> sf_Data f' \<noteq> [] \<and> sf_Offset f' = sf_Offset f
    \<and> unat end' = unat (sf_Offset f) + length (sf_Data f') \<and> unat end' = min (unat end) (unat (gEnd endGap))"
  proof (cases "gEnd endGap < end")
    case True
    have *: "sf_DataLen f - (end - gEnd endGap) = gEnd endGap - sf_Offset f" using e(1) by simp
    define k where "k = unat (gEnd endGap - sf_Offset f)"
    have r': "end' = gEnd endGap" "f' = f\<lparr>sf_Data := take k (sf_Data f)\<rparr>"
      using r True unfolding cutEnd_def Let_def * by (auto simp: k_def)
    have k: "k = unat (gEnd endGap) - unat (sf_Offset f)"
      using e(2) unfolding k_def by (simp add: unat_sub word_le_nat_alt)
    have "unat (gEnd endGap) < unat end" using True by (simp add: word_less_nat_alt)
    with k e(2) ue have kl: "0 < k" "k \<le> length (sf_Data f)" by auto
    have "carries D f'" unfolding r' by (rule carries_take [OF f(1) kl])
    moreover have "unat end' = unat (sf_Offset f) + length (sf_Data f')" using kl k e(2) by (simp add: r')
    moreover have "unat end' = min (unat end) (unat (gEnd endGap))" using True by (simp add: r' word_less_nat_alt)
    ultimately show ?thesis using kl e(3) by (simp add: r')
  next
    case False
    then have "unat end \<le> unat (gEnd endGap)" by (simp add: word_less_nat_alt)
    moreover from False r have "end' = end" "f' = f" by (simp_all add: cutEnd_def)
    ultimately show ?thesis using f(1) e(3) ue by simp
  qed
  then show "carries D f'" "sf_Data f' \<noteq> []" "sf_Offset f' = sf_Offset f"
    "unat end' = unat (sf_Offset f) + length (sf_Data f')" "unat end' = min (unat end) (unat (gEnd endGap))" by blast+
qed

lemma gaps_ok_mid:
  assumes "gaps_ok (before @ (mid @ e # rest))" "gap = hd (mid @ [e])" "m \<in> set mid"
  shows "m = gap \<or> unat (gEnd gap) < unat (gStart m)" "unat (gStart m) < unat (gEnd m)" "unat (gEnd m) < unat (gStart e)"
proof -
  show "unat (gStart m) < unat (gEnd m)" "unat (gEnd m) < unat (gStart e)"
    using assms(1,3) by (auto simp: gaps_ok_def sorted_wrt_append)
  obtain x xs where "mid = x # xs" using assms(3) by (cases mid) auto
  with assms show "m = gap \<or> unat (gEnd gap) < unat (gStart m)" by (auto simp: gaps_ok_def sorted_wrt_append)
qed

lemma in_gap_least:
  assumes "gaps_ok gs" "in_gap gs n"
  shows "unat (gStart (hd gs)) \<le> n"
proof (cases gs)
  case (Cons g hs)
  have "unat (gStart g) < unat (gEnd g)" "\<And>h. h \<in> set hs \<Longrightarrow> unat (gEnd g) < unat (gStart h)"
    using assms(1) Cons by (auto simp: gaps_ok_def)
  with assms(2) Cons show ?thesis by (fastforce simp: in_gap_def)
qed (use assms in simp)

text \<open>Queueing a frame that fills the gaps from its offset on keeps the invariant.\<close>

lemma sorter_inv_carve:
  assumes inv: "sorter_inv D s" and gs: "so_gaps s = before @ (mid @ e # rest)" and gap: "gap = hd (mid @ [e])"
    and f: "carries D f" "sf_Data f \<noteq> []" "unat end = unat (sf_Offset f) + length (sf_Data f)"
    and range: "unat (gStart gap) \<le> unat (sf_Offset f)" "unat (sf_Offset f) < unat (gEnd gap)"
      "unat (gStart e) < unat end" "unat end \<le> unat (gEnd e)" "end = gEnd e \<longrightarrow> rest \<noteq> []"
  defines "new \<equiv> before @ ((if sf_Offset f = gStart gap then [] else [\<lparr>gStart = gStart gap, gEnd = sf_Offset f\<rparr>])
     @ (if end = gEnd e then [] else [\<lparr>gStart = end, gEnd = gEnd e\<rparr>])) @ rest"
    and "q' \<equiv> (\<lambda>k. if k \<in> gEnd ` set mid then None else so_queuedFrames s k)(sf_Offset f \<mapsto> f)"
  shows "sorter_inv D (s\<lparr>so_gaps := new, so_queuedFrames := q'\<rparr>)"
    "in_gap new n \<longleftrightarrow> in_gap (so_gaps s) n \<and> \<not> (unat (sf_Offset f) \<le> n \<and> n < unat end)"
proof -
  have D: "length D < unat protocol_MaxByteCount" and ok: "gaps_ok (before @ (mid @ e # rest))"
    and pos: "unat (so_readPosition s) \<le> unat (gStart (hd (so_gaps s)))"
    and q: "\<And>k f. so_queuedFrames s k = Some f \<Longrightarrow> sf_Offset f = k \<and> carries D f
      \<and> (\<forall>n. unat k \<le> n \<and> n < unat k + length (sf_Data f) \<longrightarrow> \<not> in_gap (so_gaps s) n)"
    and t: "blocks_tiled (so_queuedFrames s) (unat (so_readPosition s)) (before @ (mid @ e # rest))"
    using inv unfolding sorter_inv_def gs by blast+
  have lt: "unat (sf_Offset f) < unat end" using f(2,3) by (cases "sf_Data f") auto
  note carve = gaps_ok_carve [OF ok gap range(1-4) lt range(5), folded new_def]
  show in_new: "in_gap new n \<longleftrightarrow> in_gap (so_gaps s) n \<and> \<not> (unat (sf_Offset f) \<le> n \<and> n < unat end)" for n
    unfolding gs by (rule carve(2))
  have "unat (sf_Offset f) < unat (gEnd m) \<and> unat (gEnd m) < unat end" if "m \<in> set mid" for m
  proof -
    show ?thesis using gaps_ok_mid [OF ok gap that] range by auto
  qed
  then have outside: "q' k = so_queuedFrames s k" if "\<not> (unat (sf_Offset f) \<le> unat k \<and> unat k < unat end)" for k
    using that lt unfolding q'_def by force
  have "q' (sf_Offset f) = Some f" by (simp add: q'_def)
  from blocks_tiled_carve [OF t ok gap range(1-4) lt range(5) outside this f(2,3)]
  have "blocks_tiled q' (unat (so_readPosition s)) new" unfolding new_def by blast
  moreover have "unat (so_readPosition s) \<le> unat (gStart (hd new))"
  proof -
    have "hd new \<in> set new" using carve(1) by (simp add: gaps_ok_def)
    moreover have "unat (gStart (hd new)) < unat (gEnd (hd new))" using carve(1) calculation by (simp add: gaps_ok_def)
    ultimately have "in_gap new (unat (gStart (hd new)))" unfolding in_gap_def by blast
    then have "in_gap (so_gaps s) (unat (gStart (hd new)))" by (simp add: in_new)
    then have "unat (gStart (hd (so_gaps s))) \<le> unat (gStart (hd new))" by (rule in_gap_least [OF ok [folded gs]])
    with pos show ?thesis by simp
  qed
  moreover have "sf_Offset h = k \<and> carries D h
      \<and> (\<forall>n. unat k \<le> n \<and> n < unat k + length (sf_Data h) \<longrightarrow> \<not> in_gap new n)" if "q' k = Some h" for k h
  proof (cases "k = sf_Offset f")
    case True
    with that have "h = f" by (simp add: q'_def)
    with True f show ?thesis by (simp add: in_new)
  next
    case False
    with that have "so_queuedFrames s k = Some h" by (simp add: q'_def split: if_splits)
    from q [OF this] show ?thesis by (simp add: in_new)
  qed
  ultimately show "sorter_inv D (s\<lparr>so_gaps := new, so_queuedFrames := q'\<rparr>)"
    using D carve(1) by (simp add: sorter_inv_def)
qed

lemma in_gap_between:
  assumes ok: "gaps_ok (before @ (mid @ e # rest))" and gap: "gap = hd (mid @ [e])"
    and n: "n < unat (gStart gap) \<and> (\<forall>g \<in> set before. unat (gEnd g) \<le> n)
      \<or> unat (gEnd e) \<le> n \<and> (rest \<noteq> [] \<longrightarrow> n < unat (gStart (hd rest)))"
  shows "\<not> in_gap (before @ (mid @ e # rest)) n"
proof -
  have e: "unat (gStart e) < unat (gEnd e)" and ge: "unat (gStart gap) \<le> unat (gStart e)"
    and be: "\<And>b. b \<in> set before \<Longrightarrow> unat (gEnd b) < unat (gStart e)"
    and er: "\<And>r. r \<in> set rest \<Longrightarrow> unat (gEnd e) < unat (gStart r)"
    using ok gap by (cases mid; auto simp: gaps_ok_def sorted_wrt_append)+
  have "unat (gStart gap) \<le> unat (gStart m)" if "m \<in> set mid" for m
  proof -
    have "unat (gStart gap) < unat (gEnd gap)" using ok gap that by (cases mid) (auto simp: gaps_ok_def)
    with gaps_ok_mid(1) [OF ok gap that] show ?thesis by auto
  qed
  moreover have "unat (gEnd m) < unat (gStart e)" if "m \<in> set mid" for m using gaps_ok_mid(3) [OF ok gap that] .
  moreover have "unat (gStart (hd rest)) \<le> n" if "in_gap rest n"
    using in_gap_least [OF _ that] that ok gaps_ok_after [of "before @ mid @ [e]" rest] by (cases rest) auto
  moreover have "rest \<noteq> []" if "in_gap rest n" using that by auto
  ultimately show ?thesis using n e ge be er by (fastforce simp: in_gap_def)
qed

text \<open>The part of \<open>Push\<close> after the first gap is found takes the range of the frame out of the gaps.\<close>

lemma so_Push_found:
  assumes inv: "sorter_inv D s" and f: "carries D f" "sf_Data f \<noteq> []"
    and ue: "end = sf_Offset f + sf_DataLen f" "unat end = unat (sf_Offset f) + length (sf_Data f)"
      "unat end < unat protocol_MaxByteCount"
    and gs: "so_gaps s = before @ gap # after" and gap: "unat (gStart gap) < unat end" "unat (sf_Offset f) < unat (gEnd gap)"
      "\<forall>g \<in> set before. unat (gEnd g) < unat (sf_Offset f)"
  shows "\<exists>e isGap present rest q' end' f'.
      findEndGap end True gap after (so_queuedFrames s) = Inr (e, isGap, present, rest, q')
    \<and> cutEnd end e (cutStart gap f) = (end', f')
    \<and> sorter_inv D (s\<lparr>so_gaps := before @ adjustGaps (sf_Offset (cutStart gap f)) end' gap e isGap present @ rest,
        so_queuedFrames := q'(sf_Offset f' \<mapsto> f')\<rparr>)
    \<and> (\<forall>n. in_gap (before @ adjustGaps (sf_Offset (cutStart gap f)) end' gap e isGap present @ rest) n
           \<longleftrightarrow> in_gap (so_gaps s) n \<and> \<not> (unat (sf_Offset f) \<le> n \<and> n < unat end))"
proof -
  have D: "length D < unat protocol_MaxByteCount" and ok: "gaps_ok (so_gaps s)" using inv unfolding sorter_inv_def by blast+
  define f2 where "f2 = cutStart gap f"
  note f2 = cutStart_eq [OF f(1) D gap(1) [unfolded ue(2)] f(2), folded f2_def, folded ue(2)]
  have "gaps_ok (gap # after)" using ok gs gaps_ok_after by auto
  note E = findEndGap_cases [OF this gap(1) ue(3), of True "so_queuedFrames s"]
  obtain mid e rest present q' where sp: "gap # after = mid @ e # rest"
    and fe: "findEndGap end True gap after (so_queuedFrames s) = Inr (e, mid = [], present, rest, q')"
    and q': "q' = (\<lambda>k. if k \<in> gEnd ` set mid then None else so_queuedFrames s k)"
    and pr: "present = (mid = [] \<or> unat end < unat (gEnd e))"
    and e1: "unat (gStart e) < unat end"
    and e2: "unat end < unat (gEnd e) \<or> rest \<noteq> [] \<and> unat end \<le> unat (gStart (hd rest))"
    using E by auto
  have gs': "so_gaps s = before @ (mid @ e # rest)" using gs sp by simp
  have gp: "gap = hd (mid @ [e])" using sp by (cases mid) auto
  have end_mid: "mid = [] \<or> unat (gEnd gap) < unat (gStart e)"
    using ok sp gp unfolding gs by (cases mid) (auto simp: gaps_ok_def sorted_wrt_append)
  have e_lt: "unat (gStart e) < unat (gEnd e)" using ok unfolding gs sp by (simp add: gaps_ok_def)
  obtain end2 f3 where ce: "cutEnd end e f2 = (end2, f3)" by (cases "cutEnd end e f2")
  have "gap = e \<or> unat (gEnd gap) < unat (gEnd e)" using end_mid e_lt gp by auto
  then have "unat (sf_Offset f2) < unat (gEnd e)" "unat (sf_Offset f2) < unat (gEnd gap)"
    using f2(3) gap(2) e_lt ok by (auto simp: gs gaps_ok_def)
  moreover have "end = sf_Offset f2 + sf_DataLen f2"
    using f2(4) carries_offset [OF f2(1) D, of "length (sf_Data f2)"] by (simp add: sf_DataLen_def word_unat_eq_iff)
  ultimately have f3: "carries D f3" "sf_Data f3 \<noteq> []" "sf_Offset f3 = sf_Offset f2"
    "unat end2 = unat (sf_Offset f3) + length (sf_Data f3)" "unat end2 = min (unat end) (unat (gEnd e))"
    and o3: "unat (sf_Offset f3) < unat (gEnd gap)"
    using cutEnd_eq [OF f2(1) D _ _ f2(2) ce] by simp_all
  have adj: "adjustGaps (sf_Offset f2) end2 gap e (mid = []) present =
     (if sf_Offset f3 = gStart gap then [] else [\<lparr>gStart = gStart gap, gEnd = sf_Offset f3\<rparr>])
     @ (if end2 = gEnd e then [] else [\<lparr>gStart = end2, gEnd = gEnd e\<rparr>])"
    unfolding f3(3)
  proof (rule adjustGaps_eq)
    show "end2 \<le> gEnd e" using f3(5) by (simp add: word_le_nat_alt)
    show "e = gap \<and> present" if "mid = []" using that gp pr by simp
    show "present = (end2 < gEnd e) \<and> gEnd gap \<le> end2" if "mid \<noteq> []"
      using that pr f3(5) end_mid e1 e_lt by (auto simp: word_less_nat_alt word_le_nat_alt)
  qed
  have "unat (gStart gap) \<le> unat (sf_Offset f3)" "unat (gStart e) < unat end2" "unat end2 \<le> unat (gEnd e)"
    "end2 = gEnd e \<longrightarrow> rest \<noteq> []"
    using f3 f2(3) e1 e2 e_lt by auto
  note step = sorter_inv_carve [OF inv gs' gp f3(1,2,4) this(1) o3 this(2-4), folded adj q']
  have cover: "\<not> in_gap (so_gaps s) n"
    if "unat (sf_Offset f) \<le> n" "n < unat end" "\<not> (unat (sf_Offset f3) \<le> n \<and> n < unat end2)" for n
    unfolding gs' using that f3(3,5) f2(3) gap(3) e2
    by (intro in_gap_between [OF ok [unfolded gs'] gp]) fastforce
  have "unat (sf_Offset f) \<le> n \<and> n < unat end" if "unat (sf_Offset f3) \<le> n \<and> n < unat end2" for n
    using that f3(3,5) f2(3) by auto
  with cover step(2) have "in_gap (before @ adjustGaps (sf_Offset f2) end2 gap e (mid = []) present @ rest) n
    \<longleftrightarrow> in_gap (so_gaps s) n \<and> \<not> (unat (sf_Offset f) \<le> n \<and> n < unat end)" for n by blast
  with fe ce step(1) show ?thesis unfolding f2_def by blast
qed

lemma so_Push_data:
  assumes inv: "sorter_inv D s" and f: "carries D f" "sf_Data f \<noteq> []"
  shows "case so_Push s f of (err, s') \<Rightarrow>
     err = Some errTooManyGapsInReceivedStreamData
   \<or> err = Some errDuplicateStreamData \<and> s' = s
       \<and> (\<forall>n. unat (sf_Offset f) \<le> n \<and> n < unat (sf_Offset f) + length (sf_Data f) \<longrightarrow> \<not> in_gap (so_gaps s) n)
   \<or> err = None \<and> sorter_inv D s' \<and> so_readPosition s' = so_readPosition s
       \<and> (\<forall>n. in_gap (so_gaps s') n \<longleftrightarrow> in_gap (so_gaps s) n
             \<and> \<not> (unat (sf_Offset f) \<le> n \<and> n < unat (sf_Offset f) + length (sf_Data f)))"
proof -
  have D: "length D < unat protocol_MaxByteCount" and ok: "gaps_ok (so_gaps s)"
    and pos: "unat (so_readPosition s) \<le> unat (gStart (hd (so_gaps s)))"
    and q: "\<And>k f. so_queuedFrames s k = Some f \<Longrightarrow> sf_Offset f = k \<and> carries D f
      \<and> (\<forall>n. unat k \<le> n \<and> n < unat k + length (sf_Data f) \<longrightarrow> \<not> in_gap (so_gaps s) n)"
    and t: "blocks_tiled (so_queuedFrames s) (unat (so_readPosition s)) (so_gaps s)"
    using inv unfolding sorter_inv_def by blast+
  have "unat (sf_DataLen f) = length (sf_Data f)" by (rule carries_len [OF f(1) D])
  then have nz: "sf_DataLen f \<noteq> 0" using f(2) by auto
  show ?thesis
  proof (cases "cutQueued s f")
    case (Inl e)
    with cutQueued_cases [OF inv f] nz show ?thesis by (simp add: so_Push_def)
  next
    case (Inr f1)
    note f1 = cutQueued_cases [OF inv f, unfolded Inr sum.case]
    define end1 where "end1 = sf_Offset f1 + sf_DataLen f1"
    have ue: "unat end1 = unat (sf_Offset f1) + length (sf_Data f1)"
      using carries_offset [of D f1 "length (sf_Data f1)"] f1 D by (simp add: end1_def sf_DataLen_def)
    have "unat (sf_Offset f1) + length (sf_Data f1) \<le> length D" using f1 by (simp add: carries_def)
    then have em: "unat end1 < unat protocol_MaxByteCount" using ue D by simp
    have lt: "unat (sf_Offset f1) < unat end1" using ue f1 by (cases "sf_Data f1") auto
    show ?thesis
    proof (cases "findGap (sf_Offset f1) end1 [] (so_gaps s)")
      case (Inl e)
      note g = findGap_cases [OF ok lt em, of "[]", unfolded Inl sum.case]
      have "\<not> in_gap (so_gaps s) n" if "unat (sf_Offset f) \<le> n" "n < unat (sf_Offset f) + length (sf_Data f)" for n
        using that f1 g ue by (cases "n < unat (sf_Offset f1)") auto
      with nz g Inl Inr show ?thesis by (simp add: so_Push_def end1_def [symmetric])
    next
      case G: (Inr x)
      obtain before gap after where x: "x = (before, gap, after)" by (cases x)
      from findGap_cases [OF ok lt em, of "[]", unfolded G x sum.case prod.case]
      have gs: "so_gaps s = before @ gap # after" and g1: "unat (gStart gap) < unat end1"
        and g2: "unat (sf_Offset f1) \<le> unat (gEnd gap)" and g3: "\<forall>g \<in> set before. unat (gEnd g) < unat (sf_Offset f1)"
        by auto
      have "gEnd gap \<noteq> sf_Offset f1" using f1 gs by simp
      then have g2: "unat (sf_Offset f1) < unat (gEnd gap)" using g2 by (metis le_neq_implies_less word_unat_eq_iff)
      from so_Push_found [OF inv _ _ end1_def ue em gs g1 g2 g3] f1
      obtain e isGap present rest q' end2 f3 where
        fe: "findEndGap end1 True gap after (so_queuedFrames s) = Inr (e, isGap, present, rest, q')"
        and ce: "cutEnd end1 e (cutStart gap f1) = (end2, f3)"
        and step: "sorter_inv D (s\<lparr>so_gaps := before @ adjustGaps (sf_Offset (cutStart gap f1)) end2 gap e isGap present @ rest,
            so_queuedFrames := q'(sf_Offset f3 \<mapsto> f3)\<rparr>)"
          "\<And>n. in_gap (before @ adjustGaps (sf_Offset (cutStart gap f1)) end2 gap e isGap present @ rest) n
           \<longleftrightarrow> in_gap (so_gaps s) n \<and> \<not> (unat (sf_Offset f1) \<le> n \<and> n < unat end1)" by blast
      define new where "new = before @ adjustGaps (sf_Offset (cutStart gap f1)) end2 gap e isGap present @ rest"
      have "in_gap new n \<longleftrightarrow> in_gap (so_gaps s) n
             \<and> \<not> (unat (sf_Offset f) \<le> n \<and> n < unat (sf_Offset f) + length (sf_Data f))" for n
      proof -
        have "unat (sf_Offset f) \<le> n \<and> n < unat (sf_Offset f) + length (sf_Data f) \<longleftrightarrow>
           unat (sf_Offset f1) \<le> n \<and> n < unat end1 \<or> unat (sf_Offset f) \<le> n \<and> n < unat (sf_Offset f1)"
          using f1 lt unfolding ue by linarith
        with step(2) [of n] f1 show ?thesis unfolding new_def by blast
      qed
      moreover have "so_Push s f = (if length new > MaxStreamFrameSorterGaps
          then (Some errTooManyGapsInReceivedStreamData, s\<lparr>so_gaps := new, so_queuedFrames := q'\<rparr>)
          else (None, s\<lparr>so_gaps := new, so_queuedFrames := q'(sf_Offset f3 \<mapsto> f3)\<rparr>))"
        using nz Inr by (simp add: so_Push_def end1_def [symmetric] G x fe ce new_def Let_def)
      ultimately show ?thesis using step(1) [folded new_def] by simp
    qed
  qed
qed

lemma so_Push_empty:
  assumes "sorter_inv D s" "carries D f" "sf_Data f = []"
  shows "case so_Push s f of (err, s') \<Rightarrow> err \<in> {None, Some errEmptyStreamData} \<and> sorter_inv D s'
    \<and> so_readPosition s' = so_readPosition s \<and> so_gaps s' = so_gaps s"
proof (cases "sf_FinBit f")
  case True
  have o: "unat (sf_Offset f) = length D" using assms by (simp add: carries_def)
  have noq: "sf_Data h = []" if "so_queuedFrames s (sf_Offset f) = Some h" for h
  proof -
    have "sf_Offset h = sf_Offset f" "unat (sf_Offset h) + length (sf_Data h) \<le> length D"
      using assms(1) that unfolding sorter_inv_def carries_def by blast+
    with o show ?thesis by simp
  qed
  have tc: "tiled ((so_queuedFrames s)(sf_Offset f \<mapsto> f)) a b" if "tiled (so_queuedFrames s) a b" for a b
    using that
  proof (induction rule: tiled.induct)
    case (tiled_frame k h m)
    then have "k \<noteq> sf_Offset f" using noq by auto
    with tiled_frame show ?case by (intro tiled.tiled_frame [of _ k h]) auto
  qed (rule tiled_refl)
  have "blocks_tiled ((so_queuedFrames s)(sf_Offset f \<mapsto> f)) a gs" if "blocks_tiled (so_queuedFrames s) a gs" for a gs
    using that by (induction gs arbitrary: a) (auto intro: tc)
  with assms True show ?thesis by (auto simp: so_Push_def sf_DataLen_def sorter_inv_def)
next
  case False
  with assms show ?thesis by (simp add: so_Push_def sf_DataLen_def)
qed

lemma so_Pop_data:
  assumes inv: "sorter_inv D s" and pop: "so_Pop s = (Some f, s')"
  shows "sorter_inv D s'" "so_gaps s' = so_gaps s"
    "unat (so_readPosition s') = unat (so_readPosition s) + length (sf_Data f)"
    "sf_Data f = take (length (sf_Data f)) (drop (unat (so_readPosition s)) D)"
    "unat (so_readPosition s') \<le> length D"
    "unat (so_readPosition s') \<le> unat (gStart (hd (so_gaps s)))"
proof -
  have D: "length D < unat protocol_MaxByteCount" and ok: "gaps_ok (so_gaps s)"
    and pos: "unat (so_readPosition s) \<le> unat (gStart (hd (so_gaps s)))"
    and q: "\<And>k f. so_queuedFrames s k = Some f \<Longrightarrow> sf_Offset f = k \<and> carries D f
      \<and> (\<forall>n. unat k \<le> n \<and> n < unat k + length (sf_Data f) \<longrightarrow> \<not> in_gap (so_gaps s) n)"
    and t: "blocks_tiled (so_queuedFrames s) (unat (so_readPosition s)) (so_gaps s)"
    using inv unfolding sorter_inv_def by blast+
  have h: "so_queuedFrames s (so_readPosition s) = Some f"
    and s': "s' = s\<lparr>so_readPosition := so_readPosition s + sf_DataLen f,
             so_queuedFrames := (so_queuedFrames s)(so_readPosition s := None)\<rparr>"
    using pop q [of "so_readPosition s"] by (auto simp: so_Pop_def so_Head_def split: option.splits)
  note f = q [OF h]
  show rp: "unat (so_readPosition s') = unat (so_readPosition s) + length (sf_Data f)"
    using carries_offset [of D f "length (sf_Data f)"] f D by (simp add: s' sf_DataLen_def)
  show "so_gaps s' = so_gaps s" by (simp add: s')
  show "sf_Data f = take (length (sf_Data f)) (drop (unat (so_readPosition s)) D)" "unat (so_readPosition s') \<le> length D"
    using f unfolding rp by (auto simp: carries_def)
  obtain g gs where gs: "so_gaps s = g # gs" using ok by (cases "so_gaps s") (auto simp: gaps_ok_def)
  have g: "unat (gStart g) < unat (gEnd g)" "\<forall>h \<in> set gs. unat (gEnd g) < unat (gStart h)"
      "\<forall>h \<in> set gs. unat (gStart h) < unat (gEnd h)" using ok gs by (auto simp: gaps_ok_def)
  have "in_gap (so_gaps s) (unat (gStart g))" using g gs by simp
  then have "\<not> (unat (so_readPosition s) \<le> unat (gStart g) \<and> unat (gStart g) < unat (so_readPosition s) + length (sf_Data f))"
    using f by blast
  then show le: "unat (so_readPosition s') \<le> unat (gStart (hd (so_gaps s)))" using pos gs rp by simp
  have out: "((so_queuedFrames s)(so_readPosition s := None)) k = so_queuedFrames s k"
    if "unat (so_readPosition s) < unat k" for k using that by auto
  have "tiled (so_queuedFrames s) (unat (so_readPosition s')) (unat (gStart g))"
  proof (cases "unat (so_readPosition s) < unat (gStart g)")
    case True
    with t gs h rp show ?thesis by (auto elim!: tiledE)
  next
    case False
    with le rp gs pos have "unat (so_readPosition s') = unat (gStart g)" by simp
    then show ?thesis by (simp add: tiled_refl)
  qed
  then have t1: "tiled ((so_queuedFrames s)(so_readPosition s := None)) (unat (so_readPosition s')) (unat (gStart g))"
  proof (cases "sf_Data f = []")
    case True
    have "\<not> unat (so_readPosition s) < unat (gStart g)"
    proof
      assume "unat (so_readPosition s) < unat (gStart g)"
      with t gs h True show False by (auto elim!: tiledE)
    qed
    with pos gs rp True show ?thesis by (simp add: tiled_refl)
  next
    case False
    assume "tiled (so_queuedFrames s) (unat (so_readPosition s')) (unat (gStart g))"
    then show ?thesis by (rule tiled_cong) (use False rp in \<open>auto intro!: out\<close>)
  qed
  have "blocks_tiled (so_queuedFrames s) (unat (gEnd g)) gs" using t gs by simp
  then have "blocks_tiled ((so_queuedFrames s)(so_readPosition s := None)) (unat (gEnd g)) gs"
  proof (rule blocks_tiled_above [where b = "unat (gEnd g)"])
    show "\<forall>h \<in> set gs. unat (gEnd g) \<le> unat (gEnd h)" using g by force
    show "((so_queuedFrames s)(so_readPosition s := None)) k = so_queuedFrames s k" if "unat (gEnd g) \<le> unat k" for k
      using that g(1) pos gs by (intro out) simp
  qed simp
  with t1 gs have "blocks_tiled (so_queuedFrames s') (unat (so_readPosition s')) (so_gaps s')" by (simp add: s')
  moreover have "so_queuedFrames s k = Some h" if "so_queuedFrames s' k = Some h" for k h
    using that by (simp add: s' split: if_splits)
  ultimately show "sorter_inv D s'" unfolding sorter_inv_def \<open>so_gaps s' = so_gaps s\<close> using D ok le q by blast
qed

section \<open>Runs of the sorter\<close>

text \<open>A run pushes frames of the stream \<open>D\<close> in any order, with any overlap, and pops the queued frames. \<open>R\<close> collects the
  positions of the stream that the pushed frames carry, \<open>out\<close> the data of the popped frames. An error other than too
  many gaps does not end the run.\<close>

definition frame_range :: "StreamFrame \<Rightarrow> nat set" where
  "frame_range f = {unat (sf_Offset f) ..< unat (sf_Offset f) + length (sf_Data f)}"

inductive sorter_run :: "u8 list \<Rightarrow> streamFrameSorter \<Rightarrow> nat set \<Rightarrow> u8 list \<Rightarrow> bool" for D where
  run_new: "length D < unat protocol_MaxByteCount \<Longrightarrow> sorter_run D newStreamFrameSorter {} []"
| run_push: "sorter_run D s R out \<Longrightarrow> carries D f \<Longrightarrow> so_Push s f = (err, s')
    \<Longrightarrow> err \<noteq> Some errTooManyGapsInReceivedStreamData \<Longrightarrow> sorter_run D s' (R \<union> frame_range f) out"
| run_pop: "sorter_run D s R out \<Longrightarrow> so_Pop s = (Some f, s') \<Longrightarrow> sorter_run D s' R (out @ sf_Data f)"

lemma sorter_inv_new: "length D < unat protocol_MaxByteCount \<Longrightarrow> sorter_inv D newStreamFrameSorter"
  by (auto simp: sorter_inv_def newStreamFrameSorter_def gaps_ok_def tiled_refl)

definition run_inv :: "u8 list \<Rightarrow> streamFrameSorter \<Rightarrow> nat set \<Rightarrow> u8 list \<Rightarrow> bool" where
  "run_inv D s R out \<longleftrightarrow> sorter_inv D s \<and> (\<forall>n < unat protocol_MaxByteCount. in_gap (so_gaps s) n \<longleftrightarrow> n \<notin> R)
     \<and> unat (so_readPosition s) = length out \<and> length out \<le> length D \<and> out = take (length out) D"

lemma run_inv_push:
  assumes inv: "run_inv D s R out" and f: "carries D f" and push: "so_Push s f = (err, s')"
    and err: "err \<noteq> Some errTooManyGapsInReceivedStreamData"
  shows "run_inv D s' (R \<union> frame_range f) out"
proof (cases "sf_Data f = []")
  case True
  with so_Push_empty [OF _ f True, of s] inv push show ?thesis by (simp add: run_inv_def frame_range_def)
next
  case False
  have sub: "unat (sf_Offset f) + length (sf_Data f) < unat protocol_MaxByteCount"
    using f inv by (auto simp: carries_def run_inv_def sorter_inv_def)
  from so_Push_data [OF _ f False, of s] inv push err
  consider "s' = s" "\<forall>n. unat (sf_Offset f) \<le> n \<and> n < unat (sf_Offset f) + length (sf_Data f) \<longrightarrow> \<not> in_gap (so_gaps s) n"
    | "sorter_inv D s'" "so_readPosition s' = so_readPosition s"
      "\<forall>n. in_gap (so_gaps s') n \<longleftrightarrow> in_gap (so_gaps s) n
             \<and> \<not> (unat (sf_Offset f) \<le> n \<and> n < unat (sf_Offset f) + length (sf_Data f))"
    by (auto simp: run_inv_def)
  then show ?thesis
  proof cases
    case 1
    with inv sub show ?thesis by (auto simp: run_inv_def frame_range_def)
  next
    case 2
    with inv show ?thesis by (auto simp: run_inv_def frame_range_def)
  qed
qed

lemma run_inv_pop:
  assumes inv: "run_inv D s R out" and pop: "so_Pop s = (Some f, s')"
  shows "run_inv D s' R (out @ sf_Data f)"
proof -
  have i: "sorter_inv D s" and r: "unat (so_readPosition s) = length out" and o: "out = take (length out) D"
    using inv by (simp_all add: run_inv_def)
  note p = so_Pop_data [OF i pop]
  have "out @ sf_Data f = take (length out) D @ take (length (sf_Data f)) (drop (length out) D)"
    using o p(4) r by simp
  also have "\<dots> = take (length (out @ sf_Data f)) D" by (simp add: take_add)
  finally show ?thesis using inv p r by (simp add: run_inv_def)
qed

lemma sorter_run_inv: "sorter_run D s R out \<Longrightarrow> run_inv D s R out"
proof (induction rule: sorter_run.induct)
  case run_new
  then show ?case by (simp add: run_inv_def sorter_inv_new) (simp add: newStreamFrameSorter_def)
next
  case (run_push s R out f err s')
  then show ?case by (blast intro: run_inv_push)
next
  case (run_pop s R out f s')
  then show ?case by (blast intro: run_inv_pop)
qed

lemma run_inv_head:
  assumes inv: "run_inv D s R out" and n: "length out \<in> R" "length out < length D"
  shows "\<exists>f. so_Head s = Some f \<and> sf_Data f \<noteq> []"
proof -
  have i: "sorter_inv D s" and r: "unat (so_readPosition s) = length out"
    and R: "\<not> in_gap (so_gaps s) (length out)"
    using inv n by (auto simp: run_inv_def sorter_inv_def)
  obtain g gs where gs: "so_gaps s = g # gs" using i by (cases "so_gaps s") (auto simp: sorter_inv_def gaps_ok_def)
  have "unat (so_readPosition s) \<le> unat (gStart g)" "unat (gStart g) < unat (gEnd g)"
    and t: "tiled (so_queuedFrames s) (unat (so_readPosition s)) (unat (gStart g))"
    using i gs by (auto simp: sorter_inv_def gaps_ok_def)
  with R r gs have "unat (so_readPosition s) < unat (gStart g)" by auto
  with t show ?thesis unfolding so_Head_def by (auto elim: tiledE)
qed

lemma run_inv_received:
  assumes inv: "run_inv D s R out" and n: "n < length out"
  shows "n \<in> R"
proof -
  have "sorter_inv D s" "unat (so_readPosition s) = length out" using inv by (auto simp: run_inv_def)
  then have "\<not> in_gap (so_gaps s) n" using in_gap_least [of "so_gaps s" n] n by (auto simp: sorter_inv_def)
  then show ?thesis using inv n by (auto simp: run_inv_def sorter_inv_def)
qed

section \<open>Properties\<close>

text \<open>C1. Reassembly of a stream: whatever the order and the overlap of the pushed frames, the popped data is a prefix of
  the stream, only received positions are delivered, and as long as the next position has been received the head of
  the queue has data. So once the whole stream is received and no more data is at the head, exactly the stream has
  been delivered.\<close>

theorem stream_reassembly:
  assumes "sorter_run D s R out"
  shows "out = take (length out) D \<and> {..<length out} \<subseteq> R
    \<and> (length out \<in> R \<longrightarrow> length out < length D \<longrightarrow> (\<exists>f. so_Head s = Some f \<and> sf_Data f \<noteq> []))
    \<and> ({..<length D} \<subseteq> R \<longrightarrow> (\<forall>f. so_Head s = Some f \<longrightarrow> sf_Data f = []) \<longrightarrow> out = D)"
proof -
  have inv: "run_inv D s R out" using assms by (rule sorter_run_inv)
  then have o: "out = take (length out) D" "length out \<le> length D" by (simp_all add: run_inv_def)
  moreover have "{..<length out} \<subseteq> R" using run_inv_received [OF inv] by auto
  moreover have "out = D" if "{..<length D} \<subseteq> R" "\<forall>f. so_Head s = Some f \<longrightarrow> sf_Data f = []"
  proof -
    have "\<not> length out < length D" using run_inv_head [OF inv] that by blast
    with o show ?thesis by simp
  qed
  ultimately show ?thesis using run_inv_head [OF inv] by blast
qed

abbreviation (input) example_frame :: "ByteCount \<Rightarrow> bool \<Rightarrow> u8 list \<Rightarrow> StreamFrame" where
  "example_frame offset fin d \<equiv>
     \<lparr>sf_StreamID = 5, sf_FinBit = fin, sf_DataLenPresent = True, sf_Offset = offset, sf_Data = d\<rparr>"

lemma example_run:
  "sorter_run [1, 2, 3] (snd (so_Push (snd (so_Push newStreamFrameSorter (example_frame 1 False [2]))) (example_frame 0 False [1, 2, 3])))
     ({} \<union> frame_range (example_frame 1 False [2]) \<union> frame_range (example_frame 0 False [1, 2, 3])) []"
proof -
  have "sorter_run [1, 2, 3] newStreamFrameSorter {} []" by (rule run_new) (simp add: unat_max)
  then have "sorter_run [1, 2, 3] (snd (so_Push newStreamFrameSorter (example_frame 1 False [2])))
     ({} \<union> frame_range (example_frame 1 False [2])) []"
    by (rule run_push [where err = "fst (so_Push newStreamFrameSorter (example_frame 1 False [2]))"])
      (simp add: carries_def, simp, code_simp)
  then show ?thesis
    by (rule run_push [where err = "fst (so_Push (snd (so_Push newStreamFrameSorter (example_frame 1 False [2])))
        (example_frame 0 False [1, 2, 3]))"])
      (simp add: carries_def, simp, code_simp)
qed

theorem stream_reassembly_witness:
  "\<exists>f. so_Head (snd (so_Push (snd (so_Push newStreamFrameSorter (example_frame 1 False [2]))) (example_frame 0 False [1, 2, 3]))) = Some f
     \<and> sf_Data f \<noteq> []"
  using stream_reassembly [OF example_run] by (simp add: frame_range_def)

text \<open>C21. The errors of the sorter on the frames of one stream: a frame without data and without the FIN bit, a frame whose
  data has all been received already, which leaves the sorter as it is, and too many gaps. The two errors marked as
  bugs in the code are not among them.\<close>

theorem push_errors:
  assumes "sorter_run D s R out" "carries D f" "so_Push s f = (Some err, s')"
  shows "err = errEmptyStreamData \<and> sf_Data f = [] \<and> \<not> sf_FinBit f \<and> s' = s
    \<or> err = errDuplicateStreamData \<and> frame_range f \<subseteq> R \<and> s' = s
    \<or> err = errTooManyGapsInReceivedStreamData"
proof (cases "sf_Data f = []")
  case True
  with assms(3) show ?thesis by (auto simp: so_Push_def sf_DataLen_def split: if_splits)
next
  case False
  have inv: "run_inv D s R out" using assms(1) by (rule sorter_run_inv)
  moreover have "n < unat protocol_MaxByteCount" if "n \<in> frame_range f" for n
    using that assms(2) inv by (auto simp: frame_range_def carries_def run_inv_def sorter_inv_def)
  ultimately show ?thesis using so_Push_data [OF _ assms(2) False, of s] assms(3)
    by (auto simp: frame_range_def run_inv_def)
qed

theorem push_errors_witness:
  "let s = snd (so_Push (snd (so_Push newStreamFrameSorter (example_frame 1 False [2]))) (example_frame 0 False [1, 2, 3]))
   in frame_range (example_frame 1 False [2, 3]) \<subseteq> {0, 1, 2} \<and> fst (so_Push s (example_frame 1 False [2, 3])) = Some errDuplicateStreamData"
proof -
  let ?s = "snd (so_Push (snd (so_Push newStreamFrameSorter (example_frame 1 False [2]))) (example_frame 0 False [1, 2, 3]))"
  let ?f = "example_frame 1 False [2, 3]"
  have c: "carries [1, 2, 3] ?f" by (simp add: carries_def)
  have e: "fst (so_Push ?s ?f) = Some errDuplicateStreamData" by code_simp
  then obtain s' where p: "so_Push ?s ?f = (Some errDuplicateStreamData, s')" by (cases "so_Push ?s ?f") simp
  have "frame_range ?f \<subseteq> {} \<union> frame_range (example_frame 1 False [2]) \<union> frame_range (example_frame 0 False [1, 2, 3])"
    using push_errors [OF example_run c p] by simp
  also have "\<dots> \<subseteq> {0, 1, 2}" by (auto simp: frame_range_def)
  finally show ?thesis using e by (simp only: Let_def)
qed

text \<open>C31. The FIN bit survives a cut: when the end of a stream \<open>D\<close> arrives first, in a frame without the FIN bit, and
  then the whole stream in a frame with it, the sorter cuts the second frame where the first one starts but leaves it the
  FIN bit, whatever the stream and the place of the cut. The head of the queue then has the FIN bit although it ends
  before the stream does, so that a reader sees the end of the stream too early.\<close>

theorem cut_frame_keeps_fin_bit:
  assumes "carries D f" "\<not> sf_FinBit f" "0 < unat (sf_Offset f)" "unat (sf_Offset f) + length (sf_Data f) = length D"
    and "sf_Data f \<noteq> []" "length D < unat protocol_MaxByteCount"
    and "carries D g" "sf_FinBit g" "sf_Offset g = 0" "sf_Data g = D"
  shows "let (err, s) = so_Push newStreamFrameSorter f; (err', s') = so_Push s g
    in err = None \<and> err' = None \<and> so_Head s' = Some (g\<lparr>sf_Data := take (unat (sf_Offset f)) D\<rparr>)
      \<and> unat (sf_Offset f) < length D"
proof -
  let ?m = "protocol_MaxByteCount" and ?o = "sf_Offset f"
  define e where "e = sf_DataLen g"
  have gl: "sf_DataLen g = e" and ue: "unat e = length D"
    using carries_len [OF assms(7,6)] assms(10) by (simp_all add: e_def)
  have fl: "unat (sf_DataLen f) = length (sf_Data f)" by (rule carries_len [OF assms(1,6)])
  have fe: "?o + sf_DataLen f = e"
    using carries_offset [OF assms(1,6), of "length (sf_Data f)"] assms(4) ue by (simp add: sf_DataLen_def word_unat_eq_iff)
  have lt: "unat ?o < length D" using assms(4,5) by (cases "sf_Data f") auto
  then have le: "sf_DataLen f \<noteq> 0" "?o \<noteq> 0" "e \<noteq> ?m" "e < ?m" "\<not> ?m < e" "0 < e" "?o \<le> ?m" "?o < e" "e \<noteq> 0" "0 < ?o"
    using fl ue assms(3,5,6) by (auto simp: word_less_nat_alt word_le_nat_alt)
  have s1: "so_Push newStreamFrameSorter f = (None, newStreamFrameSorter\<lparr>so_gaps := [\<lparr>gStart = 0, gEnd = ?o\<rparr>, \<lparr>gStart = e, gEnd = ?m\<rparr>],
      so_queuedFrames := [?o \<mapsto> f]\<rparr>)"
    using le fe by (simp add: so_Push_def cutQueued_def newStreamFrameSorter_def cutStart_def cutEnd_def adjustGaps_def
        MaxStreamFrameSorterGaps_def Let_def)
  have s2: "so_Push (newStreamFrameSorter\<lparr>so_gaps := [\<lparr>gStart = 0, gEnd = ?o\<rparr>, \<lparr>gStart = e, gEnd = ?m\<rparr>],
      so_queuedFrames := [?o \<mapsto> f]\<rparr>) g = (None, newStreamFrameSorter\<lparr>so_gaps := [\<lparr>gStart = e, gEnd = ?m\<rparr>],
      so_queuedFrames := [?o \<mapsto> f, 0 \<mapsto> g\<lparr>sf_Data := take (unat ?o) D\<rparr>]\<rparr>)"
    using le gl assms(9,10) by (simp add: so_Push_def cutQueued_def newStreamFrameSorter_def cutStart_def cutEnd_def adjustGaps_def
        MaxStreamFrameSorterGaps_def Let_def)
  have "so_readPosition newStreamFrameSorter = 0" by (simp add: newStreamFrameSorter_def)
  then show ?thesis using lt by (simp add: s1 s2 so_Head_def)
qed

theorem cut_frame_keeps_fin_bit_witness:
  "so_Head (snd (so_Push (snd (so_Push newStreamFrameSorter (example_frame 1 False [2, 3]))) (example_frame 0 True [1, 2, 3])))
     = Some (example_frame 0 True [1])"
  using cut_frame_keeps_fin_bit [of "[1, 2, 3]" "example_frame 1 False [2, 3]" "example_frame 0 True [1, 2, 3]"]
  by (simp add: carries_def unat_max split: prod.splits)

end
