(* ===== verification/Rtt_Stats.thy ===== *)
theory Rtt_Stats
  imports Protocol_Numbers
begin

text \<open>Round-trip statistics of a path (\<^verbatim>\<open>congestion/rtt_stats.go\<close>). The smoothing runs in
  \<^verbatim>\<open>float32\<close>, which is modelled exactly: every value is a dyadic number with a fixed denominator, held as its numerator,
  and every operation rounds to 24 significant bits. The range of the exponents is never left, and the
  compiler does not fuse multiplications with additions on the common platform.\<close>

section \<open>Rounding of floating-point numbers\<close>

text \<open>Rounding of a number to \<open>p\<close> significant bits, to the nearest and in a tie to the even number. Since it is the same
  for a number and the number times a power of two, the denominator plays no role. \<open>intbits\<close> is the number of
  binary digits.\<close>

function intbits :: "int \<Rightarrow> nat" where
  "intbits n = (if n \<le> 0 then 0 else Suc (intbits (n div 2)))"
  by pat_completeness auto
termination by (relation "measure nat") auto

declare intbits.simps [simp del]

definition roundPos :: "nat \<Rightarrow> int \<Rightarrow> int" where
  "roundPos p n =
     (let e = intbits n - p; m = n div 2 ^ e; r = n mod 2 ^ e
      in (if 2 * r > 2 ^ e \<or> 2 * r = 2 ^ e \<and> odd m then m + 1 else m) * 2 ^ e)"

definition roundSig :: "nat \<Rightarrow> int \<Rightarrow> int" where
  "roundSig p x = (if x < 0 then - roundPos p (- x) else roundPos p x)"

abbreviation round32 :: "int \<Rightarrow> int" where "round32 \<equiv> roundSig 24"
abbreviation round64 :: "int \<Rightarrow> int" where "round64 \<equiv> roundSig 53"

lemma intbits_le: "n < 2 ^ p \<Longrightarrow> intbits n \<le> p"
proof (induction p arbitrary: n)
  case (Suc p)
  then have "n div 2 < 2 ^ p" by auto
  with Suc.IH show ?case by (subst intbits.simps) simp
qed (simp add: intbits.simps)

lemma roundSig_exact: "\<bar>x\<bar> < 2 ^ p \<Longrightarrow> roundSig p x = x"
  using intbits_le [of "\<bar>x\<bar>" p] by (cases "x < 0") (simp_all add: roundSig_def roundPos_def)

section \<open>Definitions\<close>

record rttSample =
  rs_rtt :: duration
  rs_time :: gotime

record RTTStats =
  rtt_initialRTTus :: int
  rtt_recentMinRTTwindow :: duration
  rtt_minRTT :: duration
  rtt_latestRTT :: duration
  rtt_smoothedRTT :: duration
  rtt_meanDeviation :: duration
  rtt_numMinRTTsamplesRemaining :: u32
  rtt_newMinRTT :: rttSample
  rtt_recentMinRTT :: rttSample
  rtt_halfWindowRTT :: rttSample
  rtt_quarterWindowRTT :: rttSample

definition initialRTTus :: int where "initialRTTus = 100 * 1000"

definition zero_rttSample :: rttSample where "zero_rttSample = \<lparr>rs_rtt = 0, rs_time = zero_time\<rparr>"

definition NewRTTStats :: RTTStats where
  "NewRTTStats = \<lparr>rtt_initialRTTus = initialRTTus, rtt_recentMinRTTwindow = InfDuration, rtt_minRTT = 0,
     rtt_latestRTT = 0, rtt_smoothedRTT = 0, rtt_meanDeviation = 0, rtt_numMinRTTsamplesRemaining = 0,
     rtt_newMinRTT = zero_rttSample, rtt_recentMinRTT = zero_rttSample, rtt_halfWindowRTT = zero_rttSample,
     rtt_quarterWindowRTT = zero_rttSample\<rparr>"

text \<open>The methods \<^verbatim>\<open>InitialRTTus\<close>, \<^verbatim>\<open>MinRTT\<close>, \<^verbatim>\<open>LatestRTT\<close>, \<^verbatim>\<open>SmoothedRTT\<close> and \<^verbatim>\<open>MeanDeviation\<close> are the
  selectors of the record.\<close>

definition RecentMinRTT :: "RTTStats \<Rightarrow> duration" where "RecentMinRTT r = rs_rtt (rtt_recentMinRTT r)"
definition GetQuarterWindowRTT :: "RTTStats \<Rightarrow> duration" where "GetQuarterWindowRTT r = rs_rtt (rtt_quarterWindowRTT r)"
definition GetHalfWindowRTT :: "RTTStats \<Rightarrow> duration" where "GetHalfWindowRTT r = rs_rtt (rtt_halfWindowRTT r)"

definition SetRecentMinRTTwindow :: "RTTStats \<Rightarrow> duration \<Rightarrow> RTTStats" where
  "SetRecentMinRTTwindow r w = r\<lparr>rtt_recentMinRTTwindow := w\<rparr>"

text \<open>The three parts of \<^verbatim>\<open>updateRecentMinRTT\<close>: the samples that a call of \<^verbatim>\<open>SampleNewRecentMinRTT\<close> asked for, the three
  windows, and the expiry of old samples. \<open>windowPart r d\<close> is the \<open>d\<close>-th part of the window, computed in
  \<^verbatim>\<open>float32\<close> for \<open>d = 2\<close> and \<open>d = 4\<close>.\<close>

definition takeNewSample :: "duration \<Rightarrow> gotime \<Rightarrow> RTTStats \<Rightarrow> RTTStats" where
  "takeNewSample sample now r =
     (if rtt_numMinRTTsamplesRemaining r > 0 then
        let r = r\<lparr>rtt_numMinRTTsamplesRemaining := rtt_numMinRTTsamplesRemaining r - 1\<rparr>;
            r = (if rs_rtt (rtt_newMinRTT r) = 0 \<or> sample \<le> rs_rtt (rtt_newMinRTT r)
              then r\<lparr>rtt_newMinRTT := \<lparr>rs_rtt = sample, rs_time = now\<rparr>\<rparr> else r)
        in if rtt_numMinRTTsamplesRemaining r = 0
           then r\<lparr>rtt_recentMinRTT := rtt_newMinRTT r, rtt_halfWindowRTT := rtt_newMinRTT r,
                  rtt_quarterWindowRTT := rtt_newMinRTT r\<rparr>
           else r
      else r)"

definition updateWindows :: "duration \<Rightarrow> gotime \<Rightarrow> RTTStats \<Rightarrow> RTTStats" where
  "updateWindows sample now r =
     (let new = \<lparr>rs_rtt = sample, rs_time = now\<rparr> in
      if rs_rtt (rtt_recentMinRTT r) = 0 \<or> sample \<le> rs_rtt (rtt_recentMinRTT r)
      then r\<lparr>rtt_recentMinRTT := new, rtt_halfWindowRTT := new, rtt_quarterWindowRTT := new\<rparr>
      else if sample \<le> rs_rtt (rtt_halfWindowRTT r)
      then r\<lparr>rtt_halfWindowRTT := new, rtt_quarterWindowRTT := new\<rparr>
      else if sample \<le> rs_rtt (rtt_quarterWindowRTT r) then r\<lparr>rtt_quarterWindowRTT := new\<rparr>
      else r)"

definition windowPart :: "RTTStats \<Rightarrow> int \<Rightarrow> duration" where
  "windowPart r d = quot (round32 (round32 (quot (rtt_recentMinRTTwindow r) Microsecond))) d"

definition expireSamples :: "duration \<Rightarrow> gotime \<Rightarrow> RTTStats \<Rightarrow> RTTStats" where
  "expireSamples sample now r =
     (let new = \<lparr>rs_rtt = sample, rs_time = now\<rparr> in
      if rs_time (rtt_recentMinRTT r) < time_add now (i64 (- rtt_recentMinRTTwindow r))
      then r\<lparr>rtt_recentMinRTT := rtt_halfWindowRTT r, rtt_halfWindowRTT := rtt_quarterWindowRTT r,
             rtt_quarterWindowRTT := new\<rparr>
      else if rs_time (rtt_halfWindowRTT r) < time_add now (i64 (i64 (- windowPart r 2) * Microsecond))
      then r\<lparr>rtt_halfWindowRTT := rtt_quarterWindowRTT r, rtt_quarterWindowRTT := new\<rparr>
      else if rs_time (rtt_quarterWindowRTT r) < time_add now (i64 (i64 (- windowPart r 4) * Microsecond))
      then r\<lparr>rtt_quarterWindowRTT := new\<rparr>
      else r)"

definition updateRecentMinRTT :: "RTTStats \<Rightarrow> duration \<Rightarrow> gotime \<Rightarrow> RTTStats" where
  "updateRecentMinRTT r sample now = expireSamples sample now (updateWindows sample now (takeNewSample sample now r))"

text \<open>The moving averages. \<open>smoothDeviation\<close> has denominator 4 (\<open>oneMinusBeta\<close> is 3/4), \<open>smoothRTT\<close> has denominator 8
  (\<open>oneMinusAlpha\<close> is 7/8). The conversion to an integer drops the fraction.\<close>

definition smoothDeviation :: "duration \<Rightarrow> duration \<Rightarrow> duration" where
  "smoothDeviation meanDeviation dev =
     i64 (quot (round32 (round32 (3 * round32 (quot meanDeviation Microsecond))
                         + round32 (round32 (quot dev Microsecond)))) 4 * Microsecond)"

definition smoothRTT :: "duration \<Rightarrow> duration \<Rightarrow> duration" where
  "smoothRTT smoothedRTT sample =
     i64 (quot (round32 (round32 (7 * round32 (quot smoothedRTT Microsecond))
                         + round32 (round32 (quot sample Microsecond)))) 8 * Microsecond)"

definition UpdateRTT :: "RTTStats \<Rightarrow> duration \<Rightarrow> duration \<Rightarrow> gotime \<Rightarrow> RTTStats" where
  "UpdateRTT r sendDelta ackDelay now =
     (if sendDelta = InfDuration \<or> sendDelta \<le> 0 then r
      else
        let r = (if rtt_minRTT r = 0 \<or> rtt_minRTT r > sendDelta then r\<lparr>rtt_minRTT := sendDelta\<rparr> else r);
            r = updateRecentMinRTT r sendDelta now;
            sample = (if sendDelta > ackDelay then i64 (sendDelta - ackDelay) else sendDelta);
            r = r\<lparr>rtt_latestRTT := sample\<rparr>
        in if rtt_smoothedRTT r = 0
           then r\<lparr>rtt_smoothedRTT := sample, rtt_meanDeviation := quot sample 2\<rparr>
           else r\<lparr>rtt_meanDeviation :=
                    smoothDeviation (rtt_meanDeviation r) (AbsDuration (i64 (rtt_smoothedRTT r - sample))),
                  rtt_smoothedRTT := smoothRTT (rtt_smoothedRTT r) sample\<rparr>)"

definition SampleNewRecentMinRTT :: "RTTStats \<Rightarrow> u32 \<Rightarrow> RTTStats" where
  "SampleNewRecentMinRTT r numSamples =
     r\<lparr>rtt_numMinRTTsamplesRemaining := numSamples, rtt_newMinRTT := zero_rttSample\<rparr>"

definition rtt_OnConnectionMigration :: "RTTStats \<Rightarrow> RTTStats" where
  "rtt_OnConnectionMigration r =
     r\<lparr>rtt_latestRTT := 0, rtt_minRTT := 0, rtt_smoothedRTT := 0, rtt_meanDeviation := 0,
       rtt_initialRTTus := initialRTTus, rtt_numMinRTTsamplesRemaining := 0,
       rtt_recentMinRTTwindow := InfDuration, rtt_recentMinRTT := zero_rttSample,
       rtt_halfWindowRTT := zero_rttSample, rtt_quarterWindowRTT := zero_rttSample\<rparr>"

definition ExpireSmoothedMetrics :: "RTTStats \<Rightarrow> RTTStats" where
  "ExpireSmoothedMetrics r =
     (let r = r\<lparr>rtt_meanDeviation :=
          MaxDuration (rtt_meanDeviation r) (AbsDuration (i64 (rtt_smoothedRTT r - rtt_latestRTT r)))\<rparr>
      in r\<lparr>rtt_smoothedRTT := MaxDuration (rtt_smoothedRTT r) (rtt_latestRTT r)\<rparr>)"

definition UpdateSessionRTT :: "RTTStats \<Rightarrow> duration \<Rightarrow> RTTStats" where
  "UpdateSessionRTT r smoothedRTT = r\<lparr>rtt_smoothedRTT := smoothedRTT\<rparr>"

section \<open>Minima and windows\<close>

text \<open>The send deltas that count, the calls that change the statistics, and what is known after them: \<open>S\<close> is the set of
  the valid samples so far.\<close>

definition valid_sample :: "duration \<Rightarrow> bool" where
  "valid_sample d \<longleftrightarrow> 0 < d \<and> d \<noteq> InfDuration"

inductive rtt_run :: "RTTStats \<Rightarrow> duration set \<Rightarrow> bool" where
  rtt_new: "rtt_run NewRTTStats {}"
| rtt_update: "rtt_run r S \<Longrightarrow> rtt_run (UpdateRTT r d ackDelay now) (if valid_sample d then insert d S else S)"
| rtt_sample: "rtt_run r S \<Longrightarrow> rtt_run (SampleNewRecentMinRTT r n) S"
| rtt_window: "rtt_run r S \<Longrightarrow> rtt_run (SetRecentMinRTTwindow r w) S"
| rtt_expire: "rtt_run r S \<Longrightarrow> rtt_run (ExpireSmoothedMetrics r) S"
| rtt_session: "rtt_run r S \<Longrightarrow> rtt_run (UpdateSessionRTT r d) S"
| rtt_migrate: "rtt_run r S \<Longrightarrow> rtt_run (rtt_OnConnectionMigration r) {}"

definition windows_ok :: "RTTStats \<Rightarrow> duration set \<Rightarrow> bool" where
  "windows_ok r S \<longleftrightarrow>
     (if S = {} then rs_rtt (rtt_recentMinRTT r) = 0 \<and> rs_rtt (rtt_halfWindowRTT r) = 0 \<and> rs_rtt (rtt_quarterWindowRTT r) = 0
      else rs_rtt (rtt_recentMinRTT r) \<in> S \<and> rs_rtt (rtt_halfWindowRTT r) \<in> S \<and> rs_rtt (rtt_quarterWindowRTT r) \<in> S
        \<and> rs_rtt (rtt_recentMinRTT r) \<le> rs_rtt (rtt_halfWindowRTT r)
        \<and> rs_rtt (rtt_halfWindowRTT r) \<le> rs_rtt (rtt_quarterWindowRTT r))"

definition rtt_inv :: "RTTStats \<Rightarrow> duration set \<Rightarrow> bool" where
  "rtt_inv r S \<longleftrightarrow> finite S \<and> (\<forall>d \<in> S. 0 < d) \<and> windows_ok r S
     \<and> rtt_minRTT r = (if S = {} then 0 else Min S)
     \<and> (rtt_numMinRTTsamplesRemaining r > 0 \<longrightarrow> rs_rtt (rtt_newMinRTT r) \<in> insert 0 S)"

lemma takeNewSample_frame [simp]:
  "rtt_minRTT (takeNewSample d now r) = rtt_minRTT r" "rtt_smoothedRTT (takeNewSample d now r) = rtt_smoothedRTT r"
  "rtt_meanDeviation (takeNewSample d now r) = rtt_meanDeviation r"
  by (simp_all add: takeNewSample_def Let_def)

lemma updateWindows_frame [simp]:
  "rtt_minRTT (updateWindows d now r) = rtt_minRTT r" "rtt_smoothedRTT (updateWindows d now r) = rtt_smoothedRTT r"
  "rtt_meanDeviation (updateWindows d now r) = rtt_meanDeviation r"
  by (simp_all add: updateWindows_def Let_def)

lemma expireSamples_frame [simp]:
  "rtt_minRTT (expireSamples d now r) = rtt_minRTT r" "rtt_smoothedRTT (expireSamples d now r) = rtt_smoothedRTT r"
  "rtt_meanDeviation (expireSamples d now r) = rtt_meanDeviation r"
  by (simp_all add: expireSamples_def Let_def)

lemma updateRecentMinRTT_frame [simp]:
  "rtt_minRTT (updateRecentMinRTT r d now) = rtt_minRTT r"
  "rtt_smoothedRTT (updateRecentMinRTT r d now) = rtt_smoothedRTT r"
  "rtt_meanDeviation (updateRecentMinRTT r d now) = rtt_meanDeviation r"
  by (simp_all add: updateRecentMinRTT_def)

lemma takeNewSample_inv:
  fixes now
  assumes "0 < d" "windows_ok r S" "\<forall>x \<in> S. 0 < x"
    "rtt_numMinRTTsamplesRemaining r > 0 \<longrightarrow> rs_rtt (rtt_newMinRTT r) \<in> insert 0 S"
  defines "r' \<equiv> takeNewSample d now r"
  shows "windows_ok r' (insert d S) \<or> windows_ok r' S"
    "rtt_numMinRTTsamplesRemaining r' > 0 \<longrightarrow> rs_rtt (rtt_newMinRTT r') \<in> insert d S"
  using assms by (auto simp: takeNewSample_def Let_def windows_ok_def split: if_splits)

lemma updateWindows_inv:
  fixes now
  assumes "0 < d" "windows_ok r (insert d S) \<or> windows_ok r S" "\<forall>x \<in> S. 0 < x"
  defines "r' \<equiv> updateWindows d now r"
  shows "windows_ok r' (insert d S)" "rs_rtt (rtt_quarterWindowRTT r') \<le> d"
    "rtt_numMinRTTsamplesRemaining r' = rtt_numMinRTTsamplesRemaining r" "rtt_newMinRTT r' = rtt_newMinRTT r"
  using assms by (auto simp: updateWindows_def Let_def windows_ok_def split: if_splits)

lemma expireSamples_inv:
  fixes now
  assumes "windows_ok r (insert d S)" "rs_rtt (rtt_quarterWindowRTT r) \<le> d"
  defines "r' \<equiv> expireSamples d now r"
  shows "windows_ok r' (insert d S)"
    "rtt_numMinRTTsamplesRemaining r' = rtt_numMinRTTsamplesRemaining r" "rtt_newMinRTT r' = rtt_newMinRTT r"
  using assms by (auto simp: expireSamples_def Let_def windows_ok_def split: if_splits)

lemma updateRecentMinRTT_inv:
  fixes now
  assumes "0 < d" "windows_ok r S" "\<forall>x \<in> S. 0 < x"
    "rtt_numMinRTTsamplesRemaining r > 0 \<longrightarrow> rs_rtt (rtt_newMinRTT r) \<in> insert 0 S"
  defines "r' \<equiv> updateRecentMinRTT r d now"
  shows "windows_ok r' (insert d S)"
    "rtt_numMinRTTsamplesRemaining r' > 0 \<longrightarrow> rs_rtt (rtt_newMinRTT r') \<in> insert d S"
proof -
  note t = takeNewSample_inv [OF assms(1-4), of now]
  note w = updateWindows_inv [OF assms(1) t(1) assms(3), of now]
  note e = expireSamples_inv [OF w(1,2), of now]
  show "windows_ok r' (insert d S)"
    "rtt_numMinRTTsamplesRemaining r' > 0 \<longrightarrow> rs_rtt (rtt_newMinRTT r') \<in> insert d S"
    using e w t(2) by (simp_all add: r'_def updateRecentMinRTT_def)
qed

lemma UpdateRTT_fields:
  fixes r now ackDelay
  assumes "valid_sample d"
  defines "m \<equiv> r\<lparr>rtt_minRTT := (if rtt_minRTT r = 0 \<or> rtt_minRTT r > d then d else rtt_minRTT r)\<rparr>"
  defines "u \<equiv> updateRecentMinRTT m d now" and "r' \<equiv> UpdateRTT r d ackDelay now"
  shows "rtt_minRTT r' = rtt_minRTT m" "windows_ok r' S = windows_ok u S"
    "rtt_numMinRTTsamplesRemaining r' = rtt_numMinRTTsamplesRemaining u" "rtt_newMinRTT r' = rtt_newMinRTT u"
proof -
  have "r' = (let sample = (if d > ackDelay then i64 (d - ackDelay) else d); v = u\<lparr>rtt_latestRTT := sample\<rparr>
     in if rtt_smoothedRTT v = 0
           then v\<lparr>rtt_smoothedRTT := sample, rtt_meanDeviation := quot sample 2\<rparr>
           else v\<lparr>rtt_meanDeviation :=
                    smoothDeviation (rtt_meanDeviation v) (AbsDuration (i64 (rtt_smoothedRTT v - sample))),
                  rtt_smoothedRTT := smoothRTT (rtt_smoothedRTT v) sample\<rparr>)"
    using assms(1) unfolding r'_def u_def m_def UpdateRTT_def valid_sample_def Let_def
    by (cases "rtt_minRTT r = 0 \<or> rtt_minRTT r > d") simp_all
  then show "rtt_minRTT r' = rtt_minRTT m" "windows_ok r' S = windows_ok u S"
    "rtt_numMinRTTsamplesRemaining r' = rtt_numMinRTTsamplesRemaining u" "rtt_newMinRTT r' = rtt_newMinRTT u"
    by (simp_all add: Let_def windows_ok_def u_def)
qed

lemma UpdateRTT_invalid: "\<not> valid_sample d \<Longrightarrow> UpdateRTT r d ackDelay now = r"
  by (auto simp: UpdateRTT_def valid_sample_def)

lemma rtt_inv_update:
  assumes inv: "rtt_inv r S" and d: "valid_sample d"
  shows "rtt_inv (UpdateRTT r d ackDelay now) (insert d S)"
proof -
  define m where "m = r\<lparr>rtt_minRTT := (if rtt_minRTT r = 0 \<or> rtt_minRTT r > d then d else rtt_minRTT r)\<rparr>"
  have pos: "0 < d" using d by (simp add: valid_sample_def)
  have m: "windows_ok m S" "\<forall>x \<in> S. 0 < x" "finite S"
    "rtt_numMinRTTsamplesRemaining m > 0 \<longrightarrow> rs_rtt (rtt_newMinRTT m) \<in> insert 0 S"
    using inv by (auto simp: rtt_inv_def m_def windows_ok_def)
  note u = updateRecentMinRTT_inv [OF pos m(1,2,4), of now]
  have "rtt_minRTT m = Min (insert d S)"
  proof (cases "S = {}")
    case False
    define x where "x = Min S"
    have "Min (insert d S) = min d x" using False m(3) by (simp add: x_def)
    moreover have "x \<in> S" using False m(3) unfolding x_def by (intro Min_in)
    moreover have "rtt_minRTT r = x" using inv False by (simp add: rtt_inv_def x_def)
    ultimately show ?thesis using m(2) by (auto simp: m_def min_def)
  qed (use inv in \<open>simp add: m_def rtt_inv_def\<close>)
  then show ?thesis using u m pos
    by (simp add: rtt_inv_def UpdateRTT_fields [OF d, where r = r and now = now and ackDelay = ackDelay, folded m_def])
qed

lemma rtt_run_inv: "rtt_run r S \<Longrightarrow> rtt_inv r S"
proof (induction rule: rtt_run.induct)
  case rtt_new
  then show ?case by (simp add: rtt_inv_def windows_ok_def NewRTTStats_def zero_rttSample_def)
next
  case (rtt_update r S d ackDelay now)
  then show ?case by (cases "valid_sample d") (simp_all add: rtt_inv_update UpdateRTT_invalid)
qed (auto simp: rtt_inv_def windows_ok_def SampleNewRecentMinRTT_def zero_rttSample_def SetRecentMinRTTwindow_def
    ExpireSmoothedMetrics_def UpdateSessionRTT_def rtt_OnConnectionMigration_def)

section \<open>Smoothing\<close>

lemma smoothRTT_eq:
  assumes "0 \<le> s" "s < 2 ^ 21 * Microsecond" "0 \<le> x" "x < 2 ^ 21 * Microsecond"
  shows "smoothRTT s x = (7 * (s div Microsecond) + x div Microsecond) div 8 * Microsecond"
proof -
  have b: "0 \<le> s div 1000" "s div 1000 < 2 ^ 21" "0 \<le> x div 1000" "x div 1000 < 2 ^ 21"
    using assms by (simp_all add: pos_imp_zdiv_nonneg_iff div_less_iff_less_mult)
  then have "round32 (s div 1000) = s div 1000" "round32 (x div 1000) = x div 1000"
    "round32 (7 * (s div 1000)) = 7 * (s div 1000)"
    "round32 (7 * (s div 1000) + x div 1000) = 7 * (s div 1000) + x div 1000"
    by (auto intro!: roundSig_exact)
  moreover have "i64 ((7 * (s div 1000) + x div 1000) div 8 * 1000) = (7 * (s div 1000) + x div 1000) div 8 * 1000"
    using b by (intro i64_id) (auto simp: minInt64_def maxInt64_def)
  ultimately show ?thesis using assms b by (simp add: smoothRTT_def quot_nonneg)
qed

text \<open>The sample that enters the average.\<close>

definition rtt_sample :: "duration \<Rightarrow> duration \<Rightarrow> duration" where
  "rtt_sample d ackDelay = (if d > ackDelay then d - ackDelay else d)"

lemma UpdateRTT_smoothed:
  assumes "valid_sample d" "0 \<le> ackDelay" "d \<le> maxInt64"
  shows "rtt_smoothedRTT (UpdateRTT r d ackDelay now) =
    (if rtt_smoothedRTT r = 0 then rtt_sample d ackDelay else smoothRTT (rtt_smoothedRTT r) (rtt_sample d ackDelay))"
proof -
  have "i64 (d - ackDelay) = d - ackDelay" if "d > ackDelay"
    using that assms by (intro i64_id) (auto simp: minInt64_def)
  then show ?thesis using assms(1) by (auto simp: UpdateRTT_def valid_sample_def rtt_sample_def Let_def)
qed

fun rtt_updates :: "RTTStats \<Rightarrow> (duration \<times> duration \<times> gotime) list \<Rightarrow> RTTStats" where
  "rtt_updates r [] = r"
| "rtt_updates r ((d, ackDelay, now) # us) = rtt_updates (UpdateRTT r d ackDelay now) us"

lemma smoothRTT_between:
  assumes "lo \<le> s" "s \<le> hi" "lo \<le> x" "x \<le> hi" "0 < lo" "hi < 2 ^ 21 * Microsecond" "Microsecond dvd lo"
  shows "lo \<le> smoothRTT s x \<and> smoothRTT s x \<le> hi"
proof -
  have eq: "smoothRTT s x = (7 * (s div 1000) + x div 1000) div 8 * 1000"
    using assms by (intro smoothRTT_eq) auto
  obtain k where k: "lo = 1000 * k" using assms(7) by blast
  have "k \<le> s div 1000" "k \<le> x div 1000" using assms(1,3) k by auto
  then have "k \<le> (7 * (s div 1000) + x div 1000) div 8" by auto
  moreover have "(7 * (s div 1000) + x div 1000) div 8 * 1000 \<le> hi"
  proof -
    have "s div 1000 \<le> hi div 1000" "x div 1000 \<le> hi div 1000" using assms by (auto intro: zdiv_mono1)
    then have "(7 * (s div 1000) + x div 1000) div 8 \<le> hi div 1000" by auto
    then show ?thesis by auto
  qed
  ultimately show ?thesis using eq k by auto
qed

lemma rtt_updates_between:
  assumes "\<forall>(d, ackDelay, now) \<in> set us. valid_sample d \<and> d \<le> maxInt64 \<and> 0 \<le> ackDelay
      \<and> lo \<le> rtt_sample d ackDelay \<and> rtt_sample d ackDelay \<le> hi"
    "0 < lo" "hi < 2 ^ 21 * Microsecond" "Microsecond dvd lo"
    "rtt_smoothedRTT r = 0 \<and> us \<noteq> [] \<or> lo \<le> rtt_smoothedRTT r \<and> rtt_smoothedRTT r \<le> hi"
  shows "lo \<le> rtt_smoothedRTT (rtt_updates r us) \<and> rtt_smoothedRTT (rtt_updates r us) \<le> hi"
  using assms
proof (induction us arbitrary: r)
  case (Cons u us)
  obtain d a now where u: "u = (d, a, now)" by (cases u)
  have v: "valid_sample d" "d \<le> maxInt64" "0 \<le> a" "lo \<le> rtt_sample d a" "rtt_sample d a \<le> hi"
    using Cons.prems(1) u by auto
  have "lo \<le> rtt_smoothedRTT (UpdateRTT r d a now) \<and> rtt_smoothedRTT (UpdateRTT r d a now) \<le> hi"
    using Cons.prems(2-5) v smoothRTT_between [of lo "rtt_smoothedRTT r" hi "rtt_sample d a"]
    by (auto simp: UpdateRTT_smoothed)
  with Cons show ?case by (simp add: u)
qed auto

section \<open>Properties\<close>

text \<open>C15. The minima of the round-trip times: after any sequence of calls, the minimum is the least valid sample since the
  last migration, and the minima of the three windows are valid samples that grow from the longest window to the
  shortest.\<close>

theorem rtt_minima:
  assumes "rtt_run r S" "S \<noteq> {}"
  shows "rtt_minRTT r = Min S \<and> RecentMinRTT r \<in> S \<and> GetHalfWindowRTT r \<in> S \<and> GetQuarterWindowRTT r \<in> S
    \<and> rtt_minRTT r \<le> RecentMinRTT r \<and> RecentMinRTT r \<le> GetHalfWindowRTT r \<and> GetHalfWindowRTT r \<le> GetQuarterWindowRTT r"
  using rtt_run_inv [OF assms(1)] assms(2)
  by (simp add: rtt_inv_def windows_ok_def RecentMinRTT_def GetHalfWindowRTT_def GetQuarterWindowRTT_def)

theorem rtt_minima_witness:
  "let r = UpdateRTT (UpdateRTT NewRTTStats 300000000 0 5) 200000000 0 7
   in rtt_minRTT r = Min {300000000, 200000000} \<and> RecentMinRTT r = 200000000"
proof -
  let ?r = "UpdateRTT (UpdateRTT NewRTTStats 300000000 0 5) 200000000 0 7"
  have "rtt_run ?r {200000000, 300000000}"
    using rtt_update [OF rtt_update [OF rtt_new, of 300000000 0 5], of 200000000 0 7]
    by (simp add: valid_sample_def InfDuration_def maxInt64_def)
  from rtt_minima [OF this] have "rtt_minRTT ?r = Min {200000000, 300000000}" by simp
  moreover have "RecentMinRTT ?r = 200000000" by code_simp
  ultimately show ?thesis by (simp add: Let_def insert_commute)
qed

text \<open>C16. The floating-point smoothing is the exact moving average in whole microseconds: as long as the values stay below
  about two seconds, no rounding takes place and the smoothed round-trip time is seven eighths of the old value and one
  eighth of the sample, rounded down.\<close>

theorem smoothed_rtt_exact:
  assumes "valid_sample d" "d < 2 ^ 21 * Microsecond" "0 \<le> ackDelay"
    "0 < rtt_smoothedRTT r" "rtt_smoothedRTT r < 2 ^ 21 * Microsecond"
  shows "rtt_smoothedRTT (UpdateRTT r d ackDelay now) =
    (7 * (rtt_smoothedRTT r div Microsecond) + rtt_sample d ackDelay div Microsecond) div 8 * Microsecond"
proof -
  have "d \<le> maxInt64" using assms(2) by (simp add: maxInt64_def)
  moreover have "0 \<le> rtt_sample d ackDelay" "rtt_sample d ackDelay < 2 ^ 21 * Microsecond"
    using assms by (auto simp: rtt_sample_def valid_sample_def)
  ultimately show ?thesis using assms smoothRTT_eq by (simp add: UpdateRTT_smoothed)
qed

theorem smoothed_rtt_exact_witness:
  "rtt_smoothedRTT (UpdateRTT (UpdateRTT NewRTTStats 300000000 0 5) 200000000 10000000 7) = 286250000"
  using smoothed_rtt_exact [of 200000000 10000000 "UpdateRTT NewRTTStats 300000000 0 5" 7]
  by (simp add: valid_sample_def InfDuration_def maxInt64_def UpdateRTT_smoothed NewRTTStats_def rtt_sample_def)

text \<open>C32. The smoothed round-trip time stays between the bounds of the samples, whatever their number and order. The
  samples (after the subtraction of the delay of the ACK) are valid and lie between \<open>lo\<close>, at least a microsecond, and
  \<open>hi\<close>, below $2^{21}$ microseconds, where the arithmetic is exact. The statistics have no smoothed value yet or one
  between the bounds, and only take samples. The lower bound is \<open>lo\<close> in whole microseconds, because the smoothing rounds down.\<close>

theorem smoothed_rtt_between:
  assumes "\<forall>(d, ackDelay, now) \<in> set us. valid_sample d \<and> d \<le> maxInt64 \<and> 0 \<le> ackDelay
      \<and> lo \<le> rtt_sample d ackDelay \<and> rtt_sample d ackDelay \<le> hi"
    and "Microsecond \<le> lo" "hi < 2 ^ 21 * Microsecond"
    and "rtt_smoothedRTT r = 0 \<and> us \<noteq> []
      \<or> lo div Microsecond * Microsecond \<le> rtt_smoothedRTT r \<and> rtt_smoothedRTT r \<le> hi"
  shows "lo div Microsecond * Microsecond \<le> rtt_smoothedRTT (rtt_updates r us) \<and> rtt_smoothedRTT (rtt_updates r us) \<le> hi"
proof (rule rtt_updates_between)
  have "lo div Microsecond * Microsecond \<le> lo" by simp
  then show "\<forall>(d, ackDelay, now) \<in> set us. valid_sample d \<and> d \<le> maxInt64 \<and> 0 \<le> ackDelay
      \<and> lo div Microsecond * Microsecond \<le> rtt_sample d ackDelay \<and> rtt_sample d ackDelay \<le> hi"
    using assms(1) by fastforce
  show "0 < lo div Microsecond * Microsecond" using assms(2) by simp
qed (use assms in auto)

theorem smoothed_rtt_between_witness:
  "200000000 \<le> rtt_smoothedRTT (rtt_updates NewRTTStats [(300000000, 0, 5), (200000999, 0, 7)])
   \<and> rtt_smoothedRTT (rtt_updates NewRTTStats [(300000000, 0, 5), (200000999, 0, 7)]) \<le> 300000000"
  using smoothed_rtt_between [of "[(300000000, 0, 5), (200000999, 0, 7)]" 200000999 300000000 NewRTTStats]
  by (simp add: valid_sample_def InfDuration_def maxInt64_def rtt_sample_def NewRTTStats_def)

end
