(* ===== verification/Connection_Parameters.thy ===== *)
theory Connection_Parameters
  imports Rtt_Stats
begin

text \<open>The negotiation of the connection parameters in the handshake
  (\<^verbatim>\<open>internal/handshake/connection_parameters_manager.go\<close>). A handshake message is a map from tags to bytes.\<close>

section \<open>Definitions\<close>

type_synonym Tag = u32

definition TagTCID :: Tag where "TagTCID = 0x44494354"
definition TagMSPC :: Tag where "TagMSPC = 0x4350534D"
definition TagMIDS :: Tag where "TagMIDS = 0x5344494D"
definition TagICSL :: Tag where "TagICSL = 0x4C534349"
definition TagSFCW :: Tag where "TagSFCW = 0x57434653"
definition TagCFCW :: Tag where "TagCFCW = 0x57434643"

abbreviation (input) InvalidCryptoMessageParameter :: u32 where "InvalidCryptoMessageParameter \<equiv> 34"

definition ErrMalformedTag :: goerror where "ErrMalformedTag = QuicError InvalidCryptoMessageParameter"
definition ErrFlowControlRenegotiationNotSupported :: goerror where
  "ErrFlowControlRenegotiationNotSupported = QuicError InvalidCryptoMessageParameter"

definition InitialStreamFlowControlWindow :: ByteCount where "InitialStreamFlowControlWindow = push_bit 14 1"
definition InitialConnectionFlowControlWindow :: ByteCount where "InitialConnectionFlowControlWindow = push_bit 14 1"
definition ReceiveStreamFlowControlWindow :: ByteCount where "ReceiveStreamFlowControlWindow = push_bit 10 1 * 32"
definition ReceiveConnectionFlowControlWindow :: ByteCount where "ReceiveConnectionFlowControlWindow = push_bit 10 1 * 48"
definition MaxStreamsPerConnection :: u32 where "MaxStreamsPerConnection = 100"
definition MaxIncomingDynamicStreamsPerConnection :: u32 where "MaxIncomingDynamicStreamsPerConnection = 100"
definition MaxStreamsMinimumIncrement :: u32 where "MaxStreamsMinimumIncrement = 10"

text \<open>The constant 1.1 as a \<^verbatim>\<open>float64\<close>, in units of \<open>2 ^ - 52\<close>.\<close>

definition MaxStreamsMultiplier :: int where "MaxStreamsMultiplier = 0x1199999999999A"

record connectionParametersManager =
  cp_version :: VersionNumber
  cp_perspective :: Perspective
  cp_flowControlNegotiated :: bool
  cp_truncateConnectionID :: bool
  cp_maxStreamsPerConnection :: u32
  cp_maxIncomingDynamicStreamsPerConnection :: u32
  cp_idleConnectionStateLifetime :: duration
  cp_sendStreamFlowControlWindow :: ByteCount
  cp_sendConnectionFlowControlWindow :: ByteCount
  cp_receiveStreamFlowControlWindow :: ByteCount
  cp_receiveConnectionFlowControlWindow :: ByteCount
  cp_maxReceiveStreamFlowControlWindow :: ByteCount
  cp_maxReceiveConnectionFlowControlWindow :: ByteCount

text \<open>Both branches on the perspective set the same values.\<close>

definition NewConnectionParamatersManager ::
  "Perspective \<Rightarrow> VersionNumber \<Rightarrow> ByteCount \<Rightarrow> ByteCount \<Rightarrow> duration \<Rightarrow> connectionParametersManager" where
  "NewConnectionParamatersManager pers v maxStream maxConnection idleTimeout =
     \<lparr>cp_version = v, cp_perspective = pers, cp_flowControlNegotiated = False, cp_truncateConnectionID = False,
      cp_maxStreamsPerConnection = MaxStreamsPerConnection,
      cp_maxIncomingDynamicStreamsPerConnection = MaxStreamsPerConnection,
      cp_idleConnectionStateLifetime = idleTimeout,
      cp_sendStreamFlowControlWindow = InitialStreamFlowControlWindow,
      cp_sendConnectionFlowControlWindow = InitialConnectionFlowControlWindow,
      cp_receiveStreamFlowControlWindow = ReceiveStreamFlowControlWindow,
      cp_receiveConnectionFlowControlWindow = ReceiveConnectionFlowControlWindow,
      cp_maxReceiveStreamFlowControlWindow = maxStream,
      cp_maxReceiveConnectionFlowControlWindow = maxConnection\<rparr>"

definition negotiateMaxStreamsPerConnection :: "u32 \<Rightarrow> u32" where
  "negotiateMaxStreamsPerConnection clientValue = MinUint32 clientValue MaxStreamsPerConnection"

definition negotiateMaxIncomingDynamicStreamsPerConnection :: "u32 \<Rightarrow> u32" where
  "negotiateMaxIncomingDynamicStreamsPerConnection clientValue =
     MinUint32 clientValue MaxIncomingDynamicStreamsPerConnection"

definition negotiateIdleConnectionStateLifetime :: "connectionParametersManager \<Rightarrow> duration \<Rightarrow> duration" where
  "negotiateIdleConnectionStateLifetime h clientValue = MinDuration clientValue (cp_idleConnectionStateLifetime h)"

text \<open>One parameter of the map: if it is present, the 32-bit value is read and handed to \<open>set\<close>. \<open>guard\<close> is an
  error that is raised before the value is read. The manager keeps what the parameters before an error have
  set.\<close>

type_synonym cpStep = "connectionParametersManager \<Rightarrow> goerror option \<times> connectionParametersManager"

definition readParam ::
  "bytes option \<Rightarrow> (connectionParametersManager \<Rightarrow> goerror option)
   \<Rightarrow> (u32 \<Rightarrow> connectionParametersManager \<Rightarrow> connectionParametersManager) \<Rightarrow> cpStep" where
  "readParam param guard setValue h =
     (case param of
        None \<Rightarrow> (None, h)
      | Some val \<Rightarrow>
          (case guard h of
             Some err \<Rightarrow> (Some err, h)
           | None \<Rightarrow>
               (case ReadUint32 LittleEndian val of
                  Inl err \<Rightarrow> (Some ErrMalformedTag, h)
                | Inr (clientValue, r) \<Rightarrow> (None, setValue clientValue h))))"

fun steps :: "cpStep list \<Rightarrow> cpStep" where
  "steps [] h = (None, h)"
| "steps (f # fs) h = (case f h of (None, h) \<Rightarrow> steps fs h | (Some err, h) \<Rightarrow> (Some err, h))"

definition noRenegotiation :: "connectionParametersManager \<Rightarrow> goerror option" where
  "noRenegotiation h = (if cp_flowControlNegotiated h then Some ErrFlowControlRenegotiationNotSupported else None)"

definition SetFromMap ::
  "connectionParametersManager \<Rightarrow> (Tag \<Rightarrow> bytes option) \<Rightarrow> goerror option \<times> connectionParametersManager" where
  "SetFromMap h params =
     steps
       [readParam (if cp_perspective h = PerspectiveServer then params TagTCID else None) (\<lambda>_. None)
          (\<lambda>v h. h\<lparr>cp_truncateConnectionID := (v = 0)\<rparr>),
        readParam (params TagMSPC) (\<lambda>_. None)
          (\<lambda>v h. h\<lparr>cp_maxStreamsPerConnection := negotiateMaxStreamsPerConnection v\<rparr>),
        readParam (params TagMIDS) (\<lambda>_. None)
          (\<lambda>v h. h\<lparr>cp_maxIncomingDynamicStreamsPerConnection := negotiateMaxIncomingDynamicStreamsPerConnection v\<rparr>),
        readParam (params TagICSL) (\<lambda>_. None)
          (\<lambda>v h. h\<lparr>cp_idleConnectionStateLifetime :=
             negotiateIdleConnectionStateLifetime h (i64 (uint v * 1000000000))\<rparr>),
        readParam (params TagSFCW) noRenegotiation (\<lambda>v h. h\<lparr>cp_sendStreamFlowControlWindow := ucast v\<rparr>),
        readParam (params TagCFCW) noRenegotiation (\<lambda>v h. h\<lparr>cp_sendConnectionFlowControlWindow := ucast v\<rparr>),
        (\<lambda>h. (None, if params TagCFCW \<noteq> None \<or> params TagSFCW \<noteq> None
                    then h\<lparr>cp_flowControlNegotiated := True\<rparr> else h))] h"

definition TruncateConnectionID :: "connectionParametersManager \<Rightarrow> bool" where
  "TruncateConnectionID h = (cp_perspective h \<noteq> PerspectiveClient \<and> cp_truncateConnectionID h)"

definition GetHelloMap :: "connectionParametersManager \<Rightarrow> Tag \<Rightarrow> bytes option" where
  "GetHelloMap h =
     [TagICSL \<mapsto> WriteUint32 LittleEndian (word_of_int (quot (cp_idleConnectionStateLifetime h) 1000000000)),
      TagMSPC \<mapsto> WriteUint32 LittleEndian (cp_maxStreamsPerConnection h),
      TagMIDS \<mapsto> WriteUint32 LittleEndian MaxIncomingDynamicStreamsPerConnection,
      TagCFCW \<mapsto> WriteUint32 LittleEndian (ucast (cp_receiveConnectionFlowControlWindow h)),
      TagSFCW \<mapsto> WriteUint32 LittleEndian (ucast (cp_receiveStreamFlowControlWindow h))]"

definition GetMaxOutgoingStreams :: "connectionParametersManager \<Rightarrow> u32" where
  "GetMaxOutgoingStreams h = cp_maxIncomingDynamicStreamsPerConnection h"

text \<open>The product is a \<^verbatim>\<open>float64\<close> in units of \<open>2 ^ - 52\<close>.\<close>

definition GetMaxIncomingStreams :: u32 where
  "GetMaxIncomingStreams =
     (let maxStreams = uint MaxIncomingDynamicStreamsPerConnection
      in MaxUint32 (word_of_int maxStreams + MaxStreamsMinimumIncrement)
           (word_of_int (round64 (round64 maxStreams * MaxStreamsMultiplier) div 2 ^ 52)))"

section \<open>Properties\<close>

lemma steps_append: "steps (fs @ gs) h = (case steps fs h of (None, h) \<Rightarrow> steps gs h | (Some err, h) \<Rightarrow> (Some err, h))"
  by (induction fs arbitrary: h) (auto split: prod.splits option.splits)

lemma tags_distinct [simp]:
  "TagMSPC \<noteq> TagICSL" "TagMIDS \<noteq> TagICSL" "TagMIDS \<noteq> TagMSPC" "TagCFCW \<noteq> TagICSL" "TagCFCW \<noteq> TagMSPC" "TagCFCW \<noteq> TagMIDS"
  "TagSFCW \<noteq> TagICSL" "TagSFCW \<noteq> TagMSPC" "TagSFCW \<noteq> TagMIDS" "TagSFCW \<noteq> TagCFCW" "TagTCID \<noteq> TagICSL"
  "TagTCID \<noteq> TagMSPC" "TagTCID \<noteq> TagMIDS" "TagTCID \<noteq> TagCFCW" "TagTCID \<noteq> TagSFCW"
  by (simp_all add: TagMSPC_def TagICSL_def TagMIDS_def TagCFCW_def TagSFCW_def TagTCID_def)

lemma readParam_None [simp]: "readParam None guard f h = (None, h)"
  by (simp add: readParam_def)

lemma readParam_written [simp]:
  "guard h = None \<Longrightarrow> readParam (Some (le_WriteUint32 v)) guard f h = (None, f v h)"
  using bo.read32_write32 [of LittleEndian v "[]"] by (simp add: readParam_def)

lemma GetHelloMap_lookup:
  "GetHelloMap h TagTCID = None" 
  "GetHelloMap h TagICSL = Some (WriteUint32 LittleEndian (word_of_int (quot (cp_idleConnectionStateLifetime h) 1000000000)))"
  "GetHelloMap h TagMSPC = Some (WriteUint32 LittleEndian (cp_maxStreamsPerConnection h))"
  "GetHelloMap h TagMIDS = Some (WriteUint32 LittleEndian MaxIncomingDynamicStreamsPerConnection)"
  "GetHelloMap h TagCFCW = Some (WriteUint32 LittleEndian (ucast (cp_receiveConnectionFlowControlWindow h)))"
  "GetHelloMap h TagSFCW = Some (WriteUint32 LittleEndian (ucast (cp_receiveStreamFlowControlWindow h)))"
  by (simp_all add: GetHelloMap_def tags_distinct [symmetric])

text \<open>C33. The hello of one side, read by the other: the receive windows of the sender of the hello become the send windows of
  the receiver, the idle timeout becomes the smaller one of the two in whole seconds, the number of streams the smaller one of the
  number sent and the own maximum, and the windows cannot be changed again.\<close>

theorem hello_negotiation:
  assumes "0 \<le> cp_idleConnectionStateLifetime a" "cp_idleConnectionStateLifetime a < 2 ^ 32 * 1000000000"
    "unat (cp_receiveStreamFlowControlWindow a) < 2 ^ 32" "unat (cp_receiveConnectionFlowControlWindow a) < 2 ^ 32"
    "\<not> cp_flowControlNegotiated b"
  shows "SetFromMap b (GetHelloMap a) = (None, b
    \<lparr>cp_maxStreamsPerConnection := min (cp_maxStreamsPerConnection a) MaxStreamsPerConnection,
     cp_maxIncomingDynamicStreamsPerConnection := MaxIncomingDynamicStreamsPerConnection,
     cp_idleConnectionStateLifetime :=
       min (cp_idleConnectionStateLifetime a div 1000000000 * 1000000000) (cp_idleConnectionStateLifetime b),
     cp_sendStreamFlowControlWindow := cp_receiveStreamFlowControlWindow a,
     cp_sendConnectionFlowControlWindow := cp_receiveConnectionFlowControlWindow a,
     cp_flowControlNegotiated := True\<rparr>)"
proof -
  define secs where "secs = cp_idleConnectionStateLifetime a div 1000000000"
  have secs: "0 \<le> secs" "secs < 2 ^ 32" using assms(1,2) by (simp_all add: secs_def pos_imp_zdiv_nonneg_iff div_less_iff_less_mult)
  have "uint (word_of_int secs :: u32) = secs" using secs by (simp add: uint_word_of_int)
  moreover have "i64 (secs * 1000000000) = secs * 1000000000"
    using secs by (intro i64_id) (simp_all add: minInt64_def maxInt64_def)
  moreover have "quot (cp_idleConnectionStateLifetime a) 1000000000 = secs" using assms(1) by (simp add: quot_nonneg secs_def)
  moreover have "ucast (ucast w :: u32) = w" if "unat w < 2 ^ 32" for w :: u64
    using that by (simp add: word_unat_eq_iff unsigned_ucast_eq unsigned_take_bit_eq take_bit_nat_eq_self)
  ultimately show ?thesis using assms(3-5)
    by (simp add: SetFromMap_def GetHelloMap_lookup noRenegotiation_def negotiateMaxStreamsPerConnection_def
        negotiateMaxIncomingDynamicStreamsPerConnection_def negotiateIdleConnectionStateLifetime_def secs_def [symmetric])
qed

theorem hello_negotiation_witness:
  "cp_sendStreamFlowControlWindow (snd (SetFromMap (NewConnectionParamatersManager PerspectiveServer 39 0 0 30000000000)
     (GetHelloMap (NewConnectionParamatersManager PerspectiveClient 39 0 0 20000000000)))) = 32768"
  using hello_negotiation [of "NewConnectionParamatersManager PerspectiveClient 39 0 0 20000000000"
      "NewConnectionParamatersManager PerspectiveServer 39 0 0 30000000000"]
  by (simp add: NewConnectionParamatersManager_def ReceiveStreamFlowControlWindow_def ReceiveConnectionFlowControlWindow_def
      push_bit_eq_mult)

end
