(* ===== verification/Flow_Control.thy ===== *)
theory Flow_Control
  imports Connection_Parameters "HOL-Library.AList"
begin

text \<open>Flow control of the streams and of the connection (\<^verbatim>\<open>internal/flowcontrol\<close>). The pointers to the connection
  parameters, the round-trip statistics and the remote round-trip times, which the controllers share with the session,
  are an argument of the operations that read them.\<close>

section \<open>The flow controller\<close>

record flowEnv =
  fe_connectionParameters :: connectionParametersManager
  fe_rttStats :: RTTStats
  fe_remoteRTTs :: "(PathID \<times> duration) list"

record flowController =
  fc_streamID :: StreamID
  fc_contributesToConnection :: bool
  fc_bytesSent :: ByteCount
  fc_sendWindow :: ByteCount
  fc_bytesRetrans :: ByteCount
  fc_lastWindowUpdateTime :: gotime
  fc_bytesRead :: ByteCount
  fc_highestReceived :: ByteCount
  fc_receiveWindow :: ByteCount
  fc_receiveWindowIncrement :: ByteCount
  fc_maxReceiveWindowIncrement :: ByteCount

definition newFlowController :: "flowEnv \<Rightarrow> StreamID \<Rightarrow> bool \<Rightarrow> flowController" where
  "newFlowController env streamID contributesToConnection =
     (let cp = fe_connectionParameters env;
          (window, maxIncrement) =
            (if streamID = 0
             then (cp_receiveConnectionFlowControlWindow cp, cp_maxReceiveConnectionFlowControlWindow cp)
             else (cp_receiveStreamFlowControlWindow cp, cp_maxReceiveStreamFlowControlWindow cp))
      in \<lparr>fc_streamID = streamID, fc_contributesToConnection = contributesToConnection, fc_bytesSent = 0,
          fc_sendWindow = 0, fc_bytesRetrans = 0, fc_lastWindowUpdateTime = zero_time, fc_bytesRead = 0,
          fc_highestReceived = 0, fc_receiveWindow = window, fc_receiveWindowIncrement = window,
          fc_maxReceiveWindowIncrement = maxIncrement\<rparr>)"

definition getSendWindow :: "flowEnv \<Rightarrow> flowController \<Rightarrow> ByteCount" where
  "getSendWindow env c =
     (if fc_sendWindow c = 0 then
        (if fc_streamID c = 0 then cp_sendConnectionFlowControlWindow (fe_connectionParameters env)
         else cp_sendStreamFlowControlWindow (fe_connectionParameters env))
      else fc_sendWindow c)"

definition fc_AddBytesSent :: "flowController \<Rightarrow> ByteCount \<Rightarrow> flowController" where
  "fc_AddBytesSent c n = c\<lparr>fc_bytesSent := fc_bytesSent c + n\<rparr>"

definition fc_AddBytesRetrans :: "flowController \<Rightarrow> ByteCount \<Rightarrow> flowController" where
  "fc_AddBytesRetrans c n = c\<lparr>fc_bytesRetrans := fc_bytesRetrans c + n\<rparr>"

definition UpdateSendWindow :: "flowController \<Rightarrow> ByteCount \<Rightarrow> bool \<times> flowController" where
  "UpdateSendWindow c newOffset =
     (if newOffset > fc_sendWindow c then (True, c\<lparr>fc_sendWindow := newOffset\<rparr>) else (False, c))"

definition fc_SendWindowSize :: "flowEnv \<Rightarrow> flowController \<Rightarrow> ByteCount" where
  "fc_SendWindowSize env c =
     (let sendWindow = getSendWindow env c
      in if fc_bytesSent c > sendWindow then 0 else sendWindow - fc_bytesSent c)"

definition SendWindowOffset :: "flowEnv \<Rightarrow> flowController \<Rightarrow> ByteCount" where
  "SendWindowOffset env c = getSendWindow env c"

text \<open>The increment, with the error for a smaller offset.\<close>

definition fc_UpdateHighestReceived :: "flowController \<Rightarrow> ByteCount \<Rightarrow> ByteCount \<times> goerror option \<times> flowController" where
  "fc_UpdateHighestReceived c byteOffset =
     (if byteOffset = fc_highestReceived c then (0, None, c)
      else if byteOffset > fc_highestReceived c
      then (byteOffset - fc_highestReceived c, None, c\<lparr>fc_highestReceived := byteOffset\<rparr>)
      else (0, Some ErrReceivedSmallerByteOffset, c))"

definition IncrementHighestReceived :: "flowController \<Rightarrow> ByteCount \<Rightarrow> flowController" where
  "IncrementHighestReceived c increment = c\<lparr>fc_highestReceived := fc_highestReceived c + increment\<rparr>"

definition fc_AddBytesRead :: "gotime \<Rightarrow> flowController \<Rightarrow> ByteCount \<Rightarrow> flowController" where
  "fc_AddBytesRead now c n =
     (let c = (if fc_bytesRead c = 0 then c\<lparr>fc_lastWindowUpdateTime := now\<rparr> else c)
      in c\<lparr>fc_bytesRead := fc_bytesRead c + n\<rparr>)"

definition maxRemoteRTT :: "(PathID \<times> duration) list \<Rightarrow> duration" where
  "maxRemoteRTT remoteRTTs = foldl (\<lambda>m (p, rtt). MaxDuration m rtt) 0 remoteRTTs"

definition maybeAdjustWindowIncrement :: "gotime \<Rightarrow> flowEnv \<Rightarrow> flowController \<Rightarrow> flowController" where
  "maybeAdjustWindowIncrement now env c =
     (let rtt = rtt_smoothedRTT (fe_rttStats env) in
      if fc_lastWindowUpdateTime c = zero_time then c
      else if rtt = 0 then c
      else if time_sub now (fc_lastWindowUpdateTime c) \<ge> i64 (2 * MaxDuration rtt (maxRemoteRTT (fe_remoteRTTs env))) then c
      else c\<lparr>fc_receiveWindowIncrement :=
               MinByteCount (2 * fc_receiveWindowIncrement c) (fc_maxReceiveWindowIncrement c)\<rparr>)"

text \<open>Whether an update is necessary, the new increment, and the offset.\<close>

definition MaybeUpdateWindow ::
  "gotime \<Rightarrow> flowEnv \<Rightarrow> flowController \<Rightarrow> (bool \<times> ByteCount \<times> ByteCount) \<times> flowController" where
  "MaybeUpdateWindow now env c =
     (let diff = fc_receiveWindow c - fc_bytesRead c in
      if diff < fc_receiveWindowIncrement c div 2 then
        let c' = maybeAdjustWindowIncrement now env c;
            newWindowIncrement = (if fc_receiveWindowIncrement c' \<noteq> fc_receiveWindowIncrement c
              then fc_receiveWindowIncrement c' else 0);
            c' = c'\<lparr>fc_lastWindowUpdateTime := now, fc_receiveWindow := fc_bytesRead c' + fc_receiveWindowIncrement c'\<rparr>
        in ((True, newWindowIncrement, fc_receiveWindow c'), c')
      else ((False, fc_receiveWindowIncrement c, fc_receiveWindow c), c))"

definition EnsureMinimumWindowIncrement :: "flowController \<Rightarrow> ByteCount \<Rightarrow> flowController" where
  "EnsureMinimumWindowIncrement c inc =
     (if inc > fc_receiveWindowIncrement c
      then c\<lparr>fc_receiveWindowIncrement := MinByteCount inc (fc_maxReceiveWindowIncrement c),
             fc_lastWindowUpdateTime := zero_time\<rparr>
      else c)"

definition CheckFlowControlViolation :: "flowController \<Rightarrow> bool" where
  "CheckFlowControlViolation c = (fc_highestReceived c > fc_receiveWindow c)"

section \<open>The flow control manager\<close>

text \<open>The map of the stream controllers is an association list with distinct keys; its order is the order in which an
  iteration over the Go map happens to visit it.\<close>

record flowControlManager =
  fm_streamFlowController :: "(StreamID \<times> flowController) list"
  fm_connFlowController :: flowController

definition NewFlowControlManager :: "flowEnv \<Rightarrow> flowControlManager" where
  "NewFlowControlManager env =
     \<lparr>fm_streamFlowController = [], fm_connFlowController = newFlowController env 0 False\<rparr>"

definition getFlowController :: "flowControlManager \<Rightarrow> StreamID \<Rightarrow> flowController result" where
  "getFlowController f streamID =
     (case map_of (fm_streamFlowController f) streamID of None \<Rightarrow> Inl errMapAccess | Some c \<Rightarrow> Inr c)"

definition putFlowController :: "flowControlManager \<Rightarrow> StreamID \<Rightarrow> flowController \<Rightarrow> flowControlManager" where
  "putFlowController f streamID c = f\<lparr>fm_streamFlowController := AList.update streamID c (fm_streamFlowController f)\<rparr>"

definition fm_NewStream :: "flowEnv \<Rightarrow> flowControlManager \<Rightarrow> StreamID \<Rightarrow> bool \<Rightarrow> flowControlManager" where
  "fm_NewStream env f streamID contributesToConnection =
     (if map_of (fm_streamFlowController f) streamID \<noteq> None then f
      else putFlowController f streamID (newFlowController env streamID contributesToConnection))"

definition fm_RemoveStream :: "flowControlManager \<Rightarrow> StreamID \<Rightarrow> flowControlManager" where
  "fm_RemoveStream f streamID =
     f\<lparr>fm_streamFlowController := AList.delete streamID (fm_streamFlowController f)\<rparr>"

text \<open>What \<^verbatim>\<open>ResetStream\<close> and \<^verbatim>\<open>UpdateHighestReceived\<close> do after the stream controller is updated.\<close>

definition checkReceived ::
  "flowControlManager \<Rightarrow> flowController \<Rightarrow> ByteCount \<Rightarrow> goerror option \<times> flowControlManager" where
  "checkReceived f c increment =
     (if CheckFlowControlViolation c then (Some (QuicError FlowControlReceivedTooMuchData), f)
      else if fc_contributesToConnection c then
        let conn = IncrementHighestReceived (fm_connFlowController f) increment;
            f = f\<lparr>fm_connFlowController := conn\<rparr>
        in if CheckFlowControlViolation conn then (Some (QuicError FlowControlReceivedTooMuchData), f) else (None, f)
      else (None, f))"

definition fm_ResetStream :: "flowControlManager \<Rightarrow> StreamID \<Rightarrow> ByteCount \<Rightarrow> goerror option \<times> flowControlManager" where
  "fm_ResetStream f streamID byteOffset =
     (case getFlowController f streamID of
        Inl err \<Rightarrow> (Some err, f)
      | Inr c \<Rightarrow>
          (case fc_UpdateHighestReceived c byteOffset of
             (increment, Some err, c) \<Rightarrow> (Some (QuicError StreamDataAfterTermination), f)
           | (increment, None, c) \<Rightarrow> checkReceived (putFlowController f streamID c) c increment))"

definition fm_UpdateHighestReceived ::
  "flowControlManager \<Rightarrow> StreamID \<Rightarrow> ByteCount \<Rightarrow> goerror option \<times> flowControlManager" where
  "fm_UpdateHighestReceived f streamID byteOffset =
     (case getFlowController f streamID of
        Inl err \<Rightarrow> (Some err, f)
      | Inr c \<Rightarrow>
          (case fc_UpdateHighestReceived c byteOffset of
             (increment, _, c) \<Rightarrow> checkReceived (putFlowController f streamID c) c increment))"

text \<open>Applying an operation to the controller of a stream and, if it contributes, to that of the connection.\<close>

definition applyBoth ::
  "(flowController \<Rightarrow> flowController) \<Rightarrow> flowControlManager \<Rightarrow> StreamID \<Rightarrow> goerror option \<times> flowControlManager" where
  "applyBoth op f streamID =
     (case getFlowController f streamID of
        Inl err \<Rightarrow> (Some err, f)
      | Inr c \<Rightarrow>
          let f = putFlowController f streamID (op c)
          in (None, if fc_contributesToConnection (op c)
                    then f\<lparr>fm_connFlowController := op (fm_connFlowController f)\<rparr> else f))"

definition fm_AddBytesRead ::
  "gotime \<Rightarrow> flowControlManager \<Rightarrow> StreamID \<Rightarrow> ByteCount \<Rightarrow> goerror option \<times> flowControlManager" where
  "fm_AddBytesRead now f streamID n = applyBoth (\<lambda>c. fc_AddBytesRead now c n) f streamID"

definition fm_AddBytesSent :: "flowControlManager \<Rightarrow> StreamID \<Rightarrow> ByteCount \<Rightarrow> goerror option \<times> flowControlManager" where
  "fm_AddBytesSent f streamID n = applyBoth (\<lambda>c. fc_AddBytesSent c n) f streamID"

definition fm_AddBytesRetrans :: "flowControlManager \<Rightarrow> StreamID \<Rightarrow> ByteCount \<Rightarrow> goerror option \<times> flowControlManager" where
  "fm_AddBytesRetrans f streamID n = applyBoth (\<lambda>c. fc_AddBytesRetrans c n) f streamID"

record WindowUpdate =
  wu_StreamID :: StreamID
  wu_Offset :: ByteCount

text \<open>The product with \<^verbatim>\<open>ConnectionFlowControlMultiplier\<close>, 1.5, is a \<^verbatim>\<open>float64\<close> with denominator 2.\<close>

definition connectionIncrement :: "ByteCount \<Rightarrow> ByteCount" where
  "connectionIncrement newIncrement = word_of_int (round64 (3 * round64 (uint newIncrement)) div 2)"

fun streamWindowUpdates ::
  "gotime \<Rightarrow> flowEnv \<Rightarrow> bool \<Rightarrow> (StreamID \<times> flowController) list \<Rightarrow> flowController
   \<Rightarrow> WindowUpdate list \<times> (StreamID \<times> flowController) list \<times> flowController" where
  "streamWindowUpdates now env force [] conn = ([], [], conn)"
| "streamWindowUpdates now env force ((sid, fc) # fcs) conn =
     (let ((necessary, newIncrement, offset), fc) = MaybeUpdateWindow now env fc;
          update = force \<or> necessary;
          conn = (if update \<and> fc_contributesToConnection fc \<and> newIncrement \<noteq> 0
                  then EnsureMinimumWindowIncrement conn (connectionIncrement newIncrement) else conn);
          (res, fcs, conn) = streamWindowUpdates now env force fcs conn
      in ((if update then [\<lparr>wu_StreamID = sid, wu_Offset = offset\<rparr>] else []) @ res, (sid, fc) # fcs, conn))"

definition GetWindowUpdates ::
  "gotime \<Rightarrow> flowEnv \<Rightarrow> flowControlManager \<Rightarrow> bool \<Rightarrow> WindowUpdate list \<times> flowControlManager" where
  "GetWindowUpdates now env f force =
     (let (res, fcs, conn) = streamWindowUpdates now env force (fm_streamFlowController f) (fm_connFlowController f);
          ((necessary, _, offset), conn) = MaybeUpdateWindow now env conn
      in (res @ (if force \<or> necessary then [\<lparr>wu_StreamID = 0, wu_Offset = offset\<rparr>] else []),
          f\<lparr>fm_streamFlowController := fcs, fm_connFlowController := conn\<rparr>))"

definition GetReceiveWindow :: "flowControlManager \<Rightarrow> StreamID \<Rightarrow> ByteCount result" where
  "GetReceiveWindow f streamID =
     (if streamID = 0 then Inr (fc_receiveWindow (fm_connFlowController f))
      else andThen (getFlowController f streamID) (\<lambda>c. Inr (fc_receiveWindow c)))"

definition fm_GetBytesSent :: "flowControlManager \<Rightarrow> StreamID \<Rightarrow> ByteCount result" where
  "fm_GetBytesSent f streamID = andThen (getFlowController f streamID) (\<lambda>c. Inr (fc_bytesSent c))"

definition fm_GetBytesRetrans :: "flowControlManager \<Rightarrow> StreamID \<Rightarrow> ByteCount result" where
  "fm_GetBytesRetrans f streamID = andThen (getFlowController f streamID) (\<lambda>c. Inr (fc_bytesRetrans c))"

definition fm_SendWindowSize :: "flowEnv \<Rightarrow> flowControlManager \<Rightarrow> StreamID \<Rightarrow> ByteCount result" where
  "fm_SendWindowSize env f streamID =
     andThen (getFlowController f streamID) (\<lambda>c.
       let res = fc_SendWindowSize env c
       in Inr (if fc_contributesToConnection c
               then MinByteCount res (fc_SendWindowSize env (fm_connFlowController f)) else res))"

definition RemainingConnectionWindowSize :: "flowEnv \<Rightarrow> flowControlManager \<Rightarrow> ByteCount" where
  "RemainingConnectionWindowSize env f = fc_SendWindowSize env (fm_connFlowController f)"

definition fm_UpdateWindow :: "flowControlManager \<Rightarrow> StreamID \<Rightarrow> ByteCount \<Rightarrow> bool result \<times> flowControlManager" where
  "fm_UpdateWindow f streamID offset =
     (if streamID = 0 then
        let (updated, c) = UpdateSendWindow (fm_connFlowController f) offset
        in (Inr updated, f\<lparr>fm_connFlowController := c\<rparr>)
      else
        (case getFlowController f streamID of
           Inl err \<Rightarrow> (Inl err, f)
         | Inr c \<Rightarrow>
             let (updated, c) = UpdateSendWindow c offset
             in (Inr updated, putFlowController f streamID c)))"

section \<open>Accounting\<close>

text \<open>The sum of a counter over the streams that contribute to the connection. The counter of the connection is this sum, plus
  \<open>gone\<close>, the sum over the streams that have been removed.\<close>

definition stream_total :: "(flowController \<Rightarrow> ByteCount) \<Rightarrow> (StreamID \<times> flowController) list \<Rightarrow> nat" where
  "stream_total sel fcs = sum_list (map (\<lambda>(sid, c). if fc_contributesToConnection c then unat (sel c) else 0) fcs)"

definition balanced :: "(flowController \<Rightarrow> ByteCount) \<Rightarrow> flowControlManager \<Rightarrow> nat \<Rightarrow> bool" where
  "balanced sel f gone \<longleftrightarrow> unat (sel (fm_connFlowController f)) = stream_total sel (fm_streamFlowController f) + gone"

lemma stream_total_update:
  assumes "map_of fcs sid = Some c" "fc_contributesToConnection c' = fc_contributesToConnection c"
    "unat (sel c') = unat (sel c) + k"
  shows "stream_total sel (AList.update sid c' fcs) =
    stream_total sel fcs + (if fc_contributesToConnection c then k else 0)"
  using assms by (induction fcs) (auto simp: stream_total_def split: if_splits)

lemma stream_total_new:
  "map_of fcs sid = None \<Longrightarrow> stream_total sel (AList.update sid c fcs) =
    stream_total sel fcs + (if fc_contributesToConnection c then unat (sel c) else 0)"
  by (induction fcs) (auto simp: stream_total_def split: if_splits)

lemma stream_total_delete:
  "distinct (map fst fcs) \<Longrightarrow> map_of fcs sid = Some c \<Longrightarrow> stream_total sel fcs =
    stream_total sel (AList.delete sid fcs) + (if fc_contributesToConnection c then unat (sel c) else 0)"
  by (induction fcs) (auto simp: stream_total_def delete_notin_dom split: if_splits)

lemma stream_total_mono:
  "(\<And>sid c. (sid, c) \<in> set fcs \<Longrightarrow> unat (sel c) \<le> unat (sel' c)) \<Longrightarrow> stream_total sel fcs \<le> stream_total sel' fcs"
  by (induction fcs) (force simp: stream_total_def)+

lemma stream_total_ge: "(sid, c) \<in> set fcs \<Longrightarrow> fc_contributesToConnection c \<Longrightarrow> unat (sel c) \<le> stream_total sel fcs"
  by (induction fcs) (auto simp: stream_total_def)

lemma unat_add_noflow: "unat a + unat b < 2 ^ 64 \<Longrightarrow> unat (a + b :: u64) = unat a + unat b"
  by (simp add: unat_word_ariths)

text \<open>A counter of the flow controller and the operation that adds to it.\<close>

locale counter =
  fixes add :: "flowController \<Rightarrow> ByteCount \<Rightarrow> flowController" and sel :: "flowController \<Rightarrow> ByteCount"
  assumes sel_add: "sel (add c n) = sel c + n"
    and contributes_add: "fc_contributesToConnection (add c n) = fc_contributesToConnection c"
begin

lemma applyBoth_balanced:
  assumes "balanced sel f gone" "map_of (fm_streamFlowController f) sid = Some c"
    "unat (sel c) + unat n < 2 ^ 64"
    "fc_contributesToConnection c \<Longrightarrow> unat (sel (fm_connFlowController f)) + unat n < 2 ^ 64"
    "applyBoth (\<lambda>c. add c n) f sid = (None, f')"
  shows "balanced sel f' gone"
proof -
  have "unat (sel (add c n)) = unat (sel c) + unat n" using assms(3) by (simp add: sel_add unat_add_noflow)
  note up = stream_total_update [OF assms(2) contributes_add this]
  have f': "fm_streamFlowController f' = AList.update sid (add c n) (fm_streamFlowController f)"
    "fm_connFlowController f' = (if fc_contributesToConnection c then add (fm_connFlowController f) n else fm_connFlowController f)"
    using assms(2,5) by (auto simp: applyBoth_def getFlowController_def putFlowController_def contributes_add Let_def)
  show ?thesis using assms(1,4) up by (simp add: balanced_def f' sel_add unat_add_noflow)
qed

lemma applyBoth_other:
  assumes "balanced sel' f gone" "map_of (fm_streamFlowController f) sid = Some c"
    "\<And>c n. sel' (add c n) = sel' c" "applyBoth (\<lambda>c. add c n) f sid = (None, f')"
  shows "balanced sel' f' gone"
proof -
  have "unat (sel' (add c n)) = unat (sel' c) + 0" by (simp add: assms(3))
  note up = stream_total_update [OF assms(2) contributes_add this]
  show ?thesis using assms up
    by (auto simp: applyBoth_def getFlowController_def putFlowController_def contributes_add Let_def balanced_def)
qed

lemma applyBoth_lookup:
  assumes "applyBoth (\<lambda>c. add c n) f sid = (None, f')"
  obtains c where "map_of (fm_streamFlowController f) sid = Some c"
    "fm_streamFlowController f' = AList.update sid (add c n) (fm_streamFlowController f)"
    "fm_connFlowController f' = (if fc_contributesToConnection c then add (fm_connFlowController f) n else fm_connFlowController f)"
  using assms
  by (auto simp: applyBoth_def getFlowController_def putFlowController_def contributes_add Let_def split: sum.splits option.splits)

end

lemma fc_AddBytesRead_fields [simp]:
  "fc_bytesRead (fc_AddBytesRead now c n) = fc_bytesRead c + n"
  "fc_contributesToConnection (fc_AddBytesRead now c n) = fc_contributesToConnection c"
  "fc_highestReceived (fc_AddBytesRead now c n) = fc_highestReceived c"
  "fc_receiveWindow (fc_AddBytesRead now c n) = fc_receiveWindow c"
  "fc_bytesSent (fc_AddBytesRead now c n) = fc_bytesSent c"
  "fc_sendWindow (fc_AddBytesRead now c n) = fc_sendWindow c"
  "fc_streamID (fc_AddBytesRead now c n) = fc_streamID c"
  "fc_receiveWindowIncrement (fc_AddBytesRead now c n) = fc_receiveWindowIncrement c"
  "fc_maxReceiveWindowIncrement (fc_AddBytesRead now c n) = fc_maxReceiveWindowIncrement c"
  by (simp_all add: fc_AddBytesRead_def Let_def)

interpretation sent: counter fc_AddBytesSent fc_bytesSent
  by unfold_locales (simp_all add: fc_AddBytesSent_def)

interpretation retrans: counter fc_AddBytesRetrans fc_bytesRetrans
  by unfold_locales (simp_all add: fc_AddBytesRetrans_def)

interpretation bytes_read: counter "fc_AddBytesRead now" fc_bytesRead for now
  by unfold_locales simp_all

section \<open>Window updates\<close>

text \<open>What holds of every controller; \<open>allow\<close> tells how many bytes the peer has allowed to send.\<close>

definition controller_ok :: "(ByteCount \<Rightarrow> bool) \<Rightarrow> flowController \<Rightarrow> bool" where
  "controller_ok allow c \<longleftrightarrow> allow (fc_bytesSent c)
     \<and> unat (fc_bytesRead c) \<le> unat (fc_highestReceived c)
     \<and> unat (fc_highestReceived c) \<le> unat (fc_receiveWindow c)
     \<and> unat (fc_receiveWindowIncrement c) \<le> unat (fc_maxReceiveWindowIncrement c)"

text \<open>Windows far below the largest word, so that sums of two of them do not wrap around.\<close>

definition small :: "flowController \<Rightarrow> bool" where
  "small c \<longleftrightarrow> unat (fc_receiveWindow c) < 2 ^ 62 \<and> unat (fc_maxReceiveWindowIncrement c) < 2 ^ 62"

text \<open>A controller after a possible window update: the counters are the same, the window has not shrunk and has room for
  half an increment.\<close>

definition window_updated :: "flowController \<Rightarrow> flowController \<Rightarrow> bool" where
  "window_updated c c' \<longleftrightarrow> fc_streamID c' = fc_streamID c \<and> fc_contributesToConnection c' = fc_contributesToConnection c
     \<and> fc_bytesSent c' = fc_bytesSent c \<and> fc_sendWindow c' = fc_sendWindow c
     \<and> fc_bytesRead c' = fc_bytesRead c \<and> fc_highestReceived c' = fc_highestReceived c
     \<and> fc_maxReceiveWindowIncrement c' = fc_maxReceiveWindowIncrement c
     \<and> unat (fc_receiveWindowIncrement c) \<le> unat (fc_receiveWindowIncrement c')
     \<and> unat (fc_receiveWindowIncrement c') \<le> unat (fc_maxReceiveWindowIncrement c')
     \<and> unat (fc_receiveWindow c) \<le> unat (fc_receiveWindow c')
     \<and> unat (fc_bytesRead c') + unat (fc_receiveWindowIncrement c') div 2 \<le> unat (fc_receiveWindow c')"

lemma maybeAdjustWindowIncrement_cases:
  assumes "unat (fc_receiveWindowIncrement c) \<le> unat (fc_maxReceiveWindowIncrement c)"
    "unat (fc_maxReceiveWindowIncrement c) < 2 ^ 62"
  obtains i where "maybeAdjustWindowIncrement now env c = c\<lparr>fc_receiveWindowIncrement := i\<rparr>"
    "unat (fc_receiveWindowIncrement c) \<le> unat i" "unat i \<le> unat (fc_maxReceiveWindowIncrement c)"
proof -
  define i where "i = min (2 * fc_receiveWindowIncrement c) (fc_maxReceiveWindowIncrement c)"
  have "unat (2 * fc_receiveWindowIncrement c) = 2 * unat (fc_receiveWindowIncrement c)"
    using unat_add_noflow [of "fc_receiveWindowIncrement c" "fc_receiveWindowIncrement c"] assms
    by (simp only: mult_2) simp
  then have i: "unat (fc_receiveWindowIncrement c) \<le> unat i" "unat i \<le> unat (fc_maxReceiveWindowIncrement c)"
    using assms(1) by (simp_all add: i_def min_def word_le_nat_alt)
  have "maybeAdjustWindowIncrement now env c \<in> {c, c\<lparr>fc_receiveWindowIncrement := i\<rparr>}"
    by (simp add: maybeAdjustWindowIncrement_def Let_def i_def)
  then consider "maybeAdjustWindowIncrement now env c = c"
    | "maybeAdjustWindowIncrement now env c = c\<lparr>fc_receiveWindowIncrement := i\<rparr>" by blast
  then show ?thesis
  proof cases
    case 1
    show ?thesis by (rule that [of "fc_receiveWindowIncrement c"]) (use 1 assms(1) in simp_all)
  next
    case 2
    then show ?thesis using i by (rule that)
  qed
qed

lemma unat_half: "unat (w div 2 :: u64) = unat w div 2"
  by (simp add: unat_div)

lemma MaybeUpdateWindow_updated:
  assumes ok: "unat (fc_bytesRead c) \<le> unat (fc_receiveWindow c)"
    "unat (fc_receiveWindowIncrement c) \<le> unat (fc_maxReceiveWindowIncrement c)" and small: "small c"
    and r: "MaybeUpdateWindow now env c = ((necessary, inc, off), c')"
  shows "window_updated c c'" "off = fc_receiveWindow c'" "\<not> necessary \<Longrightarrow> c' = c"
proof -
  have m: "unat (fc_maxReceiveWindowIncrement c) < 2 ^ 62" "unat (fc_receiveWindow c) < 2 ^ 62" using small by (simp_all add: small_def)
  have diff: "unat (fc_receiveWindow c - fc_bytesRead c) = unat (fc_receiveWindow c) - unat (fc_bytesRead c)"
    using ok by (simp add: unat_sub word_le_nat_alt)
  obtain i where i: "maybeAdjustWindowIncrement now env c = c\<lparr>fc_receiveWindowIncrement := i\<rparr>"
    "unat (fc_receiveWindowIncrement c) \<le> unat i" "unat i \<le> unat (fc_maxReceiveWindowIncrement c)"
    using maybeAdjustWindowIncrement_cases [OF ok(2) m(1)] by blast
  have sum: "unat (fc_bytesRead c + i) = unat (fc_bytesRead c) + unat i"
    using ok m i by (intro unat_add_noflow) simp
  have "window_updated c c' \<and> off = fc_receiveWindow c' \<and> (\<not> necessary \<longrightarrow> c' = c)"
  proof (cases "fc_receiveWindow c - fc_bytesRead c < fc_receiveWindowIncrement c div 2")
    case True
    then have "unat (fc_receiveWindow c) - unat (fc_bytesRead c) < unat (fc_receiveWindowIncrement c) div 2"
      by (simp add: word_less_nat_alt diff unat_half)
    moreover have "necessary" "off = fc_receiveWindow c'"
      "c' = c\<lparr>fc_receiveWindowIncrement := i, fc_lastWindowUpdateTime := now, fc_receiveWindow := fc_bytesRead c + i\<rparr>"
      using r True by (auto simp: MaybeUpdateWindow_def i Let_def)
    ultimately show ?thesis using i ok sum by (simp add: window_updated_def)
  next
    case False
    then have "unat (fc_receiveWindowIncrement c) div 2 \<le> unat (fc_receiveWindow c) - unat (fc_bytesRead c)"
      by (simp add: word_less_nat_alt diff unat_half)
    moreover have "off = fc_receiveWindow c'" "c' = c" using r False by (auto simp: MaybeUpdateWindow_def)
    ultimately show ?thesis using ok by (simp add: window_updated_def)
  qed
  then show "window_updated c c'" "off = fc_receiveWindow c'" "\<not> necessary \<Longrightarrow> c' = c" by blast+
qed

text \<open>What the loop over the streams does to the controller of the connection.\<close>

definition increment_raised :: "flowController \<Rightarrow> flowController \<Rightarrow> bool" where
  "increment_raised c c' \<longleftrightarrow> (\<exists>i t. c' = c\<lparr>fc_receiveWindowIncrement := i, fc_lastWindowUpdateTime := t\<rparr>
     \<and> unat (fc_receiveWindowIncrement c) \<le> unat i \<and> unat i \<le> unat (fc_maxReceiveWindowIncrement c))"

lemma increment_raised_refl:
  "unat (fc_receiveWindowIncrement c) \<le> unat (fc_maxReceiveWindowIncrement c) \<Longrightarrow> increment_raised c c"
  unfolding increment_raised_def
  by (intro exI [of _ "fc_receiveWindowIncrement c"] exI [of _ "fc_lastWindowUpdateTime c"]) simp

lemma increment_raised_trans: "increment_raised a b \<Longrightarrow> increment_raised b c \<Longrightarrow> increment_raised a c"
  by (fastforce simp: increment_raised_def)

lemma EnsureMinimumWindowIncrement_raised:
  assumes "unat (fc_receiveWindowIncrement c) \<le> unat (fc_maxReceiveWindowIncrement c)"
  shows "increment_raised c (EnsureMinimumWindowIncrement c inc)"
proof (cases "inc > fc_receiveWindowIncrement c")
  case True
  then show ?thesis using assms unfolding increment_raised_def
    by (intro exI [of _ "min inc (fc_maxReceiveWindowIncrement c)"] exI [of _ zero_time])
      (auto simp: EnsureMinimumWindowIncrement_def min_def word_le_nat_alt word_less_nat_alt)
qed (use assms in \<open>simp add: EnsureMinimumWindowIncrement_def increment_raised_refl\<close>)

lemma increment_raised_le:
  "increment_raised c c' \<Longrightarrow> unat (fc_receiveWindowIncrement c') \<le> unat (fc_maxReceiveWindowIncrement c')"
  by (auto simp: increment_raised_def)

lemma streamWindowUpdates_updated:
  assumes "\<forall>(sid, c) \<in> set fcs. unat (fc_bytesRead c) \<le> unat (fc_receiveWindow c)
      \<and> unat (fc_receiveWindowIncrement c) \<le> unat (fc_maxReceiveWindowIncrement c) \<and> small c"
    "unat (fc_receiveWindowIncrement conn) \<le> unat (fc_maxReceiveWindowIncrement conn)"
    "streamWindowUpdates now env force fcs conn = (res, fcs', conn')"
  shows "list_all2 (\<lambda>(sid, c) (sid', c'). sid' = sid \<and> window_updated c c'
      \<and> (force \<or> c' \<noteq> c \<longrightarrow> \<lparr>wu_StreamID = sid, wu_Offset = fc_receiveWindow c'\<rparr> \<in> set res)) fcs fcs'
    \<and> increment_raised conn conn'"
  using assms
proof (induction fcs arbitrary: conn res fcs' conn')
  case Nil
  then show ?case by (simp add: increment_raised_refl)
next
  case (Cons p fcs)
  obtain sid c where p: "p = (sid, c)" by (cases p)
  obtain necessary inc off c1 where m: "MaybeUpdateWindow now env c = ((necessary, inc, off), c1)"
    by (cases "MaybeUpdateWindow now env c") auto
  have u: "window_updated c c1" "off = fc_receiveWindow c1" "\<not> necessary \<Longrightarrow> c1 = c"
    using MaybeUpdateWindow_updated [OF _ _ _ m] Cons.prems(1) p by auto
  define conn1 where "conn1 = (if (force \<or> necessary) \<and> fc_contributesToConnection c1 \<and> inc \<noteq> 0
    then EnsureMinimumWindowIncrement conn (connectionIncrement inc) else conn)"
  have raised: "increment_raised conn conn1"
    using Cons.prems(2) EnsureMinimumWindowIncrement_raised increment_raised_refl by (simp add: conn1_def)
  obtain res1 fcs1 conn2 where l: "streamWindowUpdates now env force fcs conn1 = (res1, fcs1, conn2)"
    by (cases "streamWindowUpdates now env force fcs conn1") auto
  have ih: "list_all2 (\<lambda>(sid, c) (sid', c'). sid' = sid \<and> window_updated c c'
      \<and> (force \<or> c' \<noteq> c \<longrightarrow> \<lparr>wu_StreamID = sid, wu_Offset = fc_receiveWindow c'\<rparr> \<in> set res1)) fcs fcs1"
    "increment_raised conn1 conn2"
    using Cons.IH [OF _ _ l] Cons.prems(1) increment_raised_le [OF raised] by auto
  have "res = (if force \<or> necessary then [\<lparr>wu_StreamID = sid, wu_Offset = off\<rparr>] else []) @ res1"
    "fcs' = (sid, c1) # fcs1" "conn' = conn2"
    using Cons.prems(3) by (simp_all add: p m l conn1_def [symmetric] Let_def)
  then show ?case using u ih raised increment_raised_trans
    by (auto simp: p elim!: list_all2_mono)
qed

section \<open>Runs of the manager\<close>

text \<open>A run of the manager as the session uses it. The connection parameters and the round-trip statistics may change between
  the operations. The obligations of the callers are premises: no more bytes are sent than \<^verbatim>\<open>SendWindowSize\<close> returns, and
  only received bytes are read. An error of a receiving operation ends the run, as it closes the connection. The windows stay
  far below the largest word, and a new controller gets a window that is not larger than its maximum. Window updates of the
  peer are arbitrary. \<open>gs\<close>, \<open>gh\<close> and \<open>gr\<close> are the bytes sent, received and read on removed streams, and \<open>sends\<close> the situations,
  parameters and manager, in which data was sent.\<close>

definition small_manager :: "flowControlManager \<Rightarrow> bool" where
  "small_manager f \<longleftrightarrow> small (fm_connFlowController f) \<and> (\<forall>(sid, c) \<in> set (fm_streamFlowController f). small c)"

definition flow_config :: "flowEnv \<Rightarrow> bool" where
  "flow_config env \<longleftrightarrow> (let cp = fe_connectionParameters env in
     cp_receiveConnectionFlowControlWindow cp \<le> cp_maxReceiveConnectionFlowControlWindow cp
     \<and> cp_receiveStreamFlowControlWindow cp \<le> cp_maxReceiveStreamFlowControlWindow cp)"

text \<open>The controller of a stream, or of the connection.\<close>

definition controllerOf :: "flowControlManager \<Rightarrow> StreamID option \<Rightarrow> flowController option" where
  "controllerOf f who = (case who of None \<Rightarrow> Some (fm_connFlowController f) | Some sid \<Rightarrow> map_of (fm_streamFlowController f) sid)"

text \<open>The peer allowed a number of bytes in one of the situations.\<close>

definition peer_allowed :: "(flowEnv \<times> flowControlManager) list \<Rightarrow> StreamID option \<Rightarrow> ByteCount \<Rightarrow> bool" where
  "peer_allowed sends who n \<longleftrightarrow>
     n = 0 \<or> (\<exists>(env, f) \<in> set sends. \<exists>c. controllerOf f who = Some c \<and> n \<le> getSendWindow env c)"

lemma peer_allowed_0 [simp]: "peer_allowed sends who 0"
  by (simp add: peer_allowed_def)

lemma peer_allowed_Cons: "peer_allowed sends who n \<Longrightarrow> peer_allowed (s # sends) who n"
  by (auto simp: peer_allowed_def)

definition contribution :: "(flowController \<Rightarrow> ByteCount) \<Rightarrow> flowController \<Rightarrow> nat" where
  "contribution sel c = (if fc_contributesToConnection c then unat (sel c) else 0)"

inductive flow_run :: "(flowEnv \<times> flowControlManager) list \<Rightarrow> flowControlManager \<Rightarrow> nat \<Rightarrow> nat \<Rightarrow> nat \<Rightarrow> bool" where
  flow_new: "flow_config env \<Longrightarrow> flow_run [] (NewFlowControlManager env) 0 0 0"
| flow_stream: "flow_run sends f gs gh gr \<Longrightarrow> flow_config env \<Longrightarrow> flow_run sends (fm_NewStream env f sid contributes) gs gh gr"
| flow_remove: "flow_run sends f gs gh gr \<Longrightarrow> map_of (fm_streamFlowController f) sid = Some c
    \<Longrightarrow> flow_run sends (fm_RemoveStream f sid) (gs + contribution fc_bytesSent c) (gh + contribution fc_highestReceived c)
          (gr + contribution fc_bytesRead c)"
| flow_received: "flow_run sends f gs gh gr \<Longrightarrow> small_manager f \<Longrightarrow> fm_UpdateHighestReceived f sid offset = (None, f')
    \<Longrightarrow> flow_run sends f' gs gh gr"
| flow_reset: "flow_run sends f gs gh gr \<Longrightarrow> small_manager f \<Longrightarrow> fm_ResetStream f sid offset = (None, f')
    \<Longrightarrow> flow_run sends f' gs gh gr"
| flow_read: "flow_run sends f gs gh gr \<Longrightarrow> map_of (fm_streamFlowController f) sid = Some c
    \<Longrightarrow> unat (fc_bytesRead c) + unat n \<le> unat (fc_highestReceived c)
    \<Longrightarrow> fm_AddBytesRead now f sid n = (None, f') \<Longrightarrow> flow_run sends f' gs gh gr"
| flow_sent: "flow_run sends f gs gh gr \<Longrightarrow> fm_SendWindowSize env f sid = Inr w \<Longrightarrow> n \<le> w
    \<Longrightarrow> fm_AddBytesSent f sid n = (None, f') \<Longrightarrow> flow_run ((env, f) # sends) f' gs gh gr"
| flow_retrans: "flow_run sends f gs gh gr \<Longrightarrow> fm_AddBytesRetrans f sid n = (None, f') \<Longrightarrow> flow_run sends f' gs gh gr"
| flow_window: "flow_run sends f gs gh gr \<Longrightarrow> fm_UpdateWindow f sid offset = (Inr b, f') \<Longrightarrow> flow_run sends f' gs gh gr"
| flow_updates: "flow_run sends f gs gh gr \<Longrightarrow> small_manager f \<Longrightarrow> GetWindowUpdates now env f force = (res, f')
    \<Longrightarrow> flow_run sends f' gs gh gr"

definition flow_inv :: "(flowEnv \<times> flowControlManager) list \<Rightarrow> flowControlManager \<Rightarrow> nat \<Rightarrow> nat \<Rightarrow> nat \<Rightarrow> bool" where
  "flow_inv sends f gs gh gr \<longleftrightarrow> distinct (map fst (fm_streamFlowController f))
     \<and> balanced fc_bytesSent f gs \<and> balanced fc_highestReceived f gh \<and> balanced fc_bytesRead f gr \<and> gr \<le> gh
     \<and> (\<forall>sid c. map_of (fm_streamFlowController f) sid = Some c \<longrightarrow> controller_ok (peer_allowed sends (Some sid)) c)
     \<and> controller_ok (peer_allowed sends None) (fm_connFlowController f)"

lemma flow_invD:
  assumes "flow_inv sends f gs gh gr"
  shows "distinct (map fst (fm_streamFlowController f))" "balanced fc_bytesSent f gs"
    "balanced fc_highestReceived f gh" "balanced fc_bytesRead f gr" "gr \<le> gh"
    "\<And>sid c. map_of (fm_streamFlowController f) sid = Some c \<Longrightarrow> controller_ok (peer_allowed sends (Some sid)) c"
    "controller_ok (peer_allowed sends None) (fm_connFlowController f)"
  using assms unfolding flow_inv_def by blast+

lemma newFlowController_fields [simp]:
  "fc_bytesSent (newFlowController env sid b) = 0" "fc_bytesRead (newFlowController env sid b) = 0"
  "fc_highestReceived (newFlowController env sid b) = 0" "fc_contributesToConnection (newFlowController env sid b) = b"
  by (simp_all add: newFlowController_def Let_def split_def)

lemma newFlowController_ok: "flow_config env \<Longrightarrow> allow 0 \<Longrightarrow> controller_ok allow (newFlowController env sid b)"
  unfolding controller_ok_def newFlowController_fields
  by (simp add: newFlowController_def flow_config_def Let_def word_le_nat_alt split_def)

lemma flow_inv_new: "flow_config env \<Longrightarrow> flow_inv sends (NewFlowControlManager env) 0 0 0"
  by (simp add: flow_inv_def NewFlowControlManager_def balanced_def stream_total_def newFlowController_ok)

lemma flow_inv_stream:
  assumes "flow_inv sends f gs gh gr" "flow_config env"
  shows "flow_inv sends (fm_NewStream env f sid b) gs gh gr"
proof (cases "map_of (fm_streamFlowController f) sid")
  case None
  note i = flow_invD [OF assms(1)]
  show ?thesis using None i newFlowController_ok [OF assms(2), of "peer_allowed sends (Some sid)" sid b]
    by (simp add: fm_NewStream_def putFlowController_def flow_inv_def balanced_def stream_total_new distinct_update update_conv'
        split: if_splits)
qed (use assms in \<open>simp add: fm_NewStream_def\<close>)

lemma flow_inv_remove:
  assumes "flow_inv sends f gs gh gr" "map_of (fm_streamFlowController f) sid = Some c"
  shows "flow_inv sends (fm_RemoveStream f sid) (gs + contribution fc_bytesSent c) (gh + contribution fc_highestReceived c)
    (gr + contribution fc_bytesRead c)"
proof -
  note i = flow_invD [OF assms(1)]
  note t = stream_total_delete [OF i(1) assms(2)]
  have "contribution fc_bytesRead c \<le> contribution fc_highestReceived c"
    using i(6) [OF assms(2)] by (simp add: contribution_def controller_ok_def)
  moreover have "balanced sel (fm_RemoveStream f sid) (g + contribution sel c)" if "balanced sel f g" for sel g
    using that t [of sel] by (simp add: balanced_def fm_RemoveStream_def contribution_def)
  ultimately show ?thesis using i
    by (auto simp: flow_inv_def distinct_delete delete_conv' fm_RemoveStream_def split: if_splits)
qed

lemma fc_UpdateHighestReceived_cases:
  assumes "fc_UpdateHighestReceived c off = (inc, err, c')"
  obtains x where "c' = c\<lparr>fc_highestReceived := x\<rparr>" "unat x = unat (fc_highestReceived c) + unat inc"
proof (cases "off > fc_highestReceived c")
  case True
  with assms have "inc = off - fc_highestReceived c" "c' = c\<lparr>fc_highestReceived := off\<rparr>"
    by (auto simp: fc_UpdateHighestReceived_def split: if_splits)
  moreover from True have "unat (off - fc_highestReceived c) = unat off - unat (fc_highestReceived c)"
    by (simp add: unat_sub less_imp_le)
  ultimately show ?thesis using True by (intro that [of off]) (simp_all add: word_less_nat_alt)
next
  case False
  with assms show ?thesis
    by (intro that [of "fc_highestReceived c"]) (auto simp: fc_UpdateHighestReceived_def split: if_splits)
qed

lemma flow_inv_received:
  assumes inv: "flow_inv sends f gs gh gr" and small: "small_manager f"
    and c: "map_of (fm_streamFlowController f) sid = Some c" "fc_UpdateHighestReceived c off = (inc, err, c')"
    and r: "checkReceived (putFlowController f sid c') c' inc = (None, f')"
  shows "flow_inv sends f' gs gh gr"
proof -
  note i = flow_invD [OF inv]
  obtain x where x: "c' = c\<lparr>fc_highestReceived := x\<rparr>" "unat x = unat (fc_highestReceived c) + unat inc"
    using fc_UpdateHighestReceived_cases [OF c(2)] by blast
  have h: "unat (fc_highestReceived c') = unat (fc_highestReceived c) + unat inc" using x by simp
  have same: "fc_contributesToConnection c' = fc_contributesToConnection c" "fc_bytesSent c' = fc_bytesSent c"
    "fc_bytesRead c' = fc_bytesRead c" "fc_receiveWindow c' = fc_receiveWindow c"
    "fc_receiveWindowIncrement c' = fc_receiveWindowIncrement c" "fc_maxReceiveWindowIncrement c' = fc_maxReceiveWindowIncrement c"
    by (simp_all add: x(1))
  let ?conn = "fm_connFlowController f"
  have f': "fm_streamFlowController f' = AList.update sid c' (fm_streamFlowController f)"
    "fm_connFlowController f' = (if fc_contributesToConnection c then IncrementHighestReceived ?conn inc else ?conn)"
    and v: "\<not> CheckFlowControlViolation c'"
    "fc_contributesToConnection c \<Longrightarrow> \<not> CheckFlowControlViolation (IncrementHighestReceived ?conn inc)"
    using r by (auto simp: checkReceived_def putFlowController_def same Let_def split: if_splits)
  have ok: "controller_ok (peer_allowed sends (Some sid)) c" "controller_ok (peer_allowed sends None) ?conn" using i(6) [OF c(1)] i(7) .
  have hw: "unat (fc_highestReceived c') \<le> unat (fc_receiveWindow c)"
    using v(1) by (simp add: CheckFlowControlViolation_def word_less_nat_alt same)
  have sm: "unat (fc_receiveWindow c) < 2 ^ 62" "unat (fc_receiveWindow ?conn) < 2 ^ 62"
    using small map_of_SomeD [OF c(1)] by (auto simp: small_manager_def small_def)
  have "unat (fc_highestReceived ?conn + inc) = unat (fc_highestReceived ?conn) + unat inc"
    using hw h sm ok(2) by (intro unat_add_noflow) (auto simp: controller_ok_def)
  then have conn: "unat (fc_highestReceived (IncrementHighestReceived ?conn inc)) = unat (fc_highestReceived ?conn) + unat inc"
    by (simp add: IncrementHighestReceived_def)
  have "controller_ok (peer_allowed sends (Some sid)) c'" using ok(1) hw h same by (simp add: controller_ok_def)
  moreover have "controller_ok (peer_allowed sends None) (fm_connFlowController f')"
    using ok(2) conn v(2) unfolding f' by (auto simp: controller_ok_def CheckFlowControlViolation_def word_less_nat_alt
        IncrementHighestReceived_def)
  moreover have "balanced fc_highestReceived f' gh"
    using i(3) conn stream_total_update [OF c(1) same(1), of fc_highestReceived "unat inc"] h by (simp add: balanced_def f')
  moreover have "balanced fc_bytesSent f' gs" "balanced fc_bytesRead f' gr"
    using i(2,4) stream_total_update [OF c(1) same(1), of fc_bytesSent 0] stream_total_update [OF c(1) same(1), of fc_bytesRead 0]
    by (simp_all add: balanced_def f' same IncrementHighestReceived_def)
  ultimately show ?thesis using i(1,5,6) by (simp add: flow_inv_def f' distinct_update update_conv' split: if_splits)
qed

lemma getSendWindow_same [simp]:
  "getSendWindow env (fc_AddBytesRead now c n) = getSendWindow env c"
  "getSendWindow env (fc_AddBytesSent c n) = getSendWindow env c"
  "getSendWindow env (fc_AddBytesRetrans c n) = getSendWindow env c"
  by (simp_all add: getSendWindow_def fc_AddBytesSent_def fc_AddBytesRetrans_def)

lemma unat64_bound: "unat (w :: u64) < 2 ^ 64"
  using unsigned_less [of w] by simp

lemma flow_inv_read:
  assumes inv: "flow_inv sends f gs gh gr" and c: "map_of (fm_streamFlowController f) sid = Some c"
    "unat (fc_bytesRead c) + unat n \<le> unat (fc_highestReceived c)"
    and r: "fm_AddBytesRead now f sid n = (None, f')"
  shows "flow_inv sends f' gs gh gr"
proof -
  note i = flow_invD [OF inv]
  let ?conn = "fm_connFlowController f" and ?add = "\<lambda>c. fc_AddBytesRead now c n"
  have r': "applyBoth ?add f sid = (None, f')" using r by (simp add: fm_AddBytesRead_def)
  have f': "fm_streamFlowController f' = AList.update sid (?add c) (fm_streamFlowController f)"
    "fm_connFlowController f' = (if fc_contributesToConnection c then ?add ?conn else ?conn)"
    by (rule bytes_read.applyBoth_lookup [OF r'], use c(1) in simp)+
  have nc: "unat (fc_bytesRead c + n) = unat (fc_bytesRead c) + unat n"
    using c(2) unat64_bound [of "fc_highestReceived c"] by (intro unat_add_noflow) simp
  have room: "unat (fc_bytesRead ?conn) + unat n \<le> unat (fc_highestReceived ?conn)" if con: "fc_contributesToConnection c"
  proof -
    have "map_of (AList.update sid (?add c) (fm_streamFlowController f)) s = Some d \<Longrightarrow>
      unat (fc_bytesRead d) \<le> unat (fc_highestReceived d)" for s d
      using i(6) c(2) nc by (auto simp: update_conv' controller_ok_def split: if_splits)
    then have "stream_total fc_bytesRead (AList.update sid (?add c) (fm_streamFlowController f))
       \<le> stream_total fc_highestReceived (AList.update sid (?add c) (fm_streamFlowController f))"
      using distinct_update [OF i(1)] by (intro stream_total_mono) (auto dest!: map_of_is_SomeI)
    moreover have "stream_total fc_bytesRead (AList.update sid (?add c) (fm_streamFlowController f)) =
        stream_total fc_bytesRead (fm_streamFlowController f) + unat n"
      using stream_total_update [OF c(1), of "?add c" fc_bytesRead "unat n"] con nc by simp
    moreover have "stream_total fc_highestReceived (AList.update sid (?add c) (fm_streamFlowController f)) =
        stream_total fc_highestReceived (fm_streamFlowController f)"
      using stream_total_update [OF c(1), of "?add c" fc_highestReceived 0] by simp
    ultimately show ?thesis using i(3-5) by (simp add: balanced_def)
  qed
  have conn: "unat (fc_bytesRead ?conn + n) = unat (fc_bytesRead ?conn) + unat n" if "fc_contributesToConnection c"
    using room [OF that] unat64_bound [of "fc_highestReceived ?conn"] by (intro unat_add_noflow) simp
  have "balanced fc_bytesRead f' gr"
  proof (rule bytes_read.applyBoth_balanced [OF i(4) c(1) _ _ r'])
    show "unat (fc_bytesRead c) + unat n < 2 ^ 64" using c(2) unat64_bound [of "fc_highestReceived c"] by simp
    show "unat (fc_bytesRead ?conn) + unat n < 2 ^ 64" if "fc_contributesToConnection c"
      using room [OF that] unat64_bound [of "fc_highestReceived ?conn"] by simp
  qed
  moreover have "balanced fc_bytesSent f' gs" "balanced fc_highestReceived f' gh"
    by (rule bytes_read.applyBoth_other [OF i(2) c(1) _ r'], simp,
        rule bytes_read.applyBoth_other [OF i(3) c(1) _ r'], simp)
  moreover have "controller_ok (peer_allowed sends (Some sid)) (?add c)"
    using i(6) [OF c(1)] c(2) nc by (simp add: controller_ok_def)
  moreover have "controller_ok (peer_allowed sends None) (fm_connFlowController f')"
    using i(7) room conn by (simp add: f' controller_ok_def)
  ultimately show ?thesis using i(1,5,6) by (simp add: flow_inv_def f' distinct_update update_conv' split: if_splits)
qed

lemma fc_SendWindowSize_room:
  assumes "n \<le> fc_SendWindowSize env c"
  shows "n = 0 \<or> unat (fc_bytesSent c) + unat n \<le> unat (getSendWindow env c)"
proof (cases "fc_bytesSent c > getSendWindow env c")
  case False
  then have "n \<le> getSendWindow env c - fc_bytesSent c" "fc_bytesSent c \<le> getSendWindow env c"
    using assms by (simp_all add: fc_SendWindowSize_def Let_def)
  then show ?thesis by (auto simp: word_le_nat_alt unat_sub)
qed (use assms in \<open>simp add: fc_SendWindowSize_def Let_def\<close>)

lemma controller_ok_sent:
  assumes ok: "controller_ok (peer_allowed sends who) c" and c: "controllerOf f who = Some c"
    and n: "n \<le> fc_SendWindowSize env c"
  shows "controller_ok (peer_allowed ((env, f) # sends) who) (fc_AddBytesSent c n)" "unat (fc_bytesSent c) + unat n < 2 ^ 64"
proof -
  note r = fc_SendWindowSize_room [OF n]
  then show b: "unat (fc_bytesSent c) + unat n < 2 ^ 64"
    using unat64_bound [of "getSendWindow env c"] unat64_bound [of "fc_bytesSent c"] by auto
  have "peer_allowed ((env, f) # sends) who (fc_bytesSent c + n)"
  proof (cases "n = 0")
    case True
    then show ?thesis using ok peer_allowed_Cons by (simp add: controller_ok_def)
  next
    case False
    then have "fc_bytesSent c + n \<le> getSendWindow env c" using r b by (simp add: word_le_nat_alt unat_add_noflow)
    then show ?thesis using c by (auto simp: peer_allowed_def)
  qed
  then show "controller_ok (peer_allowed ((env, f) # sends) who) (fc_AddBytesSent c n)"
    using ok by (simp add: controller_ok_def fc_AddBytesSent_def)
qed

lemma controller_ok_Cons: "controller_ok (peer_allowed sends who) c \<Longrightarrow> controller_ok (peer_allowed (s # sends) who) c"
  using peer_allowed_Cons by (auto simp: controller_ok_def)

lemma flow_inv_sent:
  assumes inv: "flow_inv sends f gs gh gr" and w: "fm_SendWindowSize env f sid = Inr w" "n \<le> w"
    and r: "fm_AddBytesSent f sid n = (None, f')"
  shows "flow_inv ((env, f) # sends) f' gs gh gr"
proof -
  note i = flow_invD [OF inv]
  let ?conn = "fm_connFlowController f" and ?add = "\<lambda>c. fc_AddBytesSent c n"
  have r': "applyBoth ?add f sid = (None, f')" using r by (simp add: fm_AddBytesSent_def)
  obtain c where c: "map_of (fm_streamFlowController f) sid = Some c"
    and f': "fm_streamFlowController f' = AList.update sid (?add c) (fm_streamFlowController f)"
      "fm_connFlowController f' = (if fc_contributesToConnection c then ?add ?conn else ?conn)"
    by (rule sent.applyBoth_lookup [OF r'])
  have le: "n \<le> fc_SendWindowSize env c" "fc_contributesToConnection c \<Longrightarrow> n \<le> fc_SendWindowSize env ?conn"
    using w c by (auto simp: fm_SendWindowSize_def getFlowController_def Let_def split: if_splits)
  have "controllerOf f (Some sid) = Some c" "controllerOf f None = Some ?conn" using c by (simp_all add: controllerOf_def)
  note s = controller_ok_sent [OF i(6) [OF c] this(1) le(1)] and t = controller_ok_sent [OF i(7) this(2) le(2)]
  have "balanced fc_bytesSent f' gs" by (rule sent.applyBoth_balanced [OF i(2) c s(2) t(2) r'])
  moreover have "balanced fc_bytesRead f' gr" "balanced fc_highestReceived f' gh"
    by (rule sent.applyBoth_other [OF i(4) c _ r'], simp add: fc_AddBytesSent_def,
        rule sent.applyBoth_other [OF i(3) c _ r'], simp add: fc_AddBytesSent_def)
  moreover have "controller_ok (peer_allowed ((env, f) # sends) None) (fm_connFlowController f')"
    using t(1) controller_ok_Cons [OF i(7)] by (simp add: f')
  ultimately show ?thesis using i(1,5,6) s(1) controller_ok_Cons
    by (simp add: flow_inv_def f' distinct_update update_conv' split: if_splits)
qed

lemma flow_inv_retrans:
  assumes inv: "flow_inv sends f gs gh gr" and r: "fm_AddBytesRetrans f sid n = (None, f')"
  shows "flow_inv sends f' gs gh gr"
proof -
  note i = flow_invD [OF inv]
  let ?conn = "fm_connFlowController f" and ?add = "\<lambda>c. fc_AddBytesRetrans c n"
  have r': "applyBoth ?add f sid = (None, f')" using r by (simp add: fm_AddBytesRetrans_def)
  obtain c where c: "map_of (fm_streamFlowController f) sid = Some c"
    and f': "fm_streamFlowController f' = AList.update sid (?add c) (fm_streamFlowController f)"
      "fm_connFlowController f' = (if fc_contributesToConnection c then ?add ?conn else ?conn)"
    by (rule retrans.applyBoth_lookup [OF r'])
  have "controller_ok allow (?add d) = controller_ok allow d" for allow d
    by (simp add: controller_ok_def) (simp add: fc_AddBytesRetrans_def)
  moreover have "balanced fc_bytesSent f' gs" "balanced fc_bytesRead f' gr" "balanced fc_highestReceived f' gh"
    by (rule retrans.applyBoth_other [OF i(2) c _ r'], simp add: fc_AddBytesRetrans_def,
        rule retrans.applyBoth_other [OF i(4) c _ r'], simp add: fc_AddBytesRetrans_def,
        rule retrans.applyBoth_other [OF i(3) c _ r'], simp add: fc_AddBytesRetrans_def)
  ultimately show ?thesis using i(1,5-7) c by (simp add: flow_inv_def f' distinct_update update_conv' split: if_splits)
qed

lemma UpdateSendWindow_ok:
  assumes "controller_ok allow c" "UpdateSendWindow c offset = (b, c')"
  shows "controller_ok allow c'" "fc_contributesToConnection c' = fc_contributesToConnection c" "fc_bytesSent c' = fc_bytesSent c"
    "fc_bytesRead c' = fc_bytesRead c" "fc_highestReceived c' = fc_highestReceived c"
proof -
  have "c' = c \<or> c' = c\<lparr>fc_sendWindow := offset\<rparr>"
    using assms(2) by (auto simp: UpdateSendWindow_def split: if_splits)
  then show "controller_ok allow c'" "fc_contributesToConnection c' = fc_contributesToConnection c" "fc_bytesSent c' = fc_bytesSent c"
    "fc_bytesRead c' = fc_bytesRead c" "fc_highestReceived c' = fc_highestReceived c"
    using assms(1) by (auto simp: controller_ok_def)
qed

lemma flow_inv_window:
  assumes inv: "flow_inv sends f gs gh gr" and r: "fm_UpdateWindow f sid offset = (Inr b, f')"
  shows "flow_inv sends f' gs gh gr"
proof (cases "sid = 0")
  case True
  note i = flow_invD [OF inv]
  obtain b' c' where u: "UpdateSendWindow (fm_connFlowController f) offset = (b', c')" by (cases "UpdateSendWindow (fm_connFlowController f) offset")
  note c' = UpdateSendWindow_ok [OF i(7) u]
  have "f' = f\<lparr>fm_connFlowController := c'\<rparr>" using r True u by (simp add: fm_UpdateWindow_def)
  then show ?thesis using i c' by (simp add: flow_inv_def balanced_def)
next
  case False
  note i = flow_invD [OF inv]
  obtain c where c: "map_of (fm_streamFlowController f) sid = Some c"
    using r False by (auto simp: fm_UpdateWindow_def getFlowController_def split: option.splits)
  obtain b' c' where u: "UpdateSendWindow c offset = (b', c')" by (cases "UpdateSendWindow c offset")
  note c' = UpdateSendWindow_ok [OF i(6) [OF c] u]
  have "f' = putFlowController f sid c'" using r False u c by (simp add: fm_UpdateWindow_def getFlowController_def)
  then show ?thesis using i c' stream_total_update [OF c c'(2), of _ 0]
    by (simp add: flow_inv_def balanced_def putFlowController_def distinct_update update_conv' split: if_splits)
qed

lemma window_updated_ok: "controller_ok allow c \<Longrightarrow> window_updated c c' \<Longrightarrow> controller_ok allow c'"
  by (auto simp: controller_ok_def window_updated_def)

lemma stream_total_updated:
  assumes "list_all2 (\<lambda>(sid, c) (sid', c'). sid' = sid \<and> window_updated c c' \<and> P sid c c') fcs fcs'"
    "\<And>c c'. window_updated c c' \<Longrightarrow> sel c' = sel c"
  shows "stream_total sel fcs' = stream_total sel fcs"
  using assms(1)
proof (induction rule: list_all2_induct)
  case (Cons p fcs p' fcs')
  then show ?case using assms(2) by (auto simp: stream_total_def window_updated_def split: prod.splits)
qed simp

lemma map_of_updated:
  assumes "list_all2 (\<lambda>(sid, c) (sid', c'). sid' = sid \<and> window_updated c c' \<and> P sid c c') fcs fcs'"
  shows "map fst fcs' = map fst fcs"
    "map_of fcs' sid = Some c' \<Longrightarrow> \<exists>c. map_of fcs sid = Some c \<and> window_updated c c' \<and> P sid c c'"
  using assms by (induction rule: list_all2_induct) (auto split: prod.splits if_splits)

text \<open>The whole operation: every controller is updated, and every change of a window is announced.\<close>

lemma GetWindowUpdates_updated:
  assumes inv: "flow_inv sends f gs gh gr" and small: "small_manager f" and r: "GetWindowUpdates now env f force = (res, f')"
  shows "list_all2 (\<lambda>(sid, c) (sid', c'). sid' = sid \<and> window_updated c c'
      \<and> (force \<or> c' \<noteq> c \<longrightarrow> \<lparr>wu_StreamID = sid, wu_Offset = fc_receiveWindow c'\<rparr> \<in> set res))
      (fm_streamFlowController f) (fm_streamFlowController f')"
    "window_updated (fm_connFlowController f) (fm_connFlowController f')"
    "force \<or> fc_receiveWindow (fm_connFlowController f') \<noteq> fc_receiveWindow (fm_connFlowController f)
      \<Longrightarrow> \<lparr>wu_StreamID = 0, wu_Offset = fc_receiveWindow (fm_connFlowController f')\<rparr> \<in> set res"
proof -
  note i = flow_invD [OF inv]
  let ?conn = "fm_connFlowController f"
  obtain res1 fcs' conn1 where l: "streamWindowUpdates now env force (fm_streamFlowController f) ?conn = (res1, fcs', conn1)"
    by (cases "streamWindowUpdates now env force (fm_streamFlowController f) ?conn") auto
  obtain necessary inc off conn2 where m: "MaybeUpdateWindow now env conn1 = ((necessary, inc, off), conn2)"
    by (cases "MaybeUpdateWindow now env conn1") auto
  have res: "res = res1 @ (if force \<or> necessary then [\<lparr>wu_StreamID = 0, wu_Offset = off\<rparr>] else [])"
    and f': "fm_streamFlowController f' = fcs'" "fm_connFlowController f' = conn2"
    using r by (auto simp: GetWindowUpdates_def l m)
  have st: "\<forall>(sid, c) \<in> set (fm_streamFlowController f). unat (fc_bytesRead c) \<le> unat (fc_receiveWindow c)
      \<and> unat (fc_receiveWindowIncrement c) \<le> unat (fc_maxReceiveWindowIncrement c) \<and> small c"
    using i(6) small map_of_is_SomeI [OF i(1)] by (fastforce simp: controller_ok_def small_manager_def)
  have co: "unat (fc_receiveWindowIncrement ?conn) \<le> unat (fc_maxReceiveWindowIncrement ?conn)"
    using i(7) by (simp add: controller_ok_def)
  note u = streamWindowUpdates_updated [OF st co l]
  show "list_all2 (\<lambda>(sid, c) (sid', c'). sid' = sid \<and> window_updated c c'
      \<and> (force \<or> c' \<noteq> c \<longrightarrow> \<lparr>wu_StreamID = sid, wu_Offset = fc_receiveWindow c'\<rparr> \<in> set res))
      (fm_streamFlowController f) (fm_streamFlowController f')"
    using conjunct1 [OF u] unfolding f' by (rule list_all2_mono) (auto simp: res)
  obtain i' t where conn1: "conn1 = ?conn\<lparr>fc_receiveWindowIncrement := i', fc_lastWindowUpdateTime := t\<rparr>"
    "unat (fc_receiveWindowIncrement ?conn) \<le> unat i'" "unat i' \<le> unat (fc_maxReceiveWindowIncrement ?conn)"
    using conjunct2 [OF u] by (auto simp: increment_raised_def)
  have "small conn1" using small by (simp add: conn1 small_manager_def small_def)
  moreover have "unat (fc_bytesRead conn1) \<le> unat (fc_receiveWindow conn1)"
    using i(7) by (simp add: conn1 controller_ok_def)
  moreover have "unat (fc_receiveWindowIncrement conn1) \<le> unat (fc_maxReceiveWindowIncrement conn1)"
    using conn1 by simp
  ultimately have c: "window_updated conn1 conn2" "off = fc_receiveWindow conn2" "\<not> necessary \<Longrightarrow> conn2 = conn1"
    using MaybeUpdateWindow_updated [OF _ _ _ m] by blast+
  show "window_updated ?conn (fm_connFlowController f')" using c(1) conn1 unfolding f' by (auto simp: window_updated_def)
  show "\<lparr>wu_StreamID = 0, wu_Offset = fc_receiveWindow (fm_connFlowController f')\<rparr> \<in> set res"
    if "force \<or> fc_receiveWindow (fm_connFlowController f') \<noteq> fc_receiveWindow ?conn"
    using that c(2,3) conn1(1) by (auto simp: f' res)
qed

lemma flow_inv_updates:
  assumes inv: "flow_inv sends f gs gh gr" and small: "small_manager f" and r: "GetWindowUpdates now env f force = (res, f')"
  shows "flow_inv sends f' gs gh gr"
proof -
  note i = flow_invD [OF inv] and u = GetWindowUpdates_updated [OF assms]
  have "balanced sel f' g" if "balanced sel f g" "\<And>c c'. window_updated c c' \<Longrightarrow> sel c' = sel c" for sel g
    using that stream_total_updated [OF u(1), of sel] u(2) by (simp add: balanced_def)
  then have "balanced fc_bytesSent f' gs" "balanced fc_highestReceived f' gh" "balanced fc_bytesRead f' gr"
    using i by (simp_all add: window_updated_def)
  moreover have "controller_ok (peer_allowed sends (Some sid)) c'" if "map_of (fm_streamFlowController f') sid = Some c'" for sid c'
    using map_of_updated(2) [OF u(1) that] i(6) window_updated_ok by blast
  moreover have "controller_ok (peer_allowed sends None) (fm_connFlowController f')" using i(7) u(2) window_updated_ok by blast
  ultimately show ?thesis using i(1,5) map_of_updated(1) [OF u(1)] by (simp add: flow_inv_def)
qed

lemma flow_run_inv: "flow_run sends f gs gh gr \<Longrightarrow> flow_inv sends f gs gh gr"
proof (induction rule: flow_run.induct)
  case (flow_received sends f gs gh gr sid offset f')
  then show ?case
    by (auto simp: fm_UpdateHighestReceived_def getFlowController_def intro: flow_inv_received split: option.splits prod.splits)
next
  case (flow_reset sends f gs gh gr sid offset f')
  then show ?case
    by (auto simp: fm_ResetStream_def getFlowController_def intro: flow_inv_received split: option.splits prod.splits)
qed (blast intro: flow_inv_new flow_inv_stream flow_inv_remove flow_inv_read flow_inv_sent flow_inv_retrans flow_inv_window
    flow_inv_updates)+

section \<open>Properties\<close>

text \<open>C9. The connection accounts for its streams, in every run in which the callers keep their obligations: the bytes sent, received and read on the connection are the sums over the
  streams that contribute to it, with the removed ones, and the counters of the connection do not wrap around.\<close>

theorem connection_accounts_for_streams:
  assumes "flow_run sends f gs gh gr"
  shows "unat (fc_bytesSent (fm_connFlowController f)) = stream_total fc_bytesSent (fm_streamFlowController f) + gs
    \<and> unat (fc_highestReceived (fm_connFlowController f)) = stream_total fc_highestReceived (fm_streamFlowController f) + gh
    \<and> unat (fc_bytesRead (fm_connFlowController f)) = stream_total fc_bytesRead (fm_streamFlowController f) + gr"
  using flow_invD(2-4) [OF flow_run_inv [OF assms]] by (simp add: balanced_def)

text \<open>An environment with the windows of a fresh connection and a run with one stream that sends and receives.\<close>

definition example_env :: flowEnv where
  "example_env = \<lparr>fe_connectionParameters = NewConnectionParamatersManager PerspectiveServer 39 1048576 1572864 30000000000,
     fe_rttStats = NewRTTStats, fe_remoteRTTs = []\<rparr>"

definition example_manager :: flowControlManager where
  "example_manager = snd (fm_UpdateHighestReceived (snd (fm_AddBytesSent
     (fm_NewStream example_env (NewFlowControlManager example_env) 5 True) 5 1000)) 5 30000)"

lemma small_code [code]:
  "small c \<longleftrightarrow> fc_receiveWindow c < 0x4000000000000000 \<and> fc_maxReceiveWindowIncrement c < 0x4000000000000000"
  by (simp add: small_def word_less_nat_alt)

definition example_sends :: "(flowEnv \<times> flowControlManager) list" where
  "example_sends = [(example_env, fm_NewStream example_env (NewFlowControlManager example_env) 5 True)]"

lemma example_flow: "flow_run example_sends example_manager 0 0 0"
proof -
  define f1 where "f1 = fm_NewStream example_env (NewFlowControlManager example_env) 5 True"
  define f2 where "f2 = snd (fm_AddBytesSent f1 5 1000)"
  have "flow_config example_env" by code_simp
  then have r1: "flow_run [] f1 0 0 0" unfolding f1_def by (intro flow_stream flow_new)
  have w: "fm_SendWindowSize example_env f1 5 = Inr 16384" unfolding f1_def by code_simp
  have "fst (fm_AddBytesSent f1 5 1000) = None" unfolding f1_def by code_simp
  then have r2: "flow_run example_sends f2 0 0 0"
    using flow_sent [OF r1 w, of 1000 f2] by (simp add: f2_def prod_eq_iff example_sends_def f1_def)
  have "small_manager f2" unfolding f2_def f1_def by code_simp
  moreover have "fst (fm_UpdateHighestReceived f2 5 30000) = None" unfolding f2_def f1_def by code_simp
  moreover have "example_manager = snd (fm_UpdateHighestReceived f2 5 30000)" by (simp add: example_manager_def f2_def f1_def)
  ultimately show ?thesis using flow_received [OF r2, of 5 30000 example_manager] by (simp add: prod_eq_iff)
qed

theorem connection_accounts_for_streams_witness:
  "stream_total fc_highestReceived (fm_streamFlowController example_manager) = 30000"
proof -
  have "fc_highestReceived (fm_connFlowController example_manager) = 30000" by code_simp
  then show ?thesis using connection_accounts_for_streams [OF example_flow] by simp
qed

text \<open>C5. The windows are respected, on every stream and on the connection, in every run in which the callers keep their
  obligations: they send no more bytes at once than \<^verbatim>\<open>SendWindowSize\<close> returns, read only received bytes, and stop when the
  manager reports a violation of the peer. No more bytes are accepted than have been
  allowed to the peer, and the bytes sent so far are within the window that the peer allowed in one of the
  situations in which data was sent. The latter holds for all updates of the peer, also for one that takes a window back.\<close>

theorem flow_windows_respected:
  assumes "flow_run sends f gs gh gr" "controllerOf f who = Some c"
  shows "fc_highestReceived c \<le> fc_receiveWindow c \<and>
    (fc_bytesSent c = 0 \<or>
     (\<exists>(env, f') \<in> set sends. \<exists>c'. controllerOf f' who = Some c' \<and> fc_bytesSent c \<le> getSendWindow env c'))"
proof -
  have "controller_ok (peer_allowed sends who) c"
    using flow_invD(6,7) [OF flow_run_inv [OF assms(1)]] assms(2) by (auto simp: controllerOf_def split: option.splits)
  then show ?thesis by (simp add: controller_ok_def peer_allowed_def word_le_nat_alt)
qed

theorem flow_windows_respected_witness:
  "fc_bytesSent (fm_connFlowController example_manager) = 1000 \<and>
   (\<exists>(env, f') \<in> set example_sends. \<exists>c'. controllerOf f' None = Some c' \<and> 1000 \<le> getSendWindow env c')"
proof -
  have "fc_bytesSent (fm_connFlowController example_manager) = 1000" by code_simp
  moreover have "controllerOf example_manager None = Some (fm_connFlowController example_manager)" by (simp add: controllerOf_def)
  ultimately show ?thesis using flow_windows_respected [OF example_flow] by fastforce
qed

text \<open>C13. The receive windows are reopened: after a run in which the callers keep their obligations, with windows far below the
  largest word, and after the window updates are collected, every stream and the connection have room for
  at least half of their window increment beyond what has been read, no window has shrunk, and every window that
  has changed is among the updates with its new offset.\<close>

theorem window_updates_reopen:
  assumes "flow_run sends f gs gh gr" "small_manager f" "GetWindowUpdates now env f force = (res, f')"
  shows "window_updated (fm_connFlowController f) (fm_connFlowController f')
    \<and> (fc_receiveWindow (fm_connFlowController f') \<noteq> fc_receiveWindow (fm_connFlowController f)
        \<longrightarrow> \<lparr>wu_StreamID = 0, wu_Offset = fc_receiveWindow (fm_connFlowController f')\<rparr> \<in> set res)
    \<and> (\<forall>sid c'. map_of (fm_streamFlowController f') sid = Some c' \<longrightarrow>
         (\<exists>c. map_of (fm_streamFlowController f) sid = Some c \<and> window_updated c c'
            \<and> (c' \<noteq> c \<longrightarrow> \<lparr>wu_StreamID = sid, wu_Offset = fc_receiveWindow c'\<rparr> \<in> set res)))"
proof -
  note u = GetWindowUpdates_updated [OF flow_run_inv [OF assms(1)] assms(2,3)]
  show ?thesis using u(2,3) map_of_updated(2) [OF u(1)] by blast
qed

theorem window_updates_reopen_witness:
  "let f = snd (fm_AddBytesRead 7 example_manager 5 30000); (res, f') = GetWindowUpdates 9 example_env f False
   in window_updated (fm_connFlowController f) (fm_connFlowController f')
     \<and> res = [\<lparr>wu_StreamID = 5, wu_Offset = 62768\<rparr>, \<lparr>wu_StreamID = 0, wu_Offset = 79152\<rparr>]"
proof -
  define f where "f = snd (fm_AddBytesRead 7 example_manager 5 30000)"
  obtain res f' where g: "GetWindowUpdates 9 example_env f False = (res, f')" by (cases "GetWindowUpdates 9 example_env f False")
  obtain c where c: "map_of (fm_streamFlowController example_manager) 5 = Some c"
    "unat (fc_bytesRead c) + unat (30000 :: u64) \<le> unat (fc_highestReceived c)"
  proof -
    have "case map_of (fm_streamFlowController example_manager) 5 of None \<Rightarrow> False
      | Some c \<Rightarrow> fc_bytesRead c = 0 \<and> fc_highestReceived c = 30000" by code_simp
    then show ?thesis using that by (auto split: option.splits)
  qed
  have "fst (fm_AddBytesRead 7 example_manager 5 30000) = None" by code_simp
  then have "flow_run example_sends f 0 0 0" using flow_read [OF example_flow c, of 7 f] by (simp add: f_def prod_eq_iff)
  moreover have "small_manager f" unfolding f_def by code_simp
  ultimately have "window_updated (fm_connFlowController f) (fm_connFlowController f')"
    using window_updates_reopen [OF _ _ g] by blast
  moreover have "fst (GetWindowUpdates 9 example_env f False) =
      [\<lparr>wu_StreamID = 5, wu_Offset = 62768\<rparr>, \<lparr>wu_StreamID = 0, wu_Offset = 79152\<rparr>]"
    unfolding f_def by code_simp
  ultimately show ?thesis using g by (simp add: f_def Let_def)
qed

section \<open>Two deviations\<close>

text \<open>A window that needs no update is reported with its increment, although the increment has not changed. With forced
  updates the increment of the connection is raised for it.\<close>

lemma unchanged_increment_reported:
  assumes "fc_receiveWindow c - fc_bytesRead c \<ge> fc_receiveWindowIncrement c div 2"
  shows "MaybeUpdateWindow now env c = ((False, fc_receiveWindowIncrement c, fc_receiveWindow c), c)"
  using assms by (simp add: MaybeUpdateWindow_def not_less [symmetric])

text \<open>As long as no window update has been received, an update with a smaller offset than the window of the handshake takes
  that window back.\<close>

lemma first_window_update_can_shrink:
  assumes "fc_sendWindow c = 0" "0 < offset" "offset < getSendWindow env c"
  shows "fst (UpdateSendWindow c offset)" "getSendWindow env (snd (UpdateSendWindow c offset)) = offset"
  using assms by (auto simp: UpdateSendWindow_def getSendWindow_def)

end
