(* ===== verification/Sent_Packets.thy ===== *)
theory Sent_Packets
  imports Received_Packets Rtt_Stats "HOL-Library.Multiset"
begin

text \<open>The sending side of the ACK handling: the packets in flight, acknowledgements, loss detection, retransmission and the
  alarm (\<^verbatim>\<open>ackhandler/packet.go\<close>, \<^verbatim>\<open>ackhandler/sent_packet_handler.go\<close>). The linked list of packets is a list. The
  congestion controller, an interface of the code, is a state of type \<open>'c\<close> with the record of its operations.\<close>

section \<open>Packets\<close>

record Packet =
  pk_PacketNumber :: PacketNumber
  pk_Frames :: "Frame list"
  pk_Length :: ByteCount
  pk_EncryptionLevel :: EncryptionLevel
  pk_SendTime :: gotime

fun framesForRetransmission :: "Frame list \<Rightarrow> Frame list" where
  "framesForRetransmission [] = []"
| "framesForRetransmission (frame # fs) =
     (case frame of
        F_Ack _ \<Rightarrow> framesForRetransmission fs
      | F_StopWaiting _ \<Rightarrow> framesForRetransmission fs
      | _ \<Rightarrow> frame # framesForRetransmission fs)"

definition GetFramesForRetransmission :: "Packet \<Rightarrow> Frame list" where
  "GetFramesForRetransmission p = framesForRetransmission (pk_Frames p)"

text \<open>The frames that the switches of \<^verbatim>\<open>IsRetransmittable\<close>, \<^verbatim>\<open>GetCopyFrames\<close> and \<^verbatim>\<open>IsDupDropable\<close> list.\<close>

fun isCopyFrame :: "Frame \<Rightarrow> bool" where
  "isCopyFrame (F_Stream _) = True"
| "isCopyFrame (F_RstStream _) = True"
| "isCopyFrame (F_WindowUpdate _) = True"
| "isCopyFrame (F_Blocked _) = True"
| "isCopyFrame (F_Ping _) = True"
| "isCopyFrame (F_Goaway _) = True"
| "isCopyFrame (F_AddAddress _) = True"
| "isCopyFrame (F_Paths _) = True"
| "isCopyFrame _ = False"

definition IsRetransmittable :: "Packet \<Rightarrow> bool" where
  "IsRetransmittable p = list_ex isCopyFrame (pk_Frames p)"

fun streamFrameLength :: "Frame list \<Rightarrow> u64" where
  "streamFrameLength [] = 0"
| "streamFrameLength (f # fs) = (case f of F_Stream sf \<Rightarrow> sf_DataLen sf | _ \<Rightarrow> 0) + streamFrameLength fs"

definition GetStreamFrameLength :: "Packet \<Rightarrow> u64" where
  "GetStreamFrameLength p = streamFrameLength (pk_Frames p)"

text \<open>The slice is nil when no frame can be copied.\<close>

definition GetCopyFrames :: "Packet \<Rightarrow> Frame list option" where
  "GetCopyFrames p =
     (let copyFrames = filter isCopyFrame (pk_Frames p) in if length copyFrames = 0 then None else Some copyFrames)"

definition IsDupDropable :: "Packet \<Rightarrow> bool" where
  "IsDupDropable p = list_all isCopyFrame (pk_Frames p)"

section \<open>The congestion controller\<close>

text \<open>The operations of \<^verbatim>\<open>congestion.SendAlgorithm\<close> that the handler calls. The round-trip statistics, which the
  controller and the handler share, and the time are arguments of the operations that read them.\<close>

record 'c SendAlgorithm =
  OnPacketSent :: "gotime \<Rightarrow> ByteCount \<Rightarrow> PacketNumber \<Rightarrow> ByteCount \<Rightarrow> bool \<Rightarrow> 'c \<Rightarrow> 'c"
  GetCongestionWindow :: "'c \<Rightarrow> ByteCount"
  MaybeExitSlowStart :: "RTTStats \<Rightarrow> 'c \<Rightarrow> 'c"
  OnPacketAcked :: "gotime \<Rightarrow> RTTStats \<Rightarrow> PacketNumber \<Rightarrow> ByteCount \<Rightarrow> ByteCount \<Rightarrow> 'c \<Rightarrow> 'c"
  OnPacketLost :: "PacketNumber \<Rightarrow> ByteCount \<Rightarrow> ByteCount \<Rightarrow> 'c \<Rightarrow> 'c"
  OnRetransmissionTimeout :: "bool \<Rightarrow> 'c \<Rightarrow> 'c"
  RetransmissionDelay :: "RTTStats \<Rightarrow> 'c \<Rightarrow> duration"
  SmoothedRTT :: "RTTStats \<Rightarrow> 'c \<Rightarrow> duration"

section \<open>The handler\<close>

definition defaultRTOTimeout :: duration where "defaultRTOTimeout = 500 * Millisecond"
definition minRTOTimeout :: duration where "minRTOTimeout = 200 * Millisecond"
definition maxRTOTimeout :: duration where "maxRTOTimeout = 60 * 1000000000"
definition maxTailLossProbes :: u32 where "maxTailLossProbes = 2"
definition minRetransmissionTime :: duration where "minRetransmissionTime = 200 * Millisecond"
definition minTailLossProbeTimeout :: duration where "minTailLossProbeTimeout = 10 * Millisecond"
definition MaxTrackedSentPackets :: nat where "MaxTrackedSentPackets = 2 * 2500"
definition MaxTrackedSkippedPackets :: nat where "MaxTrackedSkippedPackets = 10"
definition MaxNonRetransmittablePackets :: int where "MaxNonRetransmittablePackets = 19"

record 'c sentPacketHandler =
  sp_lastSentPacketNumber :: PacketNumber
  sp_skippedPackets :: "PacketNumber list"
  sp_numNonRetransmittablePackets :: int
  sp_LargestAcked :: PacketNumber
  sp_largestReceivedPacketWithAck :: PacketNumber
  sp_packetHistory :: "Packet list"
  sp_stopWaitingManager :: stopWaitingManager
  sp_retransmissionQueue :: "Packet list"
  sp_bytesInFlight :: ByteCount
  sp_congestion :: 'c
  sp_rttStats :: RTTStats
  sp_rtoCount :: u32
  sp_tlpCount :: u32
  sp_lossTime :: gotime
  sp_lastSentTime :: gotime
  sp_alarm :: gotime
  sp_packets :: u64
  sp_retransmissions :: u64
  sp_losses :: u64
  sp_sentStreamFrameBytes :: u64

definition NewSentPacketHandler :: "RTTStats \<Rightarrow> 'c \<Rightarrow> 'c sentPacketHandler" where
  "NewSentPacketHandler rttStats congestionControl =
     \<lparr>sp_lastSentPacketNumber = 0, sp_skippedPackets = [], sp_numNonRetransmittablePackets = 0, sp_LargestAcked = 0,
      sp_largestReceivedPacketWithAck = 0, sp_packetHistory = [],
      sp_stopWaitingManager = \<lparr>sm_largestLeastUnackedSent = 0, sm_nextLeastUnacked = 0, sm_lastStopWaitingFrame = None\<rparr>,
      sp_retransmissionQueue = [], sp_bytesInFlight = 0, sp_congestion = congestionControl, sp_rttStats = rttStats,
      sp_rtoCount = 0, sp_tlpCount = 0, sp_lossTime = zero_time, sp_lastSentTime = zero_time, sp_alarm = zero_time,
      sp_packets = 0, sp_retransmissions = 0, sp_losses = 0, sp_sentStreamFrameBytes = 0\<rparr>"

definition sp_GetCongestionWindow :: "'c SendAlgorithm \<Rightarrow> 'c sentPacketHandler \<Rightarrow> u64" where
  "sp_GetCongestionWindow sa h = GetCongestionWindow sa (sp_congestion h) div 1460"

definition sp_GetStatistics :: "'c sentPacketHandler \<Rightarrow> u64 \<times> u64 \<times> u64 \<times> u64" where
  "sp_GetStatistics h = (sp_packets h, sp_retransmissions h, sp_losses h, sp_sentStreamFrameBytes h)"

definition largestInOrderAcked :: "'c sentPacketHandler \<Rightarrow> PacketNumber" where
  "largestInOrderAcked h =
     (case sp_packetHistory h of p # ps \<Rightarrow> pk_PacketNumber p - 1 | [] \<Rightarrow> sp_LargestAcked h)"

definition ShouldSendRetransmittablePacket :: "'c sentPacketHandler \<Rightarrow> bool" where
  "ShouldSendRetransmittablePacket h = (sp_numNonRetransmittablePackets h \<ge> MaxNonRetransmittablePackets)"

definition hasOutstandingRetransmittablePacket :: "'c sentPacketHandler \<Rightarrow> bool" where
  "hasOutstandingRetransmittablePacket h = list_ex IsRetransmittable (sp_packetHistory h)"

text \<open>The shift of the timeout wraps around as an \<^verbatim>\<open>int64\<close>.\<close>

definition computeRTOTimeout :: "'c SendAlgorithm \<Rightarrow> 'c sentPacketHandler \<Rightarrow> duration" where
  "computeRTOTimeout sa h =
     (let rto = RetransmissionDelay sa (sp_rttStats h) (sp_congestion h);
          rto = (if rto = 0 then defaultRTOTimeout else rto);
          rto = MaxDuration rto minRTOTimeout;
          rto = i64 (rto * 2 ^ unat (sp_rtoCount h))
      in MinDuration rto maxRTOTimeout)"

definition hasMultipleOutstandingRetransmittablePackets :: "'c sentPacketHandler \<Rightarrow> bool" where
  "hasMultipleOutstandingRetransmittablePackets h = (case sp_packetHistory h of p # q # ps \<Rightarrow> True | _ \<Rightarrow> False)"

definition computeTLPTimeout :: "'c SendAlgorithm \<Rightarrow> 'c sentPacketHandler \<Rightarrow> duration" where
  "computeTLPTimeout sa h =
     (let rtt = SmoothedRTT sa (sp_rttStats h) (sp_congestion h)
      in if hasMultipleOutstandingRetransmittablePackets h
         then MaxDuration (i64 (2 * rtt)) (i64 (quot (i64 (rtt * 3)) 2 + minRetransmissionTime div 2))
         else MaxDuration (i64 (2 * rtt)) minTailLossProbeTimeout)"

definition updateLossDetectionAlarm :: "'c SendAlgorithm \<Rightarrow> 'c sentPacketHandler \<Rightarrow> 'c sentPacketHandler" where
  "updateLossDetectionAlarm sa h =
     (if length (sp_packetHistory h) = 0 then h\<lparr>sp_alarm := zero_time\<rparr>
      else if sp_lossTime h \<noteq> zero_time then h\<lparr>sp_alarm := sp_lossTime h\<rparr>
      else if rtt_smoothedRTT (sp_rttStats h) \<noteq> 0 \<and> sp_tlpCount h < maxTailLossProbes
      then h\<lparr>sp_alarm := time_add (sp_lastSentTime h) (computeTLPTimeout sa h)\<rparr>
      else h\<lparr>sp_alarm := time_add (sp_lastSentTime h) (MaxDuration (computeRTOTimeout sa h) minRetransmissionTime)\<rparr>)"

text \<open>The loop over the skipped packet numbers, which keeps the last ones.\<close>

function skipPackets :: "PacketNumber \<Rightarrow> PacketNumber \<Rightarrow> PacketNumber list \<Rightarrow> PacketNumber list" where
  "skipPackets p packetNumber skipped =
     (if p < packetNumber then
        let skipped = skipped @ [p];
            skipped = (if length skipped > MaxTrackedSkippedPackets then tl skipped else skipped)
        in skipPackets (p + 1) packetNumber skipped
      else skipped)"
  by pat_completeness auto
termination
proof (relation "measure (\<lambda>(p, packetNumber, skipped). unat packetNumber - unat p)")
  fix p packetNumber :: PacketNumber and skipped x xa
  assume "p < packetNumber"
  then have "p \<noteq> - 1" "unat p < unat packetNumber" using word_order.extremum_strict by (blast, simp add: word_less_nat_alt)
  with unat_succ have "unat (p + 1) = unat p + 1" "unat p < unat packetNumber" by auto
  then show "((p + 1, packetNumber, xa), p, packetNumber, skipped)
      \<in> measure (\<lambda>(p, packetNumber, skipped). unat packetNumber - unat p)" by simp
qed simp

declare skipPackets.simps [simp del]


text \<open>\<^verbatim>\<open>SentPacket\<close> strips the frames of the packet it is given and sets its send time. The packet is part of the result.\<close>

definition SentPacket ::
  "'c SendAlgorithm \<Rightarrow> gotime \<Rightarrow> 'c sentPacketHandler \<Rightarrow> Packet
   \<Rightarrow> goerror option \<times> Packet \<times> 'c sentPacketHandler" where
  "SentPacket sa now h packet =
     (if pk_PacketNumber packet \<le> sp_lastSentPacketNumber h then (Some errPacketNumberNotIncreasing, packet, h)
      else if length (sp_retransmissionQueue h) + length (sp_packetHistory h) + 1 > MaxTrackedSentPackets
      then (Some ErrTooManyTrackedSentPackets, packet, h)
      else
        let h = h\<lparr>sp_skippedPackets :=
              skipPackets (sp_lastSentPacketNumber h + 1) (pk_PacketNumber packet) (sp_skippedPackets h),
              sp_lastSentPacketNumber := pk_PacketNumber packet,
              sp_packets := sp_packets h + 1,
              sp_sentStreamFrameBytes := sp_sentStreamFrameBytes h + GetStreamFrameLength packet,
              sp_lastSentTime := now\<rparr>;
            packet = packet\<lparr>pk_Frames := stripNonRetransmittableFrames (pk_Frames packet)\<rparr>;
            isRetransmittable = (length (pk_Frames packet) \<noteq> 0);
            packet = (if isRetransmittable then packet\<lparr>pk_SendTime := now\<rparr> else packet);
            h = (if isRetransmittable
              then h\<lparr>sp_bytesInFlight := sp_bytesInFlight h + pk_Length packet,
                     sp_packetHistory := sp_packetHistory h @ [packet], sp_numNonRetransmittablePackets := 0\<rparr>
              else h\<lparr>sp_numNonRetransmittablePackets := sp_numNonRetransmittablePackets h + 1\<rparr>);
            h = h\<lparr>sp_congestion := OnPacketSent sa now (sp_bytesInFlight h) (pk_PacketNumber packet) (pk_Length packet)
              isRetransmittable (sp_congestion h)\<rparr>
        in (None, packet, updateLossDetectionAlarm sa h))"

text \<open>The packets that an ACK acknowledges. The index into the ACK ranges, which are in descending order, is the rest of the
  reversed list of ranges.\<close>

fun advanceRange :: "PacketNumber \<Rightarrow> AckRange list \<Rightarrow> AckRange list" where
  "advanceRange packetNumber (ackRange # next # ranges) =
     (if packetNumber > Last ackRange then advanceRange packetNumber (next # ranges) else ackRange # next # ranges)"
| "advanceRange packetNumber ranges = ranges"

fun newlyAcked ::
  "PacketNumber \<Rightarrow> PacketNumber \<Rightarrow> bool \<Rightarrow> AckRange list \<Rightarrow> Packet list \<Rightarrow> Packet list result" where
  "newlyAcked lowestAcked largestAcked hasMissingRanges ranges [] = Inr []"
| "newlyAcked lowestAcked largestAcked hasMissingRanges ranges (packet # rest) =
     (let packetNumber = pk_PacketNumber packet in
      if packetNumber < lowestAcked then newlyAcked lowestAcked largestAcked hasMissingRanges ranges rest
      else if packetNumber > largestAcked then Inr []
      else if hasMissingRanges then
        let ranges = advanceRange packetNumber ranges; ackRange = hd ranges
        in if packetNumber \<ge> First ackRange then
             if packetNumber > Last ackRange
             then Inl (OtherError ''BUG: ackhandler would have acked wrong packet'')
             else andThen (newlyAcked lowestAcked largestAcked hasMissingRanges ranges rest) (\<lambda>ps. Inr (packet # ps))
           else newlyAcked lowestAcked largestAcked hasMissingRanges ranges rest
      else andThen (newlyAcked lowestAcked largestAcked hasMissingRanges ranges rest) (\<lambda>ps. Inr (packet # ps)))"

definition determineNewlyAckedPackets :: "'c sentPacketHandler \<Rightarrow> AckFrame \<Rightarrow> Packet list result" where
  "determineNewlyAckedPackets h ackFrame =
     newlyAcked (ack_LowestAcked ackFrame) (ack_LargestAcked ackFrame) (ack_HasMissingRanges ackFrame)
       (rev (ack_AckRanges ackFrame)) (sp_packetHistory h)"

definition determineNewlyAckedPacketsClosePath :: "'c sentPacketHandler \<Rightarrow> ClosePathFrame \<Rightarrow> Packet list result" where
  "determineNewlyAckedPacketsClosePath h f =
     newlyAcked (cp_LowestAcked f) (cp_LargestAcked f) (cp_HasMissingRanges f) (rev (cp_AckRanges f)) (sp_packetHistory h)"

fun findLargestAcked :: "PacketNumber \<Rightarrow> Packet list \<Rightarrow> Packet option" where
  "findLargestAcked largestAcked [] = None"
| "findLargestAcked largestAcked (packet # rest) =
     (if pk_PacketNumber packet = largestAcked then Some packet
      else if pk_PacketNumber packet > largestAcked then None
      else findLargestAcked largestAcked rest)"

definition maybeUpdateRTT ::
  "gotime \<Rightarrow> 'c sentPacketHandler \<Rightarrow> PacketNumber \<Rightarrow> duration \<Rightarrow> gotime \<Rightarrow> bool \<times> 'c sentPacketHandler" where
  "maybeUpdateRTT now h largestAcked ackDelay rcvTime =
     (case findLargestAcked largestAcked (sp_packetHistory h) of
        Some packet \<Rightarrow>
          (True, h\<lparr>sp_rttStats := UpdateRTT (sp_rttStats h) (time_sub rcvTime (pk_SendTime packet)) ackDelay now\<rparr>)
      | None \<Rightarrow> (False, h))"

text \<open>Removing an element from the list of packets. Since packet numbers increase, the packet determines the
  element.\<close>

definition onPacketAcked :: "'c sentPacketHandler \<Rightarrow> Packet \<Rightarrow> 'c sentPacketHandler" where
  "onPacketAcked h packet =
     h\<lparr>sp_bytesInFlight := sp_bytesInFlight h - pk_Length packet, sp_rtoCount := 0, sp_tlpCount := 0,
       sp_packetHistory := remove1 packet (sp_packetHistory h)\<rparr>"

definition queuePacketForRetransmission :: "'c sentPacketHandler \<Rightarrow> Packet \<Rightarrow> 'c sentPacketHandler" where
  "queuePacketForRetransmission h packet =
     h\<lparr>sp_bytesInFlight := sp_bytesInFlight h - pk_Length packet,
       sp_retransmissionQueue := sp_retransmissionQueue h @ [packet],
       sp_packetHistory := remove1 packet (sp_packetHistory h),
       sp_stopWaitingManager := QueuedRetransmissionForPacketNumber (sp_stopWaitingManager h) (pk_PacketNumber packet)\<rparr>"

definition ackPackets ::
  "'c SendAlgorithm \<Rightarrow> gotime \<Rightarrow> Packet list \<Rightarrow> 'c sentPacketHandler \<Rightarrow> 'c sentPacketHandler" where
  "ackPackets sa now ackedPackets h =
     foldl (\<lambda>h p. let h = onPacketAcked h p
             in h\<lparr>sp_congestion := OnPacketAcked sa now (sp_rttStats h) (pk_PacketNumber p) (pk_Length p) (sp_bytesInFlight h)
                  (sp_congestion h)\<rparr>) h ackedPackets"

definition losePackets :: "'c SendAlgorithm \<Rightarrow> Packet list \<Rightarrow> 'c sentPacketHandler \<Rightarrow> 'c sentPacketHandler" where
  "losePackets sa lostPackets h =
     foldl (\<lambda>h p. let h = queuePacketForRetransmission h p
             in h\<lparr>sp_congestion := OnPacketLost sa (pk_PacketNumber p) (pk_Length p) (sp_bytesInFlight h) (sp_congestion h)\<rparr>)
       h lostPackets"

text \<open>\<open>(1.0 + timeReorderingFraction)\<close> is 9/8; the product is a \<^verbatim>\<open>float64\<close> with denominator 8.\<close>

definition delayUntilLost :: "RTTStats \<Rightarrow> duration" where
  "delayUntilLost r = quot (round64 (9 * round64 (MaxDuration (rtt_latestRTT r) (rtt_smoothedRTT r)))) 8"

text \<open>The lost packets and the loss time.\<close>

fun findLost :: "gotime \<Rightarrow> duration \<Rightarrow> PacketNumber \<Rightarrow> Packet list \<Rightarrow> gotime \<Rightarrow> Packet list \<times> gotime" where
  "findLost now delay largestAcked [] lossTime = ([], lossTime)"
| "findLost now delay largestAcked (packet # rest) lossTime =
     (if pk_PacketNumber packet > largestAcked then ([], lossTime)
      else
        let timeSinceSent = time_sub now (pk_SendTime packet)
        in if timeSinceSent > delay then
             let (lost, lossTime) = findLost now delay largestAcked rest lossTime in (packet # lost, lossTime)
           else findLost now delay largestAcked rest
                  (if lossTime = zero_time then time_add now (i64 (delay - timeSinceSent)) else lossTime))"

definition detectLostPackets :: "'c SendAlgorithm \<Rightarrow> gotime \<Rightarrow> 'c sentPacketHandler \<Rightarrow> 'c sentPacketHandler" where
  "detectLostPackets sa now h =
     (let (lostPackets, lossTime) =
            findLost now (delayUntilLost (sp_rttStats h)) (sp_LargestAcked h) (sp_packetHistory h) zero_time
      in losePackets sa lostPackets
           (h\<lparr>sp_lossTime := lossTime, sp_losses := sp_losses h + of_nat (length lostPackets)\<rparr>))"

definition SetInflightAsLost :: "'c SendAlgorithm \<Rightarrow> 'c sentPacketHandler \<Rightarrow> 'c sentPacketHandler" where
  "SetInflightAsLost sa h =
     (let lostPackets = takeWhile (\<lambda>packet. \<not> pk_PacketNumber packet > sp_LargestAcked h) (sp_packetHistory h)
      in losePackets sa lostPackets (h\<lparr>sp_losses := sp_losses h + of_nat (length lostPackets)\<rparr>))"


definition skippedPacketsAcked :: "'c sentPacketHandler \<Rightarrow> AckFrame \<Rightarrow> bool" where
  "skippedPacketsAcked h ackFrame = list_ex (ack_AcksPacket ackFrame) (sp_skippedPackets h)"

definition skippedPacketsAckedClosePath :: "'c sentPacketHandler \<Rightarrow> ClosePathFrame \<Rightarrow> bool" where
  "skippedPacketsAckedClosePath h closePathFrame = list_ex (cp_AcksPacket closePathFrame) (sp_skippedPackets h)"

definition garbageCollectSkippedPackets :: "'c sentPacketHandler \<Rightarrow> 'c sentPacketHandler" where
  "garbageCollectSkippedPackets h =
     (let lioa = largestInOrderAcked h;
          deleteIndex = foldl (\<lambda>deleteIndex (i, p). if p \<le> lioa then i + 1 else deleteIndex) 0
            (enumerate 0 (sp_skippedPackets h))
      in h\<lparr>sp_skippedPackets := drop deleteIndex (sp_skippedPackets h)\<rparr>)"

text \<open>The callback with the acknowledged packet numbers is the second component of the result.\<close>

definition ReceivedAck ::
  "'c SendAlgorithm \<Rightarrow> gotime \<Rightarrow> 'c sentPacketHandler \<Rightarrow> AckFrame \<Rightarrow> PacketNumber \<Rightarrow> gotime
   \<Rightarrow> goerror option \<times> PacketNumber list \<times> 'c sentPacketHandler" where
  "ReceivedAck sa now h ackFrame withPacketNumber rcvTime =
     (if ack_LargestAcked ackFrame > sp_lastSentPacketNumber h then (Some errAckForUnsentPacket, [], h)
      else if withPacketNumber \<le> sp_largestReceivedPacketWithAck h then (Some ErrDuplicateOrOutOfOrderAck, [], h)
      else
        let h = h\<lparr>sp_largestReceivedPacketWithAck := withPacketNumber\<rparr>
        in if ack_LargestAcked ackFrame \<le> largestInOrderAcked h then (None, [], h)
           else
             let h = h\<lparr>sp_LargestAcked := ack_LargestAcked ackFrame\<rparr>
             in if skippedPacketsAcked h ackFrame then (Some ErrAckForSkippedPacket, [], h)
                else
                  let (rttUpdated, h) = maybeUpdateRTT now h (ack_LargestAcked ackFrame) (ack_DelayTime ackFrame) rcvTime;
                      h = (if rttUpdated
                        then h\<lparr>sp_congestion := MaybeExitSlowStart sa (sp_rttStats h) (sp_congestion h)\<rparr> else h)
                  in case determineNewlyAckedPackets h ackFrame of
                       Inl err \<Rightarrow> (Some err, [], h)
                     | Inr ackedPackets \<Rightarrow>
                         let h = ackPackets sa now ackedPackets h;
                             h = detectLostPackets sa now h;
                             h = updateLossDetectionAlarm sa h;
                             h = garbageCollectSkippedPackets h;
                             h = h\<lparr>sp_stopWaitingManager := sm_ReceivedAck (sp_stopWaitingManager h) ackFrame\<rparr>
                         in (None, map pk_PacketNumber ackedPackets, h))"

definition ReceivedClosePath ::
  "'c SendAlgorithm \<Rightarrow> gotime \<Rightarrow> 'c sentPacketHandler \<Rightarrow> ClosePathFrame \<Rightarrow> PacketNumber \<Rightarrow> gotime
   \<Rightarrow> goerror option \<times> PacketNumber list \<times> 'c sentPacketHandler" where
  "ReceivedClosePath sa now h f withPacketNumber rcvTime =
     (if cp_LargestAcked f > sp_lastSentPacketNumber h then (Some errAckForUnsentPacket, [], h)
      else if withPacketNumber \<le> sp_largestReceivedPacketWithAck h then (Some ErrDuplicateOrOutOfOrderAck, [], h)
      else
        let h = h\<lparr>sp_largestReceivedPacketWithAck := withPacketNumber\<rparr>
        in if skippedPacketsAckedClosePath h f then (Some ErrAckForSkippedPacket, [], h)
           else
             case determineNewlyAckedPacketsClosePath h f of
               Inl err \<Rightarrow> (Some err, [], h)
             | Inr ackedPackets \<Rightarrow>
                 let h = ackPackets sa now ackedPackets h;
                     h = SetInflightAsLost sa h;
                     h = garbageCollectSkippedPackets h
                 in (None, map pk_PacketNumber ackedPackets, h))"

definition retransmitTLP :: "'c sentPacketHandler \<Rightarrow> 'c sentPacketHandler" where
  "retransmitTLP h =
     (if sp_packetHistory h = [] then h else queuePacketForRetransmission h (last (sp_packetHistory h)))"

definition queueRTO :: "'c SendAlgorithm \<Rightarrow> 'c sentPacketHandler \<Rightarrow> Packet \<Rightarrow> 'c sentPacketHandler" where
  "queueRTO sa h packet =
     (let h = queuePacketForRetransmission h packet;
          h = h\<lparr>sp_losses := sp_losses h + 1\<rparr>
      in h\<lparr>sp_congestion :=
             OnPacketLost sa (pk_PacketNumber packet) (pk_Length packet) (sp_bytesInFlight h) (sp_congestion h)\<rparr>)"

text \<open>The loop of \<^verbatim>\<open>retransmitAllPackets\<close> runs until the list is empty.\<close>

function queueAllRTO :: "'c SendAlgorithm \<Rightarrow> 'c sentPacketHandler \<Rightarrow> 'c sentPacketHandler" where
  "queueAllRTO sa h =
     (case sp_packetHistory h of [] \<Rightarrow> h | packet # rest \<Rightarrow> queueAllRTO sa (queueRTO sa h packet))"
  by pat_completeness auto
termination
  by (relation "measure (\<lambda>(sa, h). length (sp_packetHistory h))")
    (auto simp: queueRTO_def queuePacketForRetransmission_def Let_def)

declare queueAllRTO.simps [simp del]

definition retransmitAllPackets :: "'c SendAlgorithm \<Rightarrow> 'c sentPacketHandler \<Rightarrow> 'c sentPacketHandler" where
  "retransmitAllPackets sa h =
     (let h = queueAllRTO sa h in h\<lparr>sp_congestion := OnRetransmissionTimeout sa True (sp_congestion h)\<rparr>)"

definition retransmitOldestPacket :: "'c SendAlgorithm \<Rightarrow> 'c sentPacketHandler \<Rightarrow> 'c sentPacketHandler" where
  "retransmitOldestPacket sa h = (case sp_packetHistory h of [] \<Rightarrow> h | packet # rest \<Rightarrow> queueRTO sa h packet)"

definition retransmitOldestTwoPackets :: "'c SendAlgorithm \<Rightarrow> 'c sentPacketHandler \<Rightarrow> 'c sentPacketHandler" where
  "retransmitOldestTwoPackets sa h =
     (let h = retransmitOldestPacket sa (retransmitOldestPacket sa h)
      in h\<lparr>sp_congestion := OnRetransmissionTimeout sa True (sp_congestion h)\<rparr>)"

text \<open>\<open>onRTOCallback\<close> is the callback of the path; its effect on the path is not part of the handler.\<close>

definition OnAlarm ::
  "'c SendAlgorithm \<Rightarrow> (gotime \<Rightarrow> bool) option \<Rightarrow> gotime \<Rightarrow> 'c sentPacketHandler \<Rightarrow> 'c sentPacketHandler" where
  "OnAlarm sa onRTOCallback now h =
     (if \<not> hasOutstandingRetransmittablePacket h then h\<lparr>sp_alarm := zero_time\<rparr>
      else
        let h = (if sp_lossTime h \<noteq> zero_time then detectLostPackets sa now h
                 else if sp_tlpCount h < maxTailLossProbes then
                   let h = retransmitTLP h in h\<lparr>sp_tlpCount := sp_tlpCount h + 1\<rparr>
                 else
                   let potentiallyFailed =
                         (case onRTOCallback of None \<Rightarrow> False | Some callback \<Rightarrow> callback (sp_lastSentTime h));
                       h = (if potentiallyFailed then retransmitAllPackets sa h else retransmitOldestTwoPackets sa h)
                   in h\<lparr>sp_rtoCount := sp_rtoCount h + 1\<rparr>)
        in updateLossDetectionAlarm sa h)"

definition sp_GetAlarmTimeout :: "'c sentPacketHandler \<Rightarrow> gotime" where
  "sp_GetAlarmTimeout h = sp_alarm h"

definition DequeuePacketForRetransmission :: "'c sentPacketHandler \<Rightarrow> Packet option \<times> 'c sentPacketHandler" where
  "DequeuePacketForRetransmission h =
     (case sp_retransmissionQueue h of
        [] \<Rightarrow> (None, h)
      | packet # queue \<Rightarrow>
          (Some packet, h\<lparr>sp_retransmissionQueue := queue, sp_retransmissions := sp_retransmissions h + 1\<rparr>))"

definition GetLeastUnacked :: "'c sentPacketHandler \<Rightarrow> PacketNumber" where
  "GetLeastUnacked h = largestInOrderAcked h + 1"

definition sp_GetStopWaitingFrame ::
  "'c sentPacketHandler \<Rightarrow> bool \<Rightarrow> StopWaitingFrame option \<times> 'c sentPacketHandler" where
  "sp_GetStopWaitingFrame h force =
     (let (swf, s) = sm_GetStopWaitingFrame (sp_stopWaitingManager h) force in (swf, h\<lparr>sp_stopWaitingManager := s\<rparr>))"

definition SendingAllowed :: "'c SendAlgorithm \<Rightarrow> 'c sentPacketHandler \<Rightarrow> bool" where
  "SendingAllowed sa h =
     (let congestionLimited = (sp_bytesInFlight h > GetCongestionWindow sa (sp_congestion h));
          maxTrackedLimited = (length (sp_retransmissionQueue h) + length (sp_packetHistory h) \<ge> MaxTrackedSentPackets);
          haveRetransmissions = (length (sp_retransmissionQueue h) > 0)
      in \<not> maxTrackedLimited \<and> (\<not> congestionLimited \<or> haveRetransmissions))"

definition DuplicatePacket :: "'c sentPacketHandler \<Rightarrow> Packet \<Rightarrow> 'c sentPacketHandler" where
  "DuplicatePacket h packet = h\<lparr>sp_retransmissionQueue := sp_retransmissionQueue h @ [packet]\<rparr>"

text \<open>The first packet with a number, its removal from a list, and the removed bytes.\<close>

fun removeByNumber :: "PacketNumber \<Rightarrow> Packet list \<Rightarrow> u64 \<times> Packet list" where
  "removeByNumber num [] = (0, [])"
| "removeByNumber num (packet # rest) =
     (if pk_PacketNumber packet = num then (pk_Length packet, rest)
      else let (removedBytes, rest) = removeByNumber num rest in (removedBytes, packet # rest))"

fun removeQueued :: "PacketNumber \<Rightarrow> Packet list \<Rightarrow> bool \<times> Packet list" where
  "removeQueued num [] = (False, [])"
| "removeQueued num (packet # rest) =
     (if pk_PacketNumber packet = num then (True, rest)
      else let (found, rest) = removeQueued num rest in (found, packet # rest))"

definition RemovePacketByNumber :: "'c sentPacketHandler \<Rightarrow> PacketNumber \<Rightarrow> bool \<times> 'c sentPacketHandler" where
  "RemovePacketByNumber h num =
     (let (removedBytes, history) = removeByNumber num (sp_packetHistory h);
          h = h\<lparr>sp_packetHistory := history, sp_bytesInFlight := sp_bytesInFlight h - removedBytes\<rparr>
      in if removedBytes > 0 then (True, h\<lparr>sp_rtoCount := 0, sp_tlpCount := 0\<rparr>)
         else
           let (found, queue) = removeQueued num (sp_retransmissionQueue h)
           in (found, h\<lparr>sp_retransmissionQueue := queue\<rparr>))"

section \<open>The packets in flight\<close>

definition flight_bytes :: "Packet list \<Rightarrow> u64" where
  "flight_bytes ps = sum_list (map pk_Length ps)"

text \<open>The packets in flight have increasing packet numbers, all of them sent, and are the bytes in flight. The tracked
  skipped packet numbers are few and are no packet in flight.\<close>

definition sent_inv :: "'c sentPacketHandler \<Rightarrow> bool" where
  "sent_inv h \<longleftrightarrow>
     sorted_wrt (\<lambda>p q. pk_PacketNumber p < pk_PacketNumber q) (sp_packetHistory h) \<and>
     (\<forall>p \<in> set (sp_packetHistory h).
        0 < pk_PacketNumber p \<and> pk_PacketNumber p \<le> sp_lastSentPacketNumber h \<and> pk_Frames p \<noteq> [] \<and>
        pk_PacketNumber p \<notin> set (sp_skippedPackets h)) \<and>
     sp_bytesInFlight h = flight_bytes (sp_packetHistory h) \<and>
     length (sp_skippedPackets h) \<le> MaxTrackedSkippedPackets \<and>
     (\<forall>n \<in> set (sp_skippedPackets h). n < sp_lastSentPacketNumber h)"

text \<open>The packets that the handler still keeps: in flight or waiting for a retransmission.\<close>

definition kept :: "'c sentPacketHandler \<Rightarrow> Packet multiset" where
  "kept h = mset (sp_packetHistory h) + mset (sp_retransmissionQueue h)"

lemma flight_bytes_Nil [simp]: "flight_bytes [] = 0"
  and flight_bytes_Cons [simp]: "flight_bytes (p # ps) = pk_Length p + flight_bytes ps"
  and flight_bytes_append [simp]: "flight_bytes (ps @ qs) = flight_bytes ps + flight_bytes qs"
  by (simp_all add: flight_bytes_def)

lemma flight_bytes_filter: "flight_bytes (filter P ps) = flight_bytes ps - flight_bytes (filter (\<lambda>p. \<not> P p) ps)"
  by (induction ps) auto

text \<open>A step that takes packets out of the packets in flight.\<close>

definition shrinks :: "'c sentPacketHandler \<Rightarrow> 'c sentPacketHandler \<Rightarrow> bool" where
  "shrinks h h' \<longleftrightarrow>
     sp_lastSentPacketNumber h' = sp_lastSentPacketNumber h \<and>
     (\<exists>k. sp_skippedPackets h' = drop k (sp_skippedPackets h)) \<and>
     (\<exists>P. sp_packetHistory h' = filter P (sp_packetHistory h)) \<and>
     sp_bytesInFlight h' - flight_bytes (sp_packetHistory h') = sp_bytesInFlight h - flight_bytes (sp_packetHistory h)"

lemma shrinks_refl: "shrinks h h"
proof -
  have "sp_skippedPackets h = drop 0 (sp_skippedPackets h)"
    "sp_packetHistory h = filter (\<lambda>_. True) (sp_packetHistory h)" by simp_all
  then show ?thesis unfolding shrinks_def by metis
qed

lemma shrinks_trans:
  assumes "shrinks h h'" and "shrinks h' h''"
  shows "shrinks h h''"
proof -
  from assms obtain k P k' P' where
    "sp_skippedPackets h' = drop k (sp_skippedPackets h)" "sp_packetHistory h' = filter P (sp_packetHistory h)"
    "sp_skippedPackets h'' = drop k' (sp_skippedPackets h')" "sp_packetHistory h'' = filter P' (sp_packetHistory h')"
    unfolding shrinks_def by blast
  then have "sp_skippedPackets h'' = drop (k' + k) (sp_skippedPackets h)"
    "sp_packetHistory h'' = filter (\<lambda>p. P p \<and> P' p) (sp_packetHistory h)" by simp_all
  moreover have "sp_lastSentPacketNumber h'' = sp_lastSentPacketNumber h"
    "sp_bytesInFlight h'' - flight_bytes (sp_packetHistory h'') = sp_bytesInFlight h - flight_bytes (sp_packetHistory h)"
    using assms unfolding shrinks_def by simp_all
  ultimately show ?thesis unfolding shrinks_def by blast
qed

lemma shrinks_inv:
  assumes "shrinks h h'" and inv: "sent_inv h"
  shows "sent_inv h'"
proof -
  from assms(1) obtain k P where
    *: "sp_skippedPackets h' = drop k (sp_skippedPackets h)" "sp_packetHistory h' = filter P (sp_packetHistory h)"
      "sp_lastSentPacketNumber h' = sp_lastSentPacketNumber h" and
    b: "sp_bytesInFlight h' - flight_bytes (sp_packetHistory h') = sp_bytesInFlight h - flight_bytes (sp_packetHistory h)"
    unfolding shrinks_def by blast
  have "sp_bytesInFlight h' = flight_bytes (sp_packetHistory h')" using b inv by (simp add: sent_inv_def)
  then show ?thesis using inv unfolding sent_inv_def *(1,3)
    by (auto simp: *(2) sorted_wrt_filter dest: in_set_dropD)
qed

lemma inv_distinct: "sent_inv h \<Longrightarrow> distinct (map pk_PacketNumber (sp_packetHistory h))"
proof -
  assume "sent_inv h"
  then have "sorted_wrt (<) (map pk_PacketNumber (sp_packetHistory h))" by (simp add: sent_inv_def sorted_wrt_map)
  then show ?thesis by (simp add: strict_sorted_iff)
qed


lemma foldl_remove1: "distinct xs \<Longrightarrow> foldl (\<lambda>xs p. remove1 p xs) xs ps = filter (\<lambda>x. x \<notin> set ps) xs"
  by (induction ps arbitrary: xs) (auto simp: distinct_remove1_removeAll removeAll_filter_not_eq intro!: filter_cong)

lemma ackPackets_fields:
  "sp_packetHistory (ackPackets sa now ps h) = foldl (\<lambda>xs p. remove1 p xs) (sp_packetHistory h) ps"
  "sp_bytesInFlight (ackPackets sa now ps h) = sp_bytesInFlight h - flight_bytes ps"
  "sp_retransmissionQueue (ackPackets sa now ps h) = sp_retransmissionQueue h"
  "sp_lastSentPacketNumber (ackPackets sa now ps h) = sp_lastSentPacketNumber h"
  "sp_skippedPackets (ackPackets sa now ps h) = sp_skippedPackets h"
  "sp_LargestAcked (ackPackets sa now ps h) = sp_LargestAcked h"
  "sp_rttStats (ackPackets sa now ps h) = sp_rttStats h"
  by (induction ps arbitrary: h) (simp_all add: ackPackets_def onPacketAcked_def Let_def)

lemma losePackets_fields:
  "sp_packetHistory (losePackets sa ps h) = foldl (\<lambda>xs p. remove1 p xs) (sp_packetHistory h) ps"
  "sp_bytesInFlight (losePackets sa ps h) = sp_bytesInFlight h - flight_bytes ps"
  "sp_retransmissionQueue (losePackets sa ps h) = sp_retransmissionQueue h @ ps"
  "sp_lastSentPacketNumber (losePackets sa ps h) = sp_lastSentPacketNumber h"
  "sp_skippedPackets (losePackets sa ps h) = sp_skippedPackets h"
  "sp_LargestAcked (losePackets sa ps h) = sp_LargestAcked h"
  "sp_rttStats (losePackets sa ps h) = sp_rttStats h"
  by (induction ps arbitrary: h) (simp_all add: losePackets_def queuePacketForRetransmission_def Let_def)

lemma distinct_packets: "distinct (map pk_PacketNumber ps) \<Longrightarrow> distinct ps"
  by (simp add: distinct_map)

lemma filter_in_filter: "filter (\<lambda>x. x \<notin> set (filter P xs)) xs = filter (\<lambda>x. \<not> P x) xs"
  by (rule filter_cong) auto

lemma ackPackets_history:
  assumes "distinct (map pk_PacketNumber (sp_packetHistory h))"
  shows "sp_packetHistory (ackPackets sa now (filter P (sp_packetHistory h)) h) = filter (\<lambda>p. \<not> P p) (sp_packetHistory h)"
  using foldl_remove1[OF distinct_packets[OF assms]] by (simp only: ackPackets_fields filter_in_filter)

lemma losePackets_history:
  assumes "distinct (map pk_PacketNumber (sp_packetHistory h))"
  shows "sp_packetHistory (losePackets sa (filter P (sp_packetHistory h)) h) = filter (\<lambda>p. \<not> P p) (sp_packetHistory h)"
  using foldl_remove1[OF distinct_packets[OF assms]] by (simp only: losePackets_fields filter_in_filter)

lemma ackPackets_shrinks:
  assumes "distinct (map pk_PacketNumber (sp_packetHistory h))"
  shows "shrinks h (ackPackets sa now (filter P (sp_packetHistory h)) h)"
proof -
  show ?thesis unfolding shrinks_def ackPackets_history[OF assms] ackPackets_fields(2-5)
    using flight_bytes_filter[of "\<lambda>p. \<not> P p" "sp_packetHistory h"] by (intro conjI exI[of _ 0] exI[of _ "\<lambda>p. \<not> P p"]) simp_all
qed

lemma losePackets_shrinks:
  assumes "distinct (map pk_PacketNumber (sp_packetHistory h))"
  shows "shrinks h (losePackets sa (filter P (sp_packetHistory h)) h)"
proof -
  show ?thesis unfolding shrinks_def losePackets_history[OF assms] losePackets_fields(2-5)
    using flight_bytes_filter[of "\<lambda>p. \<not> P p" "sp_packetHistory h"] by (intro conjI exI[of _ 0] exI[of _ "\<lambda>p. \<not> P p"]) simp_all
qed

lemma mset_filter_split: "mset (filter (\<lambda>x. \<not> P x) xs) + mset (filter P xs) = mset xs"
  by (induction xs) auto

lemma ackPackets_kept:
  assumes "distinct (map pk_PacketNumber (sp_packetHistory h))"
  shows "kept h = mset (filter P (sp_packetHistory h)) + kept (ackPackets sa now (filter P (sp_packetHistory h)) h)"
  unfolding kept_def ackPackets_history[OF assms] ackPackets_fields(2-5)
  using mset_filter_split[of P "sp_packetHistory h"] by (simp add: ac_simps)

lemma losePackets_kept:
  assumes "distinct (map pk_PacketNumber (sp_packetHistory h))"
  shows "kept (losePackets sa (filter P (sp_packetHistory h)) h) = kept h"
  unfolding kept_def losePackets_history[OF assms] losePackets_fields(2-5)
  using mset_filter_split[of P "sp_packetHistory h"] by (simp add: ac_simps)

section \<open>Lost packets\<close>

definition is_lost :: "gotime \<Rightarrow> duration \<Rightarrow> PacketNumber \<Rightarrow> Packet \<Rightarrow> bool" where
  "is_lost now delay largestAcked p \<longleftrightarrow> pk_PacketNumber p \<le> largestAcked \<and> time_sub now (pk_SendTime p) > delay"

lemma findLost_filter:
  "sorted_wrt (\<lambda>p q. pk_PacketNumber p < pk_PacketNumber q) ps
     \<Longrightarrow> fst (findLost now delay la ps lossTime) = filter (is_lost now delay la) ps"
proof (induction ps arbitrary: lossTime)
  case (Cons p ps)
  show ?case
  proof (cases "pk_PacketNumber p > la")
    case True
    then have "\<not> is_lost now delay la q" if "q \<in> set (p # ps)" for q
      using that Cons.prems by (auto simp: is_lost_def dest!: bspec)
    with True show ?thesis by (simp add: filter_empty_conv)
  next
    case False
    with Cons show ?thesis by (simp add: is_lost_def Let_def case_prod_beta)
  qed
qed simp

lemma takeWhile_filter_sorted:
  "sorted_wrt (\<lambda>p q. pk_PacketNumber p < pk_PacketNumber q) ps
     \<Longrightarrow> takeWhile (\<lambda>p. \<not> pk_PacketNumber p > n) ps = filter (\<lambda>p. pk_PacketNumber p \<le> n) ps"
proof (induction ps)
  case (Cons p ps)
  show ?case
  proof (cases "pk_PacketNumber p > n")
    case True
    then have "\<not> pk_PacketNumber q \<le> n" if "q \<in> set (p # ps)" for q
      using that Cons.prems by (auto dest!: bspec)
    with True show ?thesis by (simp add: filter_empty_conv)
  next
    case False
    with Cons show ?thesis by auto
  qed
qed simp

section \<open>Acknowledged packets\<close>

text \<open>Ranges in ascending order.\<close>

definition ascending :: "AckRange list \<Rightarrow> bool" where
  "ascending rs \<longleftrightarrow> sorted_wrt (\<lambda>a b. Last a < First b) rs \<and> (\<forall>r \<in> set rs. First r \<le> Last r)"

lemma ascending_append: "ascending (as @ bs) \<Longrightarrow> ascending bs"
  by (auto simp: ascending_def sorted_wrt_append)

lemma separated_ascending: "separated r rs \<Longrightarrow> ascending (rev (r # rs))"
proof (induction rs arbitrary: r)
  case (Cons s rs)
  have sep: "separated s rs" and rs: "First r \<le> Last r" "Last s < First r" using Cons.prems
    by (auto simp: word_less_nat_alt word_le_nat_alt)
  from Cons.IH[OF sep] have IH: "ascending (rev (s # rs))" .
  have "Last a < First r" if "a \<in> set (s # rs)" for a
  proof (cases "a = s")
    case False
    then have "Last a < First s" "First s \<le> Last s" using IH that by (auto simp: ascending_def sorted_wrt_append)
    then show ?thesis using rs(2) by simp
  qed (use rs in simp)
  then show ?case using IH rs(1) by (auto simp: ascending_def sorted_wrt_append)
qed (simp add: ascending_def)

lemma advanceRange_split:
  assumes "ranges \<noteq> []" "n \<le> Last (last ranges)"
  obtains pre r rs where "ranges = pre @ r # rs" "advanceRange n ranges = r # rs" "\<forall>a \<in> set pre. Last a < n" "n \<le> Last r"
  using assms
proof (induction ranges arbitrary: thesis)
  case (Cons a ranges)
  show ?case
  proof (cases "ranges \<noteq> [] \<and> n > Last a")
    case True
    then obtain pre r rs' where "ranges = pre @ r # rs'" "advanceRange n ranges = r # rs'" "\<forall>a \<in> set pre. Last a < n"
      "n \<le> Last r" using Cons.IH Cons.prems(3) by (metis last_ConsR)
    moreover have "advanceRange n (a # ranges) = advanceRange n ranges" using True by (cases ranges) auto
    ultimately show ?thesis using Cons.prems(1)[of "a # pre" r rs'] True by simp
  next
    case False
    then have "advanceRange n (a # ranges) = a # ranges" by (cases ranges) auto
    moreover have "n \<le> Last a" using False Cons.prems(3) by auto
    ultimately show ?thesis using Cons.prems(1)[of "[]" a ranges] by simp
  qed
qed simp

lemma newlyAcked_ranges:
  assumes "ascending ranges" "ranges \<noteq> []" "largest \<le> Last (last ranges)"
    and "sorted_wrt (\<lambda>p q. pk_PacketNumber p < pk_PacketNumber q) ps"
  shows "newlyAcked lowest largest True ranges ps =
    Inr (filter (\<lambda>p. lowest \<le> pk_PacketNumber p \<and> pk_PacketNumber p \<le> largest \<and>
      (\<exists>r \<in> set ranges. pk_PacketNumber p \<in> range_set r)) ps)" (is "_ = Inr (filter (?P ranges) ps)")
  using assms
proof (induction ps arbitrary: ranges)
  case (Cons p ps)
  let ?n = "pk_PacketNumber p"
  have later: "?n < pk_PacketNumber q" if "q \<in> set ps" for q using that Cons.prems(4) by simp
  have IH: "newlyAcked lowest largest True rs ps = Inr (filter (?P rs) ps)"
    if "ascending rs" "rs \<noteq> []" "largest \<le> Last (last rs)" for rs using Cons.IH[OF that] Cons.prems(4) by simp
  consider "?n < lowest" | "\<not> ?n < lowest" "?n > largest" | "lowest \<le> ?n" "?n \<le> largest" by fastforce
  then show ?case
  proof cases
    case 1
    then have "\<not> ?P ranges p" by auto
    with 1 show ?thesis using IH[OF Cons.prems(1-3)] by (simp add: Let_def)
  next
    case 2
    then have "\<not> ?P ranges q" if "q \<in> set (p # ps)" for q using that later by fastforce
    then have "filter (?P ranges) (p # ps) = []" unfolding filter_empty_conv by blast
    with 2 show ?thesis by (simp only: newlyAcked.simps Let_def if_False if_True)
  next
    case 3
    then have "?n \<le> Last (last ranges)" using Cons.prems(3) by simp
    then obtain pre r rs where split: "ranges = pre @ r # rs" "advanceRange ?n ranges = r # rs"
      and pre: "\<forall>a \<in> set pre. Last a < ?n" and last: "?n \<le> Last r"
      by (rule advanceRange_split[OF Cons.prems(2)])
    have asc: "ascending (r # rs)" using Cons.prems(1) split(1) ascending_append by metis
    have IH': "newlyAcked lowest largest True (r # rs) ps = Inr (filter (?P (r # rs)) ps)"
      using IH[OF asc] Cons.prems(3) split(1) by simp
    have not_pre: "(\<exists>r \<in> set ranges. pk_PacketNumber q \<in> range_set r) \<longleftrightarrow>
        (\<exists>r \<in> set (r # rs). pk_PacketNumber q \<in> range_set r)" if "q \<in> set (p # ps)" for q
    proof -
      have "?n \<le> pk_PacketNumber q" using that later by fastforce
      then have "\<not> pk_PacketNumber q \<in> range_set a" if "a \<in> set pre" for a using pre that by (force simp: range_set_def)
      then show ?thesis unfolding split(1) by auto
    qed
    have here: "(\<exists>r \<in> set (r # rs). ?n \<in> range_set r) \<longleftrightarrow> First r \<le> ?n"
      using asc last by (fastforce simp: ascending_def range_set_def)
    have "filter (?P ranges) (p # ps) = filter (?P (r # rs)) (p # ps)"
      using not_pre by (intro filter_cong) auto
    also have "\<dots> = (if First r \<le> ?n then [p] else []) @ filter (?P (r # rs)) ps"
      using here 3 by simp
    finally have f: "filter (?P ranges) (p # ps) = (if First r \<le> ?n then [p] else []) @ filter (?P (r # rs)) ps" .
    have "\<not> ?n < lowest" "\<not> largest < ?n" "\<not> Last r < ?n" using 3 last by auto
    then have "newlyAcked lowest largest True ranges (p # ps) =
        (if First r \<le> ?n then andThen (newlyAcked lowest largest True (r # rs) ps) (\<lambda>ps. Inr (p # ps))
         else newlyAcked lowest largest True (r # rs) ps)" by (simp add: Let_def split(2) del: andThen_Inr_iff)
    then show ?thesis unfolding IH' f by simp
  qed
qed simp

lemma newlyAcked_all:
  assumes "sorted_wrt (\<lambda>p q. pk_PacketNumber p < pk_PacketNumber q) ps"
  shows "newlyAcked lowest largest False ranges ps =
    Inr (filter (\<lambda>p. lowest \<le> pk_PacketNumber p \<and> pk_PacketNumber p \<le> largest) ps)"
  using assms
proof (induction ps)
  case (Cons p ps)
  show ?case
  proof (cases "lowest \<le> pk_PacketNumber p \<and> pk_PacketNumber p > largest")
    case True
    then have "\<not> (lowest \<le> pk_PacketNumber q \<and> pk_PacketNumber q \<le> largest)" if "q \<in> set (p # ps)" for q
      using that Cons.prems by fastforce
    then have "filter (\<lambda>p. lowest \<le> pk_PacketNumber p \<and> pk_PacketNumber p \<le> largest) (p # ps) = []"
      unfolding filter_empty_conv by blast
    with True show ?thesis by (simp only: newlyAcked.simps Let_def not_less[symmetric] if_False if_True)
  next
    case False
    with Cons show ?thesis by (auto simp: Let_def simp del: andThen_Inr_iff)
  qed
qed simp

lemma newlyAcked_accepted:
  assumes "blocks_accepted L lo rs" "sorted_wrt (\<lambda>p q. pk_PacketNumber p < pk_PacketNumber q) ps"
  shows "newlyAcked lo L (length rs > 0) (rev rs) ps = Inr (filter (\<lambda>p. acks_packet L lo rs (pk_PacketNumber p)) ps)"
proof (cases rs)
  case Nil
  have "acks_packet L lo [] n \<longleftrightarrow> lo \<le> n \<and> n \<le> L" for n by (auto simp: acks_packet_def)
  then show ?thesis using newlyAcked_all[OF assms(2)] Nil by simp
next
  case (Cons r rs')
  have sep: "separated r rs'" "Last r = L" using assms(1) Cons by (simp_all add: blocks_accepted_def)
  have "newlyAcked lo L True (rev rs) ps = Inr (filter (\<lambda>p. lo \<le> pk_PacketNumber p \<and> pk_PacketNumber p \<le> L \<and>
      (\<exists>r \<in> set (rev rs). pk_PacketNumber p \<in> range_set r)) ps)"
    using separated_ascending[OF sep(1)] sep(2) Cons by (intro newlyAcked_ranges assms(2)) auto
  moreover have "acks_packet L lo rs n \<longleftrightarrow> lo \<le> n \<and> n \<le> L \<and> (\<exists>r \<in> set (rev rs). n \<in> range_set r)" for n
    using Cons by (auto simp: acks_packet_def in_some_range_iff)
  ultimately show ?thesis using Cons by simp
qed

lemma determine_accepted:
  assumes "blocks_accepted (ack_LargestAcked f) (ack_LowestAcked f) (ack_AckRanges f)" "sent_inv h"
  shows "determineNewlyAckedPackets h f = Inr (filter (\<lambda>p. ack_AcksPacket f (pk_PacketNumber p)) (sp_packetHistory h))"
  using newlyAcked_accepted[OF assms(1)] assms(2)
  by (simp add: determineNewlyAckedPackets_def ack_HasMissingRanges_def ack_AcksPacket_def sent_inv_def)

lemma determine_close_accepted:
  assumes "blocks_accepted (cp_LargestAcked f) (cp_LowestAcked f) (cp_AckRanges f)" "sent_inv h"
  shows "determineNewlyAckedPacketsClosePath h f
    = Inr (filter (\<lambda>p. cp_AcksPacket f (pk_PacketNumber p)) (sp_packetHistory h))"
  using newlyAcked_accepted[OF assms(1)] assms(2)
  by (simp add: determineNewlyAckedPacketsClosePath_def cp_HasMissingRanges_def cp_AcksPacket_def sent_inv_def)

section \<open>The operations on the packets in flight\<close>

lemma updateLossDetectionAlarm_fields [simp]:
  "sp_packetHistory (updateLossDetectionAlarm sa h) = sp_packetHistory h"
  "sp_retransmissionQueue (updateLossDetectionAlarm sa h) = sp_retransmissionQueue h"
  "sp_bytesInFlight (updateLossDetectionAlarm sa h) = sp_bytesInFlight h"
  "sp_lastSentPacketNumber (updateLossDetectionAlarm sa h) = sp_lastSentPacketNumber h"
  "sp_skippedPackets (updateLossDetectionAlarm sa h) = sp_skippedPackets h"
  "sp_LargestAcked (updateLossDetectionAlarm sa h) = sp_LargestAcked h"
  "sp_rttStats (updateLossDetectionAlarm sa h) = sp_rttStats h"
  "sp_congestion (updateLossDetectionAlarm sa h) = sp_congestion h"
  by (simp_all add: updateLossDetectionAlarm_def)

lemma maybeUpdateRTT_fields [simp]:
  "sp_packetHistory (snd (maybeUpdateRTT now h la d t)) = sp_packetHistory h"
  "sp_retransmissionQueue (snd (maybeUpdateRTT now h la d t)) = sp_retransmissionQueue h"
  "sp_bytesInFlight (snd (maybeUpdateRTT now h la d t)) = sp_bytesInFlight h"
  "sp_lastSentPacketNumber (snd (maybeUpdateRTT now h la d t)) = sp_lastSentPacketNumber h"
  "sp_skippedPackets (snd (maybeUpdateRTT now h la d t)) = sp_skippedPackets h"
  "sp_LargestAcked (snd (maybeUpdateRTT now h la d t)) = sp_LargestAcked h"
  by (simp_all add: maybeUpdateRTT_def split: option.splits)

lemma garbageCollect_fields [simp]:
  "sp_packetHistory (garbageCollectSkippedPackets h) = sp_packetHistory h"
  "sp_retransmissionQueue (garbageCollectSkippedPackets h) = sp_retransmissionQueue h"
  "sp_bytesInFlight (garbageCollectSkippedPackets h) = sp_bytesInFlight h"
  "sp_lastSentPacketNumber (garbageCollectSkippedPackets h) = sp_lastSentPacketNumber h"
  "sp_rttStats (garbageCollectSkippedPackets h) = sp_rttStats h"
  by (simp_all add: garbageCollectSkippedPackets_def Let_def)

lemma shrinks_same:
  assumes "sp_lastSentPacketNumber h' = sp_lastSentPacketNumber h" "sp_packetHistory h' = sp_packetHistory h"
    "sp_bytesInFlight h' = sp_bytesInFlight h" "\<exists>k. sp_skippedPackets h' = drop k (sp_skippedPackets h)"
  shows "shrinks h h'"
  using assms shrinks_refl[of h] unfolding shrinks_def by simp

lemma same_skipped: "\<exists>k. xs = drop k xs"
  by (rule exI[of _ 0]) simp

lemma garbageCollect_shrinks: "shrinks h (garbageCollectSkippedPackets h)"
  by (rule shrinks_same) (auto simp: garbageCollectSkippedPackets_def Let_def)

lemma updateLossDetectionAlarm_shrinks: "shrinks h (updateLossDetectionAlarm sa h)"
  by (rule shrinks_same) (simp_all add: same_skipped)

lemma kept_same:
  "sp_packetHistory h' = sp_packetHistory h \<Longrightarrow> sp_retransmissionQueue h' = sp_retransmissionQueue h \<Longrightarrow> kept h' = kept h"
  by (simp add: kept_def)

text \<open>A step that keeps every packet, in flight or queued.\<close>

definition moves :: "'c sentPacketHandler \<Rightarrow> 'c sentPacketHandler \<Rightarrow> bool" where
  "moves h h' \<longleftrightarrow> shrinks h h' \<and> kept h' = kept h"

lemma moves_refl: "moves h h" by (simp add: moves_def shrinks_refl)

lemma moves_trans: "moves h h' \<Longrightarrow> moves h' h'' \<Longrightarrow> moves h h''"
  using shrinks_trans by (auto simp: moves_def)

lemma moves_inv: "moves h h' \<Longrightarrow> sent_inv h \<Longrightarrow> sent_inv h'"
  using shrinks_inv by (auto simp: moves_def)

lemma moves_same:
  assumes "sp_lastSentPacketNumber h' = sp_lastSentPacketNumber h" "sp_packetHistory h' = sp_packetHistory h"
    "sp_bytesInFlight h' = sp_bytesInFlight h" "sp_skippedPackets h' = sp_skippedPackets h"
    "sp_retransmissionQueue h' = sp_retransmissionQueue h"
  shows "moves h h'"
  unfolding moves_def by (intro conjI shrinks_same kept_same) (simp_all add: assms same_skipped)

lemma losePackets_moves:
  assumes "sent_inv h"
  shows "moves h (losePackets sa (filter P (sp_packetHistory h)) h)"
  unfolding moves_def using losePackets_shrinks losePackets_kept inv_distinct[OF assms] by blast

text \<open>Losing packets after a change of the counters only.\<close>

lemma losePackets_moves':
  assumes "sent_inv h" "moves h h'" "sp_packetHistory h' = sp_packetHistory h"
  shows "moves h (losePackets sa (filter P (sp_packetHistory h)) h')"
  using moves_trans[OF assms(2) losePackets_moves[OF moves_inv[OF assms(2,1)]]] unfolding assms(3) .

lemma detectLostPackets_effect:
  fixes h :: "'c sentPacketHandler" and now :: gotime
  assumes "sent_inv h"
  defines "lost \<equiv> is_lost now (delayUntilLost (sp_rttStats h)) (sp_LargestAcked h)"
  shows "sp_packetHistory (detectLostPackets sa now h) = filter (\<lambda>p. \<not> lost p) (sp_packetHistory h)"
    "sp_retransmissionQueue (detectLostPackets sa now h) = sp_retransmissionQueue h @ filter lost (sp_packetHistory h)"
    "moves h (detectLostPackets sa now h)"
    "sp_rttStats (detectLostPackets sa now h) = sp_rttStats h"
proof -
  obtain l t where e: "findLost now (delayUntilLost (sp_rttStats h)) (sp_LargestAcked h) (sp_packetHistory h) zero_time = (l, t)"
    by (rule prod.exhaust)
  have "sorted_wrt (\<lambda>p q. pk_PacketNumber p < pk_PacketNumber q) (sp_packetHistory h)" using assms(1) by (simp add: sent_inv_def)
  from findLost_filter[OF this, of now "delayUntilLost (sp_rttStats h)" "sp_LargestAcked h" zero_time]
  have l: "l = filter lost (sp_packetHistory h)" by (simp add: e lost_def)
  define h1 where "h1 = h\<lparr>sp_lossTime := t, sp_losses := sp_losses h + of_nat (length l)\<rparr>"
  have h1: "sp_packetHistory h1 = sp_packetHistory h" "sp_retransmissionQueue h1 = sp_retransmissionQueue h"
    "sp_rttStats h1 = sp_rttStats h" "moves h h1" unfolding h1_def by (simp_all add: moves_same)
  have d: "detectLostPackets sa now h = losePackets sa (filter lost (sp_packetHistory h1)) h1"
    unfolding detectLostPackets_def e Let_def h1_def l by simp
  have dist: "distinct (map pk_PacketNumber (sp_packetHistory h1))" using inv_distinct[OF assms(1)] h1 by simp
  show "sp_packetHistory (detectLostPackets sa now h) = filter (\<lambda>p. \<not> lost p) (sp_packetHistory h)"
    using losePackets_history[OF dist] h1 unfolding d by simp
  show "sp_retransmissionQueue (detectLostPackets sa now h) = sp_retransmissionQueue h @ filter lost (sp_packetHistory h)"
    "sp_rttStats (detectLostPackets sa now h) = sp_rttStats h"
    unfolding d losePackets_fields by (simp_all add: h1)
  show "moves h (detectLostPackets sa now h)" unfolding d using losePackets_moves'[OF assms(1) h1(4,1)] h1(1) by simp
qed

lemma SetInflightAsLost_moves:
  assumes "sent_inv h"
  shows "moves h (SetInflightAsLost sa h)"
proof -
  have "takeWhile (\<lambda>p. \<not> pk_PacketNumber p > sp_LargestAcked h) (sp_packetHistory h)
      = filter (\<lambda>p. pk_PacketNumber p \<le> sp_LargestAcked h) (sp_packetHistory h)"
    using assms by (intro takeWhile_filter_sorted) (simp add: sent_inv_def)
  then show ?thesis unfolding SetInflightAsLost_def Let_def
    by (simp only:) (rule losePackets_moves'[OF assms moves_same], simp_all)
qed

lemma flight_bytes_remove1: "p \<in> set ps \<Longrightarrow> flight_bytes (remove1 p ps) = flight_bytes ps - pk_Length p"
  by (induction ps) auto

lemma queuePacket_moves:
  assumes "p \<in> set (sp_packetHistory h)" "sent_inv h"
  shows "moves h (queuePacketForRetransmission h p)"
proof -
  have "remove1 p (sp_packetHistory h) = filter (\<lambda>q. p \<noteq> q) (sp_packetHistory h)"
    using distinct_packets[OF inv_distinct[OF assms(2)]]
    by (simp add: distinct_remove1_removeAll removeAll_filter_not_eq)
  then have "shrinks h (queuePacketForRetransmission h p)"
    unfolding shrinks_def queuePacketForRetransmission_def
    using flight_bytes_remove1[OF assms(1)] same_skipped by auto
  moreover have "kept (queuePacketForRetransmission h p) = kept h"
    using assms(1) by (simp add: kept_def queuePacketForRetransmission_def)
  ultimately show ?thesis by (simp add: moves_def)
qed

lemma queueRTO_moves:
  assumes "p \<in> set (sp_packetHistory h)" "sent_inv h"
  shows "moves h (queueRTO sa h p)"
  by (rule moves_trans[OF queuePacket_moves[OF assms]]) (auto simp: queueRTO_def Let_def intro: moves_same)

lemma queueRTO_queue:
  "sp_retransmissionQueue (queueRTO sa h p) = sp_retransmissionQueue h @ [p]"
  "sp_packetHistory (queueRTO sa h p) = remove1 p (sp_packetHistory h)"
  by (simp_all add: queueRTO_def queuePacketForRetransmission_def Let_def)

lemma queueAllRTO_effect:
  "sent_inv h \<Longrightarrow> moves h (queueAllRTO sa h) \<and> sp_packetHistory (queueAllRTO sa h) = [] \<and>
     sp_retransmissionQueue (queueAllRTO sa h) = sp_retransmissionQueue h @ sp_packetHistory h"
proof (induction sa h rule: queueAllRTO.induct)
  case (1 sa h)
  show ?case
  proof (cases "sp_packetHistory h")
    case (Cons p ps)
    have m: "moves h (queueRTO sa h p)" using 1(2) Cons by (intro queueRTO_moves) simp_all
    have "moves (queueRTO sa h p) (queueAllRTO sa (queueRTO sa h p)) \<and> sp_packetHistory (queueAllRTO sa (queueRTO sa h p)) = [] \<and>
        sp_retransmissionQueue (queueAllRTO sa (queueRTO sa h p)) = sp_retransmissionQueue h @ p # ps"
      using 1(1)[OF Cons moves_inv[OF m 1(2)]] Cons by (simp add: queueRTO_queue)
    then show ?thesis using moves_trans[OF m] Cons by (simp add: queueAllRTO.simps[of sa h])
  qed (simp add: queueAllRTO.simps moves_refl)
qed

lemma set_congestion_moves: "moves h (h\<lparr>sp_congestion := c\<rparr>)"
  by (rule moves_same) simp_all

lemma retransmitAllPackets_moves: "sent_inv h \<Longrightarrow> moves h (retransmitAllPackets sa h)"
  unfolding retransmitAllPackets_def Let_def using queueAllRTO_effect[of h sa] by (intro moves_trans[OF _ set_congestion_moves]) simp

lemma retransmitOldestPacket_moves: "sent_inv h \<Longrightarrow> moves h (retransmitOldestPacket sa h)"
  unfolding retransmitOldestPacket_def by (auto split: list.splits intro: moves_refl queueRTO_moves)

lemma retransmitOldestTwoPackets_moves: "sent_inv h \<Longrightarrow> moves h (retransmitOldestTwoPackets sa h)"
  unfolding retransmitOldestTwoPackets_def Let_def
  by (rule moves_trans[OF moves_trans[OF retransmitOldestPacket_moves retransmitOldestPacket_moves] set_congestion_moves])
    (auto intro: moves_inv[OF retransmitOldestPacket_moves])

lemma retransmitTLP_moves: "sent_inv h \<Longrightarrow> moves h (retransmitTLP h)"
  unfolding retransmitTLP_def by (simp add: queuePacket_moves moves_refl)

lemma OnAlarm_moves:
  assumes "sent_inv h"
  shows "moves h (OnAlarm sa cb now h)"
proof -
  have update: "moves h (updateLossDetectionAlarm sa h')" if "moves h h'" for h'
    by (rule moves_trans[OF that]) (rule moves_same, simp_all)
  have cancel: "moves h (h\<lparr>sp_alarm := zero_time\<rparr>)" by (rule moves_same) simp_all
  have detect: "moves h (detectLostPackets sa now h)" by (rule detectLostPackets_effect[OF assms])
  have tlp: "moves h ((retransmitTLP h)\<lparr>sp_tlpCount := n\<rparr>)" for n
    by (rule moves_trans[OF retransmitTLP_moves[OF assms]]) (rule moves_same, simp_all)
  have all: "moves h ((retransmitAllPackets sa h)\<lparr>sp_rtoCount := n\<rparr>)" for n
    by (rule moves_trans[OF retransmitAllPackets_moves[OF assms]]) (rule moves_same, simp_all)
  have two: "moves h ((retransmitOldestTwoPackets sa h)\<lparr>sp_rtoCount := n\<rparr>)" for n
    by (rule moves_trans[OF retransmitOldestTwoPackets_moves[OF assms]]) (rule moves_same, simp_all)
  show ?thesis unfolding OnAlarm_def Let_def
    using cancel update[OF detect] update[OF tlp] update[OF all] update[OF two] by (simp split: if_split)
qed

section \<open>Sending, acknowledging and removing packets\<close>

lemma skipPackets_bounds:
  "length sk \<le> MaxTrackedSkippedPackets \<Longrightarrow>
     length (skipPackets p n sk) \<le> MaxTrackedSkippedPackets \<and> set (skipPackets p n sk) \<subseteq> set sk \<union> {p..<n}"
proof (induction p n sk rule: skipPackets.induct)
  case (1 p n sk)
  show ?case
  proof (cases "p < n")
    case True
    let ?sk = "if length (sk @ [p]) > MaxTrackedSkippedPackets then tl (sk @ [p]) else sk @ [p]"
    have "length ?sk \<le> MaxTrackedSkippedPackets" using "1.prems" by auto
    from "1.IH"[OF True refl refl this]
    have IH: "length (skipPackets (p + 1) n ?sk) \<le> MaxTrackedSkippedPackets"
      "set (skipPackets (p + 1) n ?sk) \<subseteq> set ?sk \<union> {p + 1..<n}" by simp_all
    have "p \<noteq> - 1" using True word_order.extremum_strict by blast
    then have "p \<le> p + 1" using unat_succ[of p] by (simp add: word_le_nat_alt)
    then have "{p + 1..<n} \<subseteq> {p..<n}" by auto
    moreover have "set ?sk \<subseteq> set sk \<union> {p}" using list.set_sel(2)[of "sk @ [p]"] by auto
    moreover have "{p} \<subseteq> {p..<n}" using True by simp
    ultimately have "set (skipPackets (p + 1) n ?sk) \<subseteq> set sk \<union> {p..<n}" using IH(2) by blast
    with IH(1) show ?thesis using True by (simp add: skipPackets.simps[of p] Let_def)
  next
    case False
    with "1.prems" show ?thesis by (simp add: skipPackets.simps[of p])
  qed
qed

lemma SentPacket_fields:
  assumes "SentPacket sa now h p = (None, p', h')"
  shows "sp_lastSentPacketNumber h < pk_PacketNumber p" "pk_PacketNumber p' = pk_PacketNumber p" "pk_Length p' = pk_Length p"
    "pk_Frames p' = stripNonRetransmittableFrames (pk_Frames p)"
    "sp_lastSentPacketNumber h' = pk_PacketNumber p"
    "sp_skippedPackets h' = skipPackets (sp_lastSentPacketNumber h + 1) (pk_PacketNumber p) (sp_skippedPackets h)"
    "sp_retransmissionQueue h' = sp_retransmissionQueue h"
    "sp_packetHistory h' = sp_packetHistory h @ (if pk_Frames p' \<noteq> [] then [p'] else [])"
    "sp_bytesInFlight h' = sp_bytesInFlight h + (if pk_Frames p' \<noteq> [] then pk_Length p' else 0)"
  using assms unfolding SentPacket_def Let_def by (auto split: if_splits)

lemma SentPacket_error: "SentPacket sa now h p = (Some e, p', h') \<Longrightarrow> h' = h \<and> p' = p"
  by (auto simp: SentPacket_def Let_def split: if_splits)

lemma SentPacket_inv:
  assumes "SentPacket sa now h p = (None, p', h')" "sent_inv h"
  shows "sent_inv h'"
proof -
  note F = SentPacket_fields[OF assms(1)]
  let ?l = "sp_lastSentPacketNumber h" and ?n = "pk_PacketNumber p"
  have "?l \<noteq> - 1" using F(1) word_order.extremum_strict by metis
  then have "?l < ?l + 1" using unat_succ[of ?l] by (simp add: word_less_nat_alt)
  then have new: "?l < n \<and> n < ?n" if "n \<in> {?l + 1..<?n}" for n using that by auto
  have sk: "length (sp_skippedPackets h') \<le> MaxTrackedSkippedPackets"
    "set (sp_skippedPackets h') \<subseteq> set (sp_skippedPackets h) \<union> {?l + 1..<?n}"
    using skipPackets_bounds[of "sp_skippedPackets h"] assms(2) unfolding F(6) sent_inv_def by blast+
  have old: "\<forall>q \<in> set (sp_packetHistory h). 0 < pk_PacketNumber q \<and> pk_PacketNumber q \<le> ?l \<and> pk_Frames q \<noteq> [] \<and>
        pk_PacketNumber q \<notin> set (sp_skippedPackets h)" "\<forall>n \<in> set (sp_skippedPackets h). n < ?l"
    using assms(2) by (auto simp: sent_inv_def)
  have skl: "n < ?n" if "n \<in> set (sp_skippedPackets h')" for n using that sk(2) new old(2) F(1) by fastforce
  have q: "0 < pk_PacketNumber q \<and> pk_PacketNumber q \<le> ?n \<and> pk_Frames q \<noteq> [] \<and> pk_PacketNumber q \<notin> set (sp_skippedPackets h')"
    if "q \<in> set (sp_packetHistory h)" for q
  proof -
    have "pk_PacketNumber q \<notin> {?l + 1..<?n}" using new old(1) that by (meson not_less)
    then show ?thesis using old(1) that sk(2) F(1) by fastforce
  qed
  have "0 < ?n" using F(1) word_gt_0_no word_neq_0_conv by fastforce
  moreover have "pk_PacketNumber q < pk_PacketNumber p'" if "q \<in> set (sp_packetHistory h)" for q
    using old(1) that F(1,2) by fastforce
  moreover have "?n \<notin> set (sp_skippedPackets h')" using skl by blast
  ultimately show ?thesis using q sk(1) skl assms(2) unfolding sent_inv_def F(5,8,9) by (auto simp: sorted_wrt_append F(2))
qed

lemma removeByNumber_effect:
  "distinct (map pk_PacketNumber ps) \<Longrightarrow>
     removeByNumber num ps =
       (flight_bytes (filter (\<lambda>p. pk_PacketNumber p = num) ps), filter (\<lambda>p. pk_PacketNumber p \<noteq> num) ps)"
proof (induction ps)
  case (Cons p ps)
  show ?case
  proof (cases "pk_PacketNumber p = num")
    case True
    then have "\<forall>q \<in> set ps. pk_PacketNumber q \<noteq> num" using Cons.prems by (metis distinct.simps(2) image_eqI list.simps(9) set_map)
    then have "filter (\<lambda>p. pk_PacketNumber p = num) ps = []" "filter (\<lambda>p. pk_PacketNumber p \<noteq> num) ps = ps"
      by (simp_all add: filter_empty_conv)
    with True show ?thesis by simp
  qed (use Cons in simp)
qed simp

lemma removeQueued_effect:
  "removeQueued num ps = (list_ex (\<lambda>p. pk_PacketNumber p = num) ps,
     takeWhile (\<lambda>p. pk_PacketNumber p \<noteq> num) ps @ tl (dropWhile (\<lambda>p. pk_PacketNumber p \<noteq> num) ps))"
  by (induction ps) auto


lemma garbageCollect_moves: "moves h (garbageCollectSkippedPackets h)"
  unfolding moves_def by (intro conjI garbageCollect_shrinks kept_same) simp_all

text \<open>The packets that an ACK acknowledges and the ones that are then lost.\<close>

lemma ReceivedAck_effect:
  fixes h :: "'c sentPacketHandler" and f :: AckFrame
  assumes inv: "sent_inv h" and acc: "blocks_accepted (ack_LargestAcked f) (ack_LowestAcked f) (ack_AckRanges f)"
    and guards: "ack_LargestAcked f \<le> sp_lastSentPacketNumber h" "sp_largestReceivedPacketWithAck h < wpn"
      "largestInOrderAcked h < ack_LargestAcked f" "\<not> skippedPacketsAcked h f"
  defines "acked \<equiv> \<lambda>p. ack_AcksPacket f (pk_PacketNumber p)"
  obtains h' lost where "ReceivedAck sa now h f wpn t = (None, map pk_PacketNumber (filter acked (sp_packetHistory h)), h')"
    "lost = is_lost now (delayUntilLost (sp_rttStats h')) (ack_LargestAcked f)"
    "sp_packetHistory h' = filter (\<lambda>p. \<not> acked p \<and> \<not> lost p) (sp_packetHistory h)"
    "sp_retransmissionQueue h' = sp_retransmissionQueue h @ filter (\<lambda>p. \<not> acked p \<and> lost p) (sp_packetHistory h)"
    "shrinks h h'" "kept h = mset (filter acked (sp_packetHistory h)) + kept h'"
proof -
  define h0 where "h0 = h\<lparr>sp_largestReceivedPacketWithAck := wpn, sp_LargestAcked := ack_LargestAcked f\<rparr>"
  define m where "m = maybeUpdateRTT now h0 (ack_LargestAcked f) (ack_DelayTime f) t"
  define h1 where "h1 = (if fst m
    then (snd m)\<lparr>sp_congestion := MaybeExitSlowStart sa (sp_rttStats (snd m)) (sp_congestion (snd m))\<rparr> else snd m)"
  define h2 where "h2 = ackPackets sa now (filter acked (sp_packetHistory h1)) h1"
  define h3 where "h3 = detectLostPackets sa now h2"
  define h4 where "h4 = garbageCollectSkippedPackets (updateLossDetectionAlarm sa h3)"
  define h' where "h' = h4\<lparr>sp_stopWaitingManager := sm_ReceivedAck (sp_stopWaitingManager h4) f\<rparr>"
  define lost where "lost = is_lost now (delayUntilLost (sp_rttStats h')) (ack_LargestAcked f)"
  have h1: "moves h h1" "sp_packetHistory h1 = sp_packetHistory h" "sp_retransmissionQueue h1 = sp_retransmissionQueue h"
    "sp_LargestAcked h1 = ack_LargestAcked f"
  proof -
    have m: "moves h (snd m)" "sp_packetHistory (snd m) = sp_packetHistory h"
      "sp_retransmissionQueue (snd m) = sp_retransmissionQueue h" "sp_LargestAcked (snd m) = ack_LargestAcked f"
      unfolding m_def by (rule moves_same; simp add: h0_def) (simp_all add: h0_def)
    then show "moves h h1" unfolding h1_def by (simp add: moves_trans[OF m(1) set_congestion_moves])
    show "sp_packetHistory h1 = sp_packetHistory h" "sp_retransmissionQueue h1 = sp_retransmissionQueue h"
      "sp_LargestAcked h1 = ack_LargestAcked f" unfolding h1_def using m by simp_all
  qed
  have inv1: "sent_inv h1" using moves_inv[OF h1(1) inv] .
  note d1 = inv_distinct[OF inv1]
  have h2: "shrinks h1 h2" "kept h1 = mset (filter acked (sp_packetHistory h1)) + kept h2"
    "sp_packetHistory h2 = filter (\<lambda>p. \<not> acked p) (sp_packetHistory h)" "sp_retransmissionQueue h2 = sp_retransmissionQueue h"
    "sp_LargestAcked h2 = ack_LargestAcked f"
    unfolding h2_def using ackPackets_shrinks[OF d1] ackPackets_kept[OF d1] ackPackets_history[OF d1] h1
    by (simp_all only: ackPackets_fields)
  have inv2: "sent_inv h2" using shrinks_inv[OF h2(1) inv1] .
  have r: "sp_rttStats h' = sp_rttStats h2" unfolding h'_def h4_def h3_def using detectLostPackets_effect(4)[OF inv2] by simp
  note D = detectLostPackets_effect[OF inv2, of sa now, folded h3_def r, unfolded h2(5), folded lost_def]
  have "moves h3 (updateLossDetectionAlarm sa h3)" "moves h4 h'" unfolding h'_def by (rule moves_same; simp)+
  moreover have "moves (updateLossDetectionAlarm sa h3) h4" unfolding h4_def by (rule garbageCollect_moves)
  ultimately have h': "moves h3 h'" by (meson moves_trans)
  have "ReceivedAck sa now h f wpn t = (None, map pk_PacketNumber (filter acked (sp_packetHistory h)), h')"
  proof -
    have lioa: "largestInOrderAcked (h\<lparr>sp_largestReceivedPacketWithAck := wpn\<rparr>) = largestInOrderAcked h"
      "skippedPacketsAcked h0 f = skippedPacketsAcked h f"
      by (simp_all add: largestInOrderAcked_def skippedPacketsAcked_def h0_def split: list.split)
    have det: "determineNewlyAckedPackets h1 f = Inr (filter acked (sp_packetHistory h1))"
      using determine_accepted[OF acc inv1] by (simp add: acked_def)
    have g: "\<not> ack_LargestAcked f > sp_lastSentPacketNumber h" "\<not> wpn \<le> sp_largestReceivedPacketWithAck h"
      "\<not> ack_LargestAcked f \<le> largestInOrderAcked (h\<lparr>sp_largestReceivedPacketWithAck := wpn\<rparr>)"
      "\<not> skippedPacketsAcked h0 f" using guards lioa by simp_all
    have h2': "ackPackets sa now (filter acked (sp_packetHistory h)) h1 = h2" unfolding h2_def h1(2) ..
    show ?thesis using g
      by (simp add: ReceivedAck_def Let_def h0_def[symmetric] m_def[symmetric] h1_def[symmetric] case_prod_beta det
        h1(2) h2' h3_def[symmetric] h4_def[symmetric] h'_def[symmetric])
  qed
  moreover have "sp_packetHistory h' = filter (\<lambda>p. \<not> acked p \<and> \<not> lost p) (sp_packetHistory h)"
    "sp_retransmissionQueue h' = sp_retransmissionQueue h @ filter (\<lambda>p. \<not> acked p \<and> lost p) (sp_packetHistory h)"
    using D(1,2) by (simp_all add: h'_def h4_def h2(3,4))
  moreover have "shrinks h h'"
    using moves_trans[OF D(3) h'] h1(1) by (auto simp: moves_def intro: shrinks_trans[OF shrinks_trans[OF _ h2(1)]])
  moreover have "kept h = mset (filter acked (sp_packetHistory h)) + kept h'"
    using h1(1) h2(2) D(3) h' unfolding moves_def h1(2) by simp
  ultimately show thesis using that lost_def by blast
qed


text \<open>The other results: nothing is acknowledged and every packet is kept.\<close>

lemma ReceivedAck_no_effect:
  fixes h :: "'c sentPacketHandler" and f :: AckFrame
  assumes "ack_LargestAcked f > sp_lastSentPacketNumber h \<or> wpn \<le> sp_largestReceivedPacketWithAck h \<or>
    ack_LargestAcked f \<le> largestInOrderAcked h \<or> skippedPacketsAcked h f"
  obtains h' where "moves h h'"
    "sp_packetHistory h' = sp_packetHistory h" "sp_retransmissionQueue h' = sp_retransmissionQueue h"
    "ReceivedAck sa now h f wpn t =
      (if ack_LargestAcked f > sp_lastSentPacketNumber h then Some errAckForUnsentPacket
       else if wpn \<le> sp_largestReceivedPacketWithAck h then Some ErrDuplicateOrOutOfOrderAck
       else if ack_LargestAcked f \<le> largestInOrderAcked h then None else Some ErrAckForSkippedPacket, [], h')"
proof -
  have lioa: "largestInOrderAcked (h\<lparr>sp_largestReceivedPacketWithAck := wpn\<rparr>) = largestInOrderAcked h"
    "skippedPacketsAcked (h\<lparr>sp_largestReceivedPacketWithAck := wpn, sp_LargestAcked := l\<rparr>) f = skippedPacketsAcked h f" for l
    by (simp_all add: largestInOrderAcked_def skippedPacketsAcked_def split: list.split)
  define h' where "h' = (if ack_LargestAcked f > sp_lastSentPacketNumber h \<or> wpn \<le> sp_largestReceivedPacketWithAck h then h
    else if ack_LargestAcked f \<le> largestInOrderAcked h then h\<lparr>sp_largestReceivedPacketWithAck := wpn\<rparr>
    else h\<lparr>sp_largestReceivedPacketWithAck := wpn, sp_LargestAcked := ack_LargestAcked f\<rparr>)"
  have s: "sp_packetHistory h' = sp_packetHistory h" "sp_retransmissionQueue h' = sp_retransmissionQueue h"
    "sp_lastSentPacketNumber h' = sp_lastSentPacketNumber h" "sp_bytesInFlight h' = sp_bytesInFlight h"
    "sp_skippedPackets h' = sp_skippedPackets h"
    by (simp_all add: h'_def)
  have "moves h h'" by (rule moves_same) (simp_all add: s)
  then show thesis
  proof (rule that[OF _ s(1,2)])
    show "ReceivedAck sa now h f wpn t =
      (if ack_LargestAcked f > sp_lastSentPacketNumber h then Some errAckForUnsentPacket
       else if wpn \<le> sp_largestReceivedPacketWithAck h then Some ErrDuplicateOrOutOfOrderAck
       else if ack_LargestAcked f \<le> largestInOrderAcked h then None else Some ErrAckForSkippedPacket, [], h')"
      using assms by (auto simp: ReceivedAck_def Let_def lioa h'_def)
  qed
qed

lemma acked_by_number:
  "filter (\<lambda>p. pk_PacketNumber p \<in> set (filter A (map pk_PacketNumber ps))) ps = filter (\<lambda>p. A (pk_PacketNumber p)) ps"
  by (rule filter_cong) auto

lemma ClosePathFrame_accepted:
  assumes "ParseClosePathFrame b v = Inr (f, r)"
  shows "blocks_accepted (cp_LargestAcked f) (cp_LowestAcked f) (cp_AckRanges f)"
proof -
  from assms obtain t b1 b2 nb lo rs la where
    la: "ReadUintN (GetByteOrder v) b1 (number_len (drop_bit 2 (t AND 0x0C))) = Inr (la, b2)"
    and bl: "parse_ack_blocks v (t AND 0x10 = 0x10) nb (number_len (t AND 3)) la b2 = Inr ((lo, rs), r)"
    and f: "cp_LargestAcked f = la" "cp_LowestAcked f = lo" "cp_AckRanges f = rs"
    by (rule ParseClosePathFrame_InrE)
  have len: "unat (number_len (drop_bit 2 (t AND 0x0C))) \<le> 6" by (rule number_len_le)
  then have "unat la < 2 ^ (8 * unat (number_len (drop_bit 2 (t AND 0x0C))))"
    by (intro bo.readN_bound [OF la]) simp
  also have "\<dots> \<le> 2 ^ 48" using len by (intro power_increasing) simp_all
  finally show ?thesis using parse_ack_blocks_accepted [OF bl number_len_le(1)] f by simp
qed

text \<open>A close path frame acknowledges packets and gives up on the ones below the largest acknowledged number.\<close>

lemma ReceivedClosePath_effect:
  assumes inv: "sent_inv h" and acc: "blocks_accepted (cp_LargestAcked f) (cp_LowestAcked f) (cp_AckRanges f)"
    and res: "ReceivedClosePath sa now h f wpn t = (e, nums, h')"
  shows "shrinks h h'" "kept h = mset (filter (\<lambda>p. pk_PacketNumber p \<in> set nums) (sp_packetHistory h)) + kept h'"
    "e = None \<Longrightarrow> nums = filter (cp_AcksPacket f) (map pk_PacketNumber (sp_packetHistory h))"
    "e \<noteq> None \<Longrightarrow> nums = []"
proof -
  let ?a = "\<lambda>p. cp_AcksPacket f (pk_PacketNumber p)"
  define h1 where "h1 = h\<lparr>sp_largestReceivedPacketWithAck := wpn\<rparr>"
  have h1: "moves h h1" "sp_packetHistory h1 = sp_packetHistory h" unfolding h1_def by (rule moves_same; simp) simp
  have inv1: "sent_inv h1" using moves_inv[OF h1(1) inv] .
  note d1 = inv_distinct[OF inv1]
  define h2 where "h2 = ackPackets sa now (filter ?a (sp_packetHistory h)) h1"
  define h3 where "h3 = garbageCollectSkippedPackets (SetInflightAsLost sa h2)"
  have h2: "shrinks h1 h2" "kept h1 = mset (filter ?a (sp_packetHistory h)) + kept h2"
    unfolding h2_def using ackPackets_shrinks[OF d1] ackPackets_kept[OF d1] h1(2) by simp_all
  have h3: "moves h2 h3" unfolding h3_def
    using moves_trans[OF SetInflightAsLost_moves[OF shrinks_inv[OF h2(1) inv1]] garbageCollect_moves] .
  have det: "determineNewlyAckedPacketsClosePath h1 f = Inr (filter ?a (sp_packetHistory h))"
    using determine_close_accepted[OF acc inv1] h1(2) by simp
  have "(e \<noteq> None \<and> nums = [] \<and> (h' = h \<or> h' = h1)) \<or>
      (e = None \<and> nums = filter (cp_AcksPacket f) (map pk_PacketNumber (sp_packetHistory h)) \<and> h' = h3)"
    using res unfolding ReceivedClosePath_def Let_def h1_def[symmetric] det h2_def[symmetric] h3_def[symmetric]
    by (auto simp: filter_map comp_def h2_def h3_def split: if_splits)
  moreover have "shrinks h h3" using h1(1) h2(1) h3 by (auto simp: moves_def intro: shrinks_trans[OF shrinks_trans])
  moreover have "kept h = mset (filter ?a (sp_packetHistory h)) + kept h3" using h1(1) h2(2) h3 by (simp add: moves_def)
  ultimately show "shrinks h h'" "e = None \<Longrightarrow> nums = filter (cp_AcksPacket f) (map pk_PacketNumber (sp_packetHistory h))"
    "e \<noteq> None \<Longrightarrow> nums = []"
    "kept h = mset (filter (\<lambda>p. pk_PacketNumber p \<in> set nums) (sp_packetHistory h)) + kept h'"
    using h1(1) shrinks_refl by (auto simp only: moves_def acked_by_number) simp_all
qed

section \<open>Runs of the handler\<close>

text \<open>The packets that \<^verbatim>\<open>RemovePacketByNumber\<close> removes: the one in flight, and one in the queue if no bytes were in flight.\<close>

definition removed_packets :: "'c sentPacketHandler \<Rightarrow> PacketNumber \<Rightarrow> Packet multiset" where
  "removed_packets h num =
     mset (filter (\<lambda>p. pk_PacketNumber p = num) (sp_packetHistory h)) +
     (if flight_bytes (filter (\<lambda>p. pk_PacketNumber p = num) (sp_packetHistory h)) > 0 then {#}
      else mset (take 1 (filter (\<lambda>p. pk_PacketNumber p = num) (sp_retransmissionQueue h))))"

text \<open>\<open>sent_run sa c tracked settled h\<close>: the handler, created with the congestion controller \<open>c\<close>, reaches the state \<open>h\<close> when the packets \<open>tracked\<close> have been sent for
  reliable delivery or queued as duplicates, and the packets \<open>settled\<close> have been acknowledged, handed out for a
  retransmission or removed.\<close>

inductive sent_run :: "'c SendAlgorithm \<Rightarrow> 'c \<Rightarrow> Packet multiset \<Rightarrow> Packet multiset \<Rightarrow> 'c sentPacketHandler \<Rightarrow> bool" for sa c where
  run_new: "sent_run sa c {#} {#} (NewSentPacketHandler rttStats c)"
| run_sent: "sent_run sa c T S h \<Longrightarrow> SentPacket sa now h p = (e, p', h') \<Longrightarrow>
    sent_run sa c (if e = None \<and> pk_Frames p' \<noteq> [] then add_mset p' T else T) S h'"
| run_ack: "sent_run sa c T S h \<Longrightarrow> ParseAckFrame b v = Inr (f, r) \<Longrightarrow> ReceivedAck sa now h f wpn t = (e, nums, h') \<Longrightarrow>
    sent_run sa c T (S + mset (filter (\<lambda>p. pk_PacketNumber p \<in> set nums) (sp_packetHistory h))) h'"
| run_close: "sent_run sa c T S h \<Longrightarrow> ParseClosePathFrame b v = Inr (g, r) \<Longrightarrow>
    ReceivedClosePath sa now h g wpn t = (e, nums, h') \<Longrightarrow>
    sent_run sa c T (S + mset (filter (\<lambda>p. pk_PacketNumber p \<in> set nums) (sp_packetHistory h))) h'"
| run_lost: "sent_run sa c T S h \<Longrightarrow> sent_run sa c T S (SetInflightAsLost sa h)"
| run_alarm: "sent_run sa c T S h \<Longrightarrow> sent_run sa c T S (OnAlarm sa callback now h)"
| run_dequeue: "sent_run sa c T S h \<Longrightarrow> DequeuePacketForRetransmission h = (Some p, h') \<Longrightarrow> sent_run sa c T (add_mset p S) h'"
| run_duplicate: "sent_run sa c T S h \<Longrightarrow> sent_run sa c (add_mset p T) S (DuplicatePacket h p)"
| run_remove: "sent_run sa c T S h \<Longrightarrow> RemovePacketByNumber h num = (found, h') \<Longrightarrow>
    sent_run sa c T (S + removed_packets h num) h'"
| run_stop_waiting: "sent_run sa c T S h \<Longrightarrow> sp_GetStopWaitingFrame h force = (swf, h') \<Longrightarrow> sent_run sa c T S h'"

lemma removeQueued_mset:
  "mset ps = mset (take 1 (filter (\<lambda>p. pk_PacketNumber p = num) ps)) + mset (snd (removeQueued num ps))"
proof (induction ps)
  case (Cons p ps)
  then show ?case by (auto simp: case_prod_beta)
qed simp

lemma RemovePacketByNumber_effect:
  assumes "sent_inv h" "RemovePacketByNumber h num = (found, h')"
  shows "sent_inv h'" "kept h = removed_packets h num + kept h'"
proof -
  let ?P = "\<lambda>p. pk_PacketNumber p = num"
  have r: "removeByNumber num (sp_packetHistory h) =
      (flight_bytes (filter ?P (sp_packetHistory h)), filter (\<lambda>p. \<not> ?P p) (sp_packetHistory h))"
    by (rule removeByNumber_effect[OF inv_distinct[OF assms(1)]])
  have h': "sp_packetHistory h' = filter (\<lambda>p. \<not> ?P p) (sp_packetHistory h)"
    "sp_bytesInFlight h' = sp_bytesInFlight h - flight_bytes (filter ?P (sp_packetHistory h))"
    "sp_lastSentPacketNumber h' = sp_lastSentPacketNumber h" "sp_skippedPackets h' = sp_skippedPackets h"
    "sp_retransmissionQueue h' = (if flight_bytes (filter ?P (sp_packetHistory h)) > 0 then sp_retransmissionQueue h
       else snd (removeQueued num (sp_retransmissionQueue h)))"
    using assms(2) unfolding RemovePacketByNumber_def r Let_def by (auto simp: case_prod_beta split: if_splits)
  have "shrinks h h'"
    unfolding shrinks_def h' using same_skipped flight_bytes_filter[of "\<lambda>p. \<not> ?P p"] by auto
  then show "sent_inv h'" using shrinks_inv assms(1) by blast
  have "mset (sp_packetHistory h) = mset (filter ?P (sp_packetHistory h)) + mset (sp_packetHistory h')"
    unfolding h'(1) using mset_filter_split[of ?P "sp_packetHistory h"] by (simp add: ac_simps)
  then show "kept h = removed_packets h num + kept h'"
    unfolding kept_def removed_packets_def h'(5)
    using removeQueued_mset[of "sp_retransmissionQueue h" num] by (simp add: ac_simps)
qed

lemma ReceivedAck_step:
  assumes inv: "sent_inv h" and p: "ParseAckFrame b v = Inr (f, r)" and res: "ReceivedAck sa now h f wpn t = (e, nums, h')"
  shows "sent_inv h'" "kept h = mset (filter (\<lambda>p. pk_PacketNumber p \<in> set nums) (sp_packetHistory h)) + kept h'"
proof -
  have "sent_inv h' \<and> kept h = mset (filter (\<lambda>p. pk_PacketNumber p \<in> set nums) (sp_packetHistory h)) + kept h'"
  proof (cases "ack_LargestAcked f > sp_lastSentPacketNumber h \<or> wpn \<le> sp_largestReceivedPacketWithAck h \<or>
      ack_LargestAcked f \<le> largestInOrderAcked h \<or> skippedPacketsAcked h f")
    case True
    then have "moves h h' \<and> nums = []"
    proof (rule ReceivedAck_no_effect[where sa = sa and now = now and t = t])
      fix h1 assume "moves h h1" "ReceivedAck sa now h f wpn t =
        (if ack_LargestAcked f > sp_lastSentPacketNumber h then Some errAckForUnsentPacket
         else if wpn \<le> sp_largestReceivedPacketWithAck h then Some ErrDuplicateOrOutOfOrderAck
         else if ack_LargestAcked f \<le> largestInOrderAcked h then None else Some ErrAckForSkippedPacket, [], h1)"
      then show ?thesis using res by simp
    qed
    then show ?thesis using moves_inv[OF _ inv] by (simp add: moves_def)
  next
    case False
    let ?a = "\<lambda>p. ack_AcksPacket f (pk_PacketNumber p)"
    from False have g: "ack_LargestAcked f \<le> sp_lastSentPacketNumber h" "sp_largestReceivedPacketWithAck h < wpn"
      "largestInOrderAcked h < ack_LargestAcked f" "\<not> skippedPacketsAcked h f" by auto
    have "shrinks h h' \<and> kept h = mset (filter ?a (sp_packetHistory h)) + kept h' \<and>
        nums = map pk_PacketNumber (filter ?a (sp_packetHistory h))"
    proof (rule ReceivedAck_effect[OF inv AckFrame_accepted(3)[OF p] g, of sa now t])
      fix h1 assume "ReceivedAck sa now h f wpn t = (None, map pk_PacketNumber (filter ?a (sp_packetHistory h)), h1)"
        "shrinks h h1" "kept h = mset (filter ?a (sp_packetHistory h)) + kept h1"
      then show ?thesis using res by simp
    qed
    then have h1: "shrinks h h'" "kept h = mset (filter ?a (sp_packetHistory h)) + kept h'"
      "nums = map pk_PacketNumber (filter ?a (sp_packetHistory h))" by blast+
    have "nums = filter (ack_AcksPacket f) (map pk_PacketNumber (sp_packetHistory h))" unfolding h1(3) by (simp add: filter_map comp_def)
    then have "filter (\<lambda>p. pk_PacketNumber p \<in> set nums) (sp_packetHistory h) = filter ?a (sp_packetHistory h)"
      by (simp only: acked_by_number)
    then show ?thesis using h1(1,2) shrinks_inv[OF h1(1) inv] by simp
  qed
  then show "sent_inv h'" "kept h = mset (filter (\<lambda>p. pk_PacketNumber p \<in> set nums) (sp_packetHistory h)) + kept h'" by blast+
qed

lemma sent_run_invariant: "sent_run sa c0 T S h \<Longrightarrow> sent_inv h \<and> T = S + kept h"
proof (induction rule: sent_run.induct)
  case (run_new r)
  show ?case by (simp add: sent_inv_def NewSentPacketHandler_def kept_def)
next
  case (run_sent T S h now p e p' h')
  show ?case
  proof (cases e)
    case None
    note s = run_sent.hyps(2)[unfolded None]
    show ?thesis using run_sent.IH SentPacket_inv[OF s] SentPacket_fields(7,8)[OF s] None by (simp add: kept_def)
  next
    case (Some x)
    show ?thesis using run_sent.IH SentPacket_error[OF run_sent.hyps(2)[unfolded Some]] Some by simp
  qed
next
  case (run_ack T S h b v f r now wpn t e nums h')
  note A = ReceivedAck_step[OF conjunct1[OF run_ack.IH] run_ack.hyps(2,3)]
  show ?case using run_ack.IH A by (simp add: add.assoc)
next
  case (run_close T S h b v g r now wpn t e nums h')
  note C = ReceivedClosePath_effect[OF conjunct1[OF run_close.IH] ClosePathFrame_accepted[OF run_close.hyps(2)] run_close.hyps(3)]
  show ?case using run_close.IH C(2) shrinks_inv[OF C(1)] by (simp add: add.assoc)
next
  case (run_lost T S h)
  then have "moves h (SetInflightAsLost sa h)" using SetInflightAsLost_moves by blast
  then show ?case using run_lost.IH moves_inv[of h "SetInflightAsLost sa h"] by (simp add: moves_def)
next
  case (run_alarm T S h callback now)
  then have "moves h (OnAlarm sa callback now h)" using OnAlarm_moves by blast
  then show ?case using run_alarm.IH moves_inv[of h "OnAlarm sa callback now h"] by (simp add: moves_def)
next
  case (run_dequeue T S h p h')
  then show ?case
    by (auto simp: DequeuePacketForRetransmission_def kept_def sent_inv_def split: list.splits)
next
  case (run_duplicate T S h p)
  then show ?case by (simp add: DuplicatePacket_def kept_def sent_inv_def)
next
  case (run_remove T S h num found h')
  note R = RemovePacketByNumber_effect[OF conjunct1[OF run_remove.IH] run_remove.hyps(2)]
  show ?case using run_remove.IH R by (simp add: add.assoc)
next
  case (run_stop_waiting T S h force swf h')
  then show ?case by (auto simp: sp_GetStopWaitingFrame_def Let_def kept_def sent_inv_def split: prod.splits)
qed

section \<open>The alarm\<close>

lemma retransmitOldestTwoPackets_queue:
  "sp_retransmissionQueue (retransmitOldestTwoPackets sa h) = sp_retransmissionQueue h @ take 2 (sp_packetHistory h)"
  by (auto simp: retransmitOldestTwoPackets_def retransmitOldestPacket_def Let_def queueRTO_queue split: list.splits)

lemma outstanding_history: "hasOutstandingRetransmittablePacket h \<Longrightarrow> sp_packetHistory h \<noteq> []"
  by (auto simp: hasOutstandingRetransmittablePacket_def)

lemma OnAlarm_queue:
  assumes "sent_inv h" "hasOutstandingRetransmittablePacket h" "sp_lossTime h = zero_time"
  shows "sp_retransmissionQueue (OnAlarm sa cb now h) = sp_retransmissionQueue h @
    (if sp_tlpCount h < maxTailLossProbes then [last (sp_packetHistory h)]
     else if (case cb of None \<Rightarrow> False | Some callback \<Rightarrow> callback (sp_lastSentTime h)) then sp_packetHistory h
     else take 2 (sp_packetHistory h))"
proof -
  have "sp_retransmissionQueue (retransmitAllPackets sa h) = sp_retransmissionQueue h @ sp_packetHistory h"
    using queueAllRTO_effect[OF assms(1)] by (simp add: retransmitAllPackets_def Let_def)
  moreover have "sp_retransmissionQueue (retransmitTLP h) = sp_retransmissionQueue h @ [last (sp_packetHistory h)]"
    using outstanding_history[OF assms(2)] by (simp add: retransmitTLP_def queuePacketForRetransmission_def)
  ultimately show ?thesis
    using assms(2,3) by (simp add: OnAlarm_def Let_def retransmitOldestTwoPackets_queue split: option.split)
qed

lemma kept_size: "size (kept h) = length (sp_packetHistory h) + length (sp_retransmissionQueue h)"
  by (simp add: kept_def)

text \<open>The backoff of the retransmission timeout.\<close>

definition base_rto :: "'c SendAlgorithm \<Rightarrow> 'c sentPacketHandler \<Rightarrow> duration" where
  "base_rto sa h = (let d = RetransmissionDelay sa (sp_rttStats h) (sp_congestion h)
     in max (if d = 0 then defaultRTOTimeout else d) minRTOTimeout)"

lemma computeRTO_base:
  "computeRTOTimeout sa h = min (i64 (base_rto sa h * 2 ^ unat (sp_rtoCount h))) maxRTOTimeout"
  by (simp add: computeRTOTimeout_def base_rto_def Let_def MaxDuration_def MinDuration_def max_def min_def)

lemma i64_shift_out:
  assumes "64 \<le> n"
  shows "i64 (x * 2 ^ n) = 0"
proof -
  have "(2::int) ^ n = 18446744073709551616 * 2 ^ (n - 64)"
    using assms power_add[of "2::int" 64 "n - 64"] by simp
  then have "x * 2 ^ n = 18446744073709551616 * (2 ^ (n - 64) * x)" by simp
  then show ?thesis unfolding i64_def by (simp only: mod_mult_self4) simp
qed

section \<open>Properties\<close>

text \<open>A congestion controller with a window of 32 packets of 1350 bytes, for examples.\<close>

definition fixed_window :: "unit SendAlgorithm" where
  "fixed_window = \<lparr>OnPacketSent = \<lambda>_ _ _ _ _ c. c, GetCongestionWindow = \<lambda>_. 43200, MaybeExitSlowStart = \<lambda>_ c. c,
     OnPacketAcked = \<lambda>_ _ _ _ _ c. c, OnPacketLost = \<lambda>_ _ _ c. c, OnRetransmissionTimeout = \<lambda>_ c. c,
     RetransmissionDelay = \<lambda>_ _. 0, SmoothedRTT = \<lambda>r _. rtt_smoothedRTT r\<rparr>"

definition ex_packet :: "PacketNumber \<Rightarrow> Packet" where
  "ex_packet n = \<lparr>pk_PacketNumber = n, pk_Frames = [F_Blocked \<lparr>bl_StreamID = 3\<rparr>], pk_Length = 100, pk_EncryptionLevel = EncryptionForwardSecure,
     pk_SendTime = 1000 * Millisecond\<rparr>"


definition ex_sent :: "unit sentPacketHandler" where
  "ex_sent = snd (snd (SentPacket fixed_window (1000 * Millisecond)
     (snd (snd (SentPacket fixed_window (1000 * Millisecond) (NewSentPacketHandler NewRTTStats ()) (ex_packet 1))))
     (ex_packet 3)))"

lemma ex_sent_steps:
  "SentPacket fixed_window (1000 * Millisecond) (NewSentPacketHandler NewRTTStats ()) (ex_packet 1) =
     (None, ex_packet 1, snd (snd (SentPacket fixed_window (1000 * Millisecond) (NewSentPacketHandler NewRTTStats ()) (ex_packet 1))))"
  "SentPacket fixed_window (1000 * Millisecond)
     (snd (snd (SentPacket fixed_window (1000 * Millisecond) (NewSentPacketHandler NewRTTStats ()) (ex_packet 1)))) (ex_packet 3) =
     (None, ex_packet 3, ex_sent)"
  by code_simp+

lemma ex_sent_run: "sent_run fixed_window () {#ex_packet 3, ex_packet 1#} {#} ex_sent"
  using run_sent[OF run_sent[OF run_new ex_sent_steps(1)] ex_sent_steps(2)] by (simp add: ex_packet_def)

lemma ex_ack: "ParseAckFrame [0x40, 1, 0, 0, 1, 0] 39 = Inr (\<lparr>ack_PathID = 0, ack_LargestAcked = 1, ack_LowestAcked = 1,
    ack_AckRanges = [], ack_PacketReceivedTime = 0, ack_DelayTime = 0\<rparr>, [])"
  by code_simp

text \<open>C2. In every run of the sending side no packet is forgotten: a packet that was sent for reliable delivery is in
  flight, in the retransmission queue, or was acknowledged, handed out for a retransmission or removed, each as often as it
  was sent. The packets in flight are in the order of their numbers, the bytes in flight are the sum of their lengths, and
  the handler tracks at most ten skipped packet numbers, none of them a packet in flight.\<close>

theorem no_packet_is_forgotten:
  assumes "sent_run sa c0 tracked settled h"
  shows "tracked = settled + mset (sp_packetHistory h) + mset (sp_retransmissionQueue h) \<and>
    sp_bytesInFlight h = sum_list (map pk_Length (sp_packetHistory h)) \<and>
    sorted_wrt (\<lambda>p q. pk_PacketNumber p < pk_PacketNumber q) (sp_packetHistory h) \<and>
    length (sp_skippedPackets h) \<le> MaxTrackedSkippedPackets \<and>
    (\<forall>p \<in> set (sp_packetHistory h).
       pk_PacketNumber p \<le> sp_lastSentPacketNumber h \<and> pk_PacketNumber p \<notin> set (sp_skippedPackets h))"
  using sent_run_invariant[OF assms] by (simp add: sent_inv_def kept_def flight_bytes_def add.assoc)

lemma no_packet_is_forgotten_witness:
  "sent_run fixed_window () {#ex_packet 3, ex_packet 1#} {#} ex_sent \<and>
   {#ex_packet 3, ex_packet 1#} = mset (sp_packetHistory ex_sent) + mset (sp_retransmissionQueue ex_sent)"
  using no_packet_is_forgotten[OF ex_sent_run] ex_sent_run by simp

text \<open>C4. An ACK frame from the wire that passes the checks of the handler acknowledges exactly the packets in flight that it
  covers: the search with one pass over the ranges finds them all and cannot fail. Of the others, exactly those that
  are not larger than the largest acknowledged number and older than 9/8 of the round-trip time are queued for a
  retransmission, in their order, and the rest stays in flight.\<close>

theorem ack_acknowledges_and_detects_losses:
  assumes "sent_run sa c0 tracked settled h" and "ParseAckFrame b v = Inr (f, r)"
    and "ack_LargestAcked f \<le> sp_lastSentPacketNumber h" "sp_largestReceivedPacketWithAck h < wpn"
      "largestInOrderAcked h < ack_LargestAcked f" "\<not> skippedPacketsAcked h f"
  shows "\<exists>h'. ReceivedAck sa now h f wpn t =
      (None, filter (ack_AcksPacket f) (map pk_PacketNumber (sp_packetHistory h)), h') \<and>
    (let lost = \<lambda>p. pk_PacketNumber p \<le> ack_LargestAcked f \<and>
           time_sub now (pk_SendTime p) > delayUntilLost (sp_rttStats h');
         unacked = filter (\<lambda>p. \<not> ack_AcksPacket f (pk_PacketNumber p)) (sp_packetHistory h)
     in sp_packetHistory h' = filter (\<lambda>p. \<not> lost p) unacked \<and>
        sp_retransmissionQueue h' = sp_retransmissionQueue h @ filter lost unacked)"
proof -
  have inv: "sent_inv h" using sent_run_invariant[OF assms(1)] ..
  show ?thesis
  proof (rule ReceivedAck_effect[OF inv AckFrame_accepted(3)[OF assms(2)] assms(3-6), of sa now t])
    fix h' lost
    assume "ReceivedAck sa now h f wpn t =
        (None, map pk_PacketNumber (filter (\<lambda>p. ack_AcksPacket f (pk_PacketNumber p)) (sp_packetHistory h)), h')"
      "lost = is_lost now (delayUntilLost (sp_rttStats h')) (ack_LargestAcked f)"
      "sp_packetHistory h' = filter (\<lambda>p. \<not> ack_AcksPacket f (pk_PacketNumber p) \<and> \<not> lost p) (sp_packetHistory h)"
      "sp_retransmissionQueue h' = sp_retransmissionQueue h @
         filter (\<lambda>p. \<not> ack_AcksPacket f (pk_PacketNumber p) \<and> lost p) (sp_packetHistory h)"
    then show ?thesis
      by (intro exI[of _ h']) (simp add: filter_map comp_def is_lost_def)
  qed
qed


lemma ex_sent_value:
  "ex_sent = \<lparr>sp_lastSentPacketNumber = 3, sp_skippedPackets = [2], sp_numNonRetransmittablePackets = 0, sp_LargestAcked = 0,
      sp_largestReceivedPacketWithAck = 0, sp_packetHistory = [ex_packet 1, ex_packet 3],
      sp_stopWaitingManager = \<lparr>sm_largestLeastUnackedSent = 0, sm_nextLeastUnacked = 0, sm_lastStopWaitingFrame = None\<rparr>,
      sp_retransmissionQueue = [], sp_bytesInFlight = 200, sp_congestion = (), sp_rttStats = NewRTTStats,
      sp_rtoCount = 0, sp_tlpCount = 0, sp_lossTime = 0, sp_lastSentTime = 1000 * Millisecond, sp_alarm = 1500 * Millisecond,
      sp_packets = 2, sp_retransmissions = 0, sp_losses = 0, sp_sentStreamFrameBytes = 0\<rparr>"
  by code_simp

lemma ex_sent_history: "sp_packetHistory ex_sent = [ex_packet 1, ex_packet 3]" "sp_skippedPackets ex_sent = [2]"
  "sp_lastSentPacketNumber ex_sent = 3" "sp_largestReceivedPacketWithAck ex_sent = 0" "largestInOrderAcked ex_sent = 0"
  "sp_retransmissionQueue ex_sent = []" "hasOutstandingRetransmittablePacket ex_sent" "sp_lossTime ex_sent = 0"
  "sp_tlpCount ex_sent = 0"
  by (simp_all add: ex_sent_value largestInOrderAcked_def hasOutstandingRetransmittablePacket_def IsRetransmittable_def
    ex_packet_def)

lemma ack_acknowledges_and_detects_losses_witness:
  "\<exists>f h'. ParseAckFrame [0x40, 1, 0, 0, 1, 0] 39 = Inr (f, []) \<and>
     ReceivedAck fixed_window (1100 * Millisecond) ex_sent f 1 (1100 * Millisecond) = (None, [1], h') \<and>
     sp_packetHistory h' = [ex_packet 3]"
proof -
  let ?f = "\<lparr>ack_PathID = 0, ack_LargestAcked = 1, ack_LowestAcked = 1, ack_AckRanges = [], ack_PacketReceivedTime = 0,
    ack_DelayTime = 0\<rparr>"
  have g: "ack_LargestAcked ?f \<le> sp_lastSentPacketNumber ex_sent" "sp_largestReceivedPacketWithAck ex_sent < 1"
    "largestInOrderAcked ex_sent < ack_LargestAcked ?f" "\<not> skippedPacketsAcked ex_sent ?f"
    by (simp_all add: ex_sent_history skippedPacketsAcked_def ack_AcksPacket_def acks_packet_def)
  obtain h' where h': "ReceivedAck fixed_window (1100 * Millisecond) ex_sent ?f 1 (1100 * Millisecond) =
      (None, filter (ack_AcksPacket ?f) (map pk_PacketNumber (sp_packetHistory ex_sent)), h')"
    "sp_packetHistory h' = filter (\<lambda>p. \<not> (pk_PacketNumber p \<le> ack_LargestAcked ?f \<and>
        time_sub (1100 * Millisecond) (pk_SendTime p) > delayUntilLost (sp_rttStats h')))
      (filter (\<lambda>p. \<not> ack_AcksPacket ?f (pk_PacketNumber p)) (sp_packetHistory ex_sent))"
    using ack_acknowledges_and_detects_losses[OF ex_sent_run ex_ack g, of "1100 * Millisecond" "1100 * Millisecond"]
    unfolding Let_def by blast
  have "map pk_PacketNumber (sp_packetHistory ex_sent) = [1, 3]" "pk_PacketNumber (ex_packet n) = n" for n
    by (simp_all add: ex_sent_history ex_packet_def)
  moreover have "ack_AcksPacket ?f 1" "\<not> ack_AcksPacket ?f 3" "\<not> (3::u64) \<le> 1"
    by (simp_all add: ack_AcksPacket_def acks_packet_def word_le_nat_alt)
  ultimately show ?thesis using h' ex_ack by (simp add: ex_sent_history(1))
qed

text \<open>C14. The only errors for an ACK frame from the wire are the three of its checks: it acknowledges a packet number that was
  not sent, came in a packet that is not newer than the last ACK, or acknowledges a packet number that was
  skipped. Then no packet changes; the internal error of the search cannot occur.\<close>

theorem ack_errors:
  assumes "sent_run sa c0 tracked settled h" and "ParseAckFrame b v = Inr (f, r)"
    and "ReceivedAck sa now h f wpn t = (Some e, nums, h')"
  shows "nums = [] \<and> sp_packetHistory h' = sp_packetHistory h \<and> sp_retransmissionQueue h' = sp_retransmissionQueue h \<and>
    (e = errAckForUnsentPacket \<and> ack_LargestAcked f > sp_lastSentPacketNumber h \<or>
     e = ErrDuplicateOrOutOfOrderAck \<and> wpn \<le> sp_largestReceivedPacketWithAck h \<or>
     e = ErrAckForSkippedPacket \<and> (\<exists>n \<in> set (sp_skippedPackets h). ack_AcksPacket f n))"
proof -
  have inv: "sent_inv h" using sent_run_invariant[OF assms(1)] ..
  have x: "ack_LargestAcked f > sp_lastSentPacketNumber h \<or> wpn \<le> sp_largestReceivedPacketWithAck h \<or>
    ack_LargestAcked f \<le> largestInOrderAcked h \<or> skippedPacketsAcked h f"
  proof (rule ccontr)
    assume "\<not> ?thesis"
    then have g: "ack_LargestAcked f \<le> sp_lastSentPacketNumber h" "sp_largestReceivedPacketWithAck h < wpn"
      "largestInOrderAcked h < ack_LargestAcked f" "\<not> skippedPacketsAcked h f" by auto
    show False
      by (rule ReceivedAck_effect[OF inv AckFrame_accepted(3)[OF assms(2)] g, of sa now t]) (simp add: assms(3))
  qed
  then show ?thesis
  proof (rule ReceivedAck_no_effect[where sa = sa and now = now and t = t])
    fix h1 assume "sp_packetHistory h1 = sp_packetHistory h" "sp_retransmissionQueue h1 = sp_retransmissionQueue h"
      "ReceivedAck sa now h f wpn t =
        (if ack_LargestAcked f > sp_lastSentPacketNumber h then Some errAckForUnsentPacket
         else if wpn \<le> sp_largestReceivedPacketWithAck h then Some ErrDuplicateOrOutOfOrderAck
         else if ack_LargestAcked f \<le> largestInOrderAcked h then None else Some ErrAckForSkippedPacket, [], h1)"
    then show ?thesis using assms(3) x
      by (auto simp: skippedPacketsAcked_def list_ex_iff split: if_splits)
  qed
qed

lemma ack_errors_witness:
  "\<exists>f h'. ParseAckFrame [0x40, 2, 0, 0, 1, 0] 39 = Inr (f, []) \<and>
     ReceivedAck fixed_window 0 ex_sent f 1 0 = (Some ErrAckForSkippedPacket, [], h') \<and>
     sp_packetHistory h' = [ex_packet 1, ex_packet 3]"
proof -
  let ?f = "\<lparr>ack_PathID = 0, ack_LargestAcked = 2, ack_LowestAcked = 2, ack_AckRanges = [], ack_PacketReceivedTime = 0,
    ack_DelayTime = 0\<rparr>"
  have p: "ParseAckFrame [0x40, 2, 0, 0, 1, 0] 39 = Inr (?f, [])" by code_simp
  obtain h' where r: "ReceivedAck fixed_window 0 ex_sent ?f 1 0 = (Some ErrAckForSkippedPacket, [], h')"
  proof -
    have "fst (ReceivedAck fixed_window 0 ex_sent ?f 1 0) = Some ErrAckForSkippedPacket \<and>
      fst (snd (ReceivedAck fixed_window 0 ex_sent ?f 1 0)) = []" unfolding ex_sent_value by code_simp
    then show thesis using that by (cases "ReceivedAck fixed_window 0 ex_sent ?f 1 0") auto
  qed
  show ?thesis using ack_errors[OF ex_sent_run p r] p r by (simp add: ex_sent_history)
qed

text \<open>C8. When the alarm fires with a packet outstanding and no loss timer runs, the handler makes progress: it queues the
  newest packet as a tail loss probe, twice, and after that on each timeout the two oldest packets, or all of them if the
  path potentially failed. No packet is lost by this, and unless 5000 packets are tracked the handler then allows to send,
  whatever the congestion window is.\<close>

theorem alarm_makes_progress:
  assumes "sent_run sa c0 tracked settled h" "hasOutstandingRetransmittablePacket h" "sp_lossTime h = zero_time"
    and "length (sp_retransmissionQueue h) + length (sp_packetHistory h) < MaxTrackedSentPackets"
  shows "let h' = OnAlarm sa callback now h;
           queued = (if sp_tlpCount h < maxTailLossProbes then [last (sp_packetHistory h)]
             else if (case callback of None \<Rightarrow> False | Some failed \<Rightarrow> failed (sp_lastSentTime h)) then sp_packetHistory h
             else take 2 (sp_packetHistory h))
         in sp_retransmissionQueue h' = sp_retransmissionQueue h @ queued \<and> queued \<noteq> [] \<and>
            mset (sp_packetHistory h) = mset (sp_packetHistory h') + mset queued \<and>
            SendingAllowed sa h'"
proof -
  have inv: "sent_inv h" using sent_run_invariant[OF assms(1)] ..
  define h' where "h' = OnAlarm sa callback now h"
  define queued where "queued = (if sp_tlpCount h < maxTailLossProbes then [last (sp_packetHistory h)]
             else if (case callback of None \<Rightarrow> False | Some failed \<Rightarrow> failed (sp_lastSentTime h)) then sp_packetHistory h
             else take 2 (sp_packetHistory h))"
  have q: "sp_retransmissionQueue h' = sp_retransmissionQueue h @ queued"
    using OnAlarm_queue[OF inv assms(2,3)] by (simp add: h'_def queued_def)
  have n: "queued \<noteq> []" using outstanding_history[OF assms(2)] by (simp add: queued_def)
  have k: "kept h' = kept h" using OnAlarm_moves[OF inv] by (simp add: moves_def h'_def)
  then have "mset (sp_packetHistory h) = mset (sp_packetHistory h') + mset queued" using q by (simp add: kept_def ac_simps)
  moreover have "SendingAllowed sa h'"
    using assms(4) kept_size[of h] kept_size[of h', unfolded k] q n by (simp add: SendingAllowed_def Let_def)
  ultimately show ?thesis unfolding Let_def h'_def[symmetric] queued_def[symmetric] using q n by blast
qed

lemma alarm_makes_progress_witness:
  "hasOutstandingRetransmittablePacket ex_sent \<and> sp_retransmissionQueue (OnAlarm fixed_window None 0 ex_sent) = [ex_packet 3] \<and>
   SendingAllowed fixed_window (OnAlarm fixed_window None 0 ex_sent)"
  using alarm_makes_progress[OF ex_sent_run ex_sent_history(7), of None 0]
  by (simp add: ex_sent_history maxTailLossProbes_def MaxTrackedSentPackets_def Let_def)

text \<open>C34. The retransmission timeout doubles with every timeout in a row, from at least 200 ms up to a minute, as long as the
  product fits the 64 bits of a duration. After 64 timeouts in a row the shift has moved out every bit and the timeout is
  zero.\<close>

theorem retransmission_timeout_backoff:
  "(base_rto sa h * 2 ^ unat (sp_rtoCount h) < 2 ^ 63 \<longrightarrow>
      computeRTOTimeout sa h = min (base_rto sa h * 2 ^ unat (sp_rtoCount h)) maxRTOTimeout \<and>
      minRTOTimeout \<le> computeRTOTimeout sa h) \<and>
   (64 \<le> unat (sp_rtoCount h) \<longrightarrow> computeRTOTimeout sa h = 0)"
proof (intro conjI impI)
  let ?x = "base_rto sa h * 2 ^ unat (sp_rtoCount h)"
  have b: "minRTOTimeout \<le> base_rto sa h" "0 < minRTOTimeout" "minRTOTimeout \<le> maxRTOTimeout"
    by (simp_all add: base_rto_def Let_def minRTOTimeout_def maxRTOTimeout_def)
  have "base_rto sa h * 1 \<le> ?x" using b by (intro mult_left_mono) simp_all
  then have "minRTOTimeout \<le> ?x" using b by linarith
  moreover assume "?x < 2 ^ 63"
  ultimately have "i64 ?x = ?x" "minRTOTimeout \<le> ?x" using b by (auto intro!: i64_id simp: minInt64_def maxInt64_def)
  then show "computeRTOTimeout sa h = min ?x maxRTOTimeout" "minRTOTimeout \<le> computeRTOTimeout sa h"
    using b by (simp_all add: computeRTO_base)
next
  assume "64 \<le> unat (sp_rtoCount h)"
  then show "computeRTOTimeout sa h = 0" by (simp add: computeRTO_base i64_shift_out maxRTOTimeout_def)
qed

lemma retransmission_timeout_backoff_witness:
  "computeRTOTimeout fixed_window (ex_sent\<lparr>sp_rtoCount := 3\<rparr>) = 4000 * Millisecond \<and>
   computeRTOTimeout fixed_window (ex_sent\<lparr>sp_rtoCount := 64\<rparr>) = 0"
  using retransmission_timeout_backoff[of fixed_window "ex_sent\<lparr>sp_rtoCount := 3\<rparr>"]
    retransmission_timeout_backoff[of fixed_window "ex_sent\<lparr>sp_rtoCount := 64\<rparr>"]
  by (simp add: base_rto_def Let_def fixed_window_def defaultRTOTimeout_def minRTOTimeout_def maxRTOTimeout_def)

end
