(* ===== verification/Congestion_Control.thy ===== *)
theory Congestion_Control
  imports Sent_Packets
begin

text \<open>What the sent packet handler relies on in its congestion controller: an invariant that every operation of the interface
  keeps and under which the congestion window has a lower bound. Since counters of a controller may wrap around, the
  invariant is indexed by the number of packets that have been acknowledged. Its consequence for the handler is that a path with
  less than the lower bound in flight may send.\<close>

section \<open>The number of acknowledgements\<close>

lemma acked_length:
  "length (filter (\<lambda>p. pk_PacketNumber p \<in> set (filter A (map pk_PacketNumber ps))) ps) = length (filter A (map pk_PacketNumber ps))"
  unfolding acked_by_number by (simp add: filter_map comp_def)

lemma ReceivedAck_nums:
  assumes inv: "sent_inv h" and p: "ParseAckFrame b v = Inr (f, r)" and res: "ReceivedAck sa now h f wpn t = (e, nums, h')"
  shows "nums = [] \<or> nums = filter (ack_AcksPacket f) (map pk_PacketNumber (sp_packetHistory h))"
proof (cases "ack_LargestAcked f > sp_lastSentPacketNumber h \<or> wpn \<le> sp_largestReceivedPacketWithAck h \<or>
    ack_LargestAcked f \<le> largestInOrderAcked h \<or> skippedPacketsAcked h f")
  case True
  then show ?thesis
    by (rule ReceivedAck_no_effect[where sa = sa and now = now and t = t]) (simp add: res)
next
  case False
  then have g: "ack_LargestAcked f \<le> sp_lastSentPacketNumber h" "sp_largestReceivedPacketWithAck h < wpn"
    "largestInOrderAcked h < ack_LargestAcked f" "\<not> skippedPacketsAcked h f" by auto
  show ?thesis
    by (rule ReceivedAck_effect[OF inv AckFrame_accepted(3)[OF p] g, of sa now t]) (simp add: res filter_map comp_def)
qed

lemma ReceivedAck_settled:
  assumes "sent_inv h" "ParseAckFrame b v = Inr (f, r)" "ReceivedAck sa now h f wpn t = (e, nums, h')"
  shows "size (mset (filter (\<lambda>p. pk_PacketNumber p \<in> set nums) (sp_packetHistory h))) = length nums"
proof -
  consider "nums = []" | "nums = filter (ack_AcksPacket f) (map pk_PacketNumber (sp_packetHistory h))"
    using ReceivedAck_nums[OF assms] by blast
  then show ?thesis
  proof cases
    case 2
    show ?thesis unfolding 2 size_mset by (rule acked_length)
  qed simp
qed

lemma ReceivedClosePath_settled:
  assumes "sent_inv h" "ParseClosePathFrame b v = Inr (f, r)" "ReceivedClosePath sa now h f wpn t = (e, nums, h')"
  shows "size (mset (filter (\<lambda>p. pk_PacketNumber p \<in> set nums) (sp_packetHistory h))) = length nums"
proof -
  note E = ReceivedClosePath_effect[OF assms(1) ClosePathFrame_accepted[OF assms(2)] assms(3)]
  consider "nums = []" | "nums = filter (cp_AcksPacket f) (map pk_PacketNumber (sp_packetHistory h))"
    using E(3,4) by blast
  then show ?thesis
  proof cases
    case 2
    show ?thesis unfolding 2 size_mset by (rule acked_length)
  qed simp
qed

section \<open>The contract\<close>

locale congestion_controller =
  fixes sa :: "'c SendAlgorithm" and ok :: "nat \<Rightarrow> 'c \<Rightarrow> bool" and acks_max :: nat and window_min :: ByteCount
  assumes ok_sent: "ok n c \<Longrightarrow> ok n (OnPacketSent sa now b pn len isRetransmittable c)"
    and ok_exit: "ok n c \<Longrightarrow> ok n (MaybeExitSlowStart sa rttStats c)"
    and ok_acked: "ok n c \<Longrightarrow> n < acks_max \<Longrightarrow> ok (Suc n) (OnPacketAcked sa now rttStats pn len b c)"
    and ok_lost: "ok n c \<Longrightarrow> ok n (OnPacketLost sa pn len b c)"
    and ok_timeout: "ok n c \<Longrightarrow> ok n (OnRetransmissionTimeout sa retransmitted c)"
    and ok_more: "ok n c \<Longrightarrow> n \<le> m \<Longrightarrow> ok m c"
    and ok_window: "ok n c \<Longrightarrow> window_min \<le> GetCongestionWindow sa c"
begin

lemma ackPackets_ok:
  "ok n (sp_congestion h) \<Longrightarrow> n + length ps \<le> acks_max \<Longrightarrow> ok (n + length ps) (sp_congestion (ackPackets sa now ps h))"
proof (induction ps arbitrary: n h)
  case (Cons p ps)
  let ?h = "(onPacketAcked h p)\<lparr>sp_congestion := OnPacketAcked sa now (sp_rttStats (onPacketAcked h p)) (pk_PacketNumber p)
      (pk_Length p) (sp_bytesInFlight (onPacketAcked h p)) (sp_congestion (onPacketAcked h p))\<rparr>"
  have "sp_congestion (onPacketAcked h p) = sp_congestion h" by (simp add: onPacketAcked_def)
  then have "ok (Suc n) (sp_congestion ?h)" using Cons.prems ok_acked by simp
  from Cons.IH[OF this] Cons.prems(2) show ?case by (simp add: ackPackets_def Let_def)
qed (simp add: ackPackets_def)

lemma losePackets_ok: "ok n (sp_congestion h) \<Longrightarrow> ok n (sp_congestion (losePackets sa ps h))"
proof (induction ps arbitrary: h)
  case (Cons p ps)
  let ?h = "(queuePacketForRetransmission h p)\<lparr>sp_congestion := OnPacketLost sa (pk_PacketNumber p) (pk_Length p)
      (sp_bytesInFlight (queuePacketForRetransmission h p)) (sp_congestion (queuePacketForRetransmission h p))\<rparr>"
  have "sp_congestion (queuePacketForRetransmission h p) = sp_congestion h" by (simp add: queuePacketForRetransmission_def)
  then have "ok n (sp_congestion ?h)" using Cons.prems ok_lost by simp
  from Cons.IH[OF this] show ?case by (simp add: losePackets_def Let_def)
qed (simp add: losePackets_def)

lemma detectLostPackets_ok: "ok n (sp_congestion h) \<Longrightarrow> ok n (sp_congestion (detectLostPackets sa now h))"
  unfolding detectLostPackets_def by (simp add: case_prod_beta losePackets_ok)

lemma SetInflightAsLost_ok: "ok n (sp_congestion h) \<Longrightarrow> ok n (sp_congestion (SetInflightAsLost sa h))"
  unfolding SetInflightAsLost_def Let_def by (rule losePackets_ok) simp

lemma queueRTO_ok: "ok n (sp_congestion h) \<Longrightarrow> ok n (sp_congestion (queueRTO sa h p))"
  by (simp add: queueRTO_def queuePacketForRetransmission_def Let_def ok_lost)

lemma queueAllRTO_ok: "ok n (sp_congestion h) \<Longrightarrow> ok n (sp_congestion (queueAllRTO sa h))"
proof (induction "length (sp_packetHistory h)" arbitrary: h)
  case 0
  then show ?case by (simp add: queueAllRTO.simps)
next
  case (Suc k)
  from Suc.hyps(2) obtain p ps where h: "sp_packetHistory h = p # ps" by (cases "sp_packetHistory h") auto
  have "k = length (sp_packetHistory (queueRTO sa h p))" using Suc.hyps(2) h by (simp add: queueRTO_queue)
  from Suc.hyps(1)[OF this queueRTO_ok[OF Suc.prems]] show ?case by (simp add: queueAllRTO.simps[of sa h] h)
qed

lemma retransmitOldestPacket_ok: "ok n (sp_congestion h) \<Longrightarrow> ok n (sp_congestion (retransmitOldestPacket sa h))"
  by (simp add: retransmitOldestPacket_def queueRTO_ok split: list.split)

lemma OnAlarm_ok:
  assumes "ok n (sp_congestion h)"
  shows "ok n (sp_congestion (OnAlarm sa cb now h))"
proof -
  have "ok n (sp_congestion (retransmitTLP h))"
    using assms by (simp add: retransmitTLP_def queuePacketForRetransmission_def)
  moreover have "ok n (sp_congestion (retransmitAllPackets sa h))"
    using queueAllRTO_ok[OF assms] by (simp add: retransmitAllPackets_def Let_def ok_timeout)
  moreover have "ok n (sp_congestion (retransmitOldestTwoPackets sa h))"
    using retransmitOldestPacket_ok[OF retransmitOldestPacket_ok[OF assms]]
    by (simp add: retransmitOldestTwoPackets_def Let_def ok_timeout)
  ultimately show ?thesis
    using assms detectLostPackets_ok[OF assms, of now] by (simp add: OnAlarm_def Let_def)
qed

lemma SentPacket_ok:
  assumes "ok n (sp_congestion h)" "SentPacket sa now h p = (e, p', h')"
  shows "ok n (sp_congestion h')"
  using assms unfolding SentPacket_def Let_def by (auto simp: ok_sent split: if_splits)

lemma garbageCollect_congestion: "sp_congestion (garbageCollectSkippedPackets h) = sp_congestion h"
  by (simp add: garbageCollectSkippedPackets_def Let_def)

lemma ReceivedAck_ok:
  assumes ok: "ok n (sp_congestion h)" and res: "ReceivedAck sa now h f wpn t = (e, nums, h')"
    and max: "n + length nums \<le> acks_max"
  shows "ok (n + length nums) (sp_congestion h')"
proof -
  define h0 where "h0 = h\<lparr>sp_largestReceivedPacketWithAck := wpn, sp_LargestAcked := ack_LargestAcked f\<rparr>"
  define m where "m = maybeUpdateRTT now h0 (ack_LargestAcked f) (ack_DelayTime f) t"
  define h1 where "h1 = (if fst m
    then (snd m)\<lparr>sp_congestion := MaybeExitSlowStart sa (sp_rttStats (snd m)) (sp_congestion (snd m))\<rparr> else snd m)"
  have "sp_congestion (snd m) = sp_congestion h" unfolding m_def maybeUpdateRTT_def h0_def by (simp split: option.split)
  then have h1: "ok n (sp_congestion h1)" unfolding h1_def using ok ok_exit by simp
  have "nums = [] \<and> (sp_congestion h' = sp_congestion h \<or> sp_congestion h' = sp_congestion h1) \<or>
    (\<exists>ps. nums = map pk_PacketNumber ps \<and>
       sp_congestion h' = sp_congestion (detectLostPackets sa now (ackPackets sa now ps h1)))"
    using res unfolding ReceivedAck_def Let_def case_prod_beta h0_def[symmetric] m_def[symmetric] h1_def[symmetric]
    by (auto simp: garbageCollect_congestion h0_def split: if_splits sum.splits)
  then show ?thesis
  proof (elim disjE exE conjE)
    fix ps assume ps: "nums = map pk_PacketNumber ps"
      "sp_congestion h' = sp_congestion (detectLostPackets sa now (ackPackets sa now ps h1))"
    have "ok (n + length ps) (sp_congestion (ackPackets sa now ps h1))" using ackPackets_ok[OF h1] max ps(1) by simp
    then show ?thesis using detectLostPackets_ok ps by simp
  qed (use ok h1 in simp_all)
qed

lemma ReceivedClosePath_ok:
  assumes ok: "ok n (sp_congestion h)" and res: "ReceivedClosePath sa now h f wpn t = (e, nums, h')"
    and max: "n + length nums \<le> acks_max"
  shows "ok (n + length nums) (sp_congestion h')"
proof -
  define h1 where "h1 = h\<lparr>sp_largestReceivedPacketWithAck := wpn\<rparr>"
  have h1: "ok n (sp_congestion h1)" using ok by (simp add: h1_def)
  have "nums = [] \<and> (sp_congestion h' = sp_congestion h \<or> sp_congestion h' = sp_congestion h1) \<or>
    (\<exists>ps. nums = map pk_PacketNumber ps \<and>
       sp_congestion h' = sp_congestion (SetInflightAsLost sa (ackPackets sa now ps h1)))"
    using res unfolding ReceivedClosePath_def Let_def h1_def[symmetric]
    by (simp split: if_splits sum.splits) (auto simp: garbageCollect_congestion)
  then show ?thesis
  proof (elim disjE exE conjE)
    fix ps assume ps: "nums = map pk_PacketNumber ps"
      "sp_congestion h' = sp_congestion (SetInflightAsLost sa (ackPackets sa now ps h1))"
    have "ok (n + length ps) (sp_congestion (ackPackets sa now ps h1))" using ackPackets_ok[OF h1] max ps(1) by simp
    then show ?thesis using SetInflightAsLost_ok ps by simp
  qed (use ok h1 in simp_all)
qed

lemma handler_ok:
  "sent_run sa c0 T S h \<Longrightarrow> ok 0 c0 \<Longrightarrow> size S \<le> acks_max \<Longrightarrow> ok (size S) (sp_congestion h)"
proof (induction rule: sent_run.induct)
  case (run_new r)
  then show ?case by (simp add: NewSentPacketHandler_def)
next
  case (run_sent T S h now p e p' h')
  then show ?case using SentPacket_ok by blast
next
  case (run_ack T S h b v f r now wpn t e nums h')
  note sz = ReceivedAck_settled[OF conjunct1[OF sent_run_invariant[OF run_ack.hyps(1)]] run_ack.hyps(2,3)]
  have "ok (size S + length nums) (sp_congestion h')"
    by (rule ReceivedAck_ok[OF run_ack.IH run_ack.hyps(3)]) (use run_ack.prems sz in simp_all)
  then show ?case using sz by simp
next
  case (run_close T S h b v g r now wpn t e nums h')
  note sz = ReceivedClosePath_settled[OF conjunct1[OF sent_run_invariant[OF run_close.hyps(1)]] run_close.hyps(2,3)]
  have "ok (size S + length nums) (sp_congestion h')"
    by (rule ReceivedClosePath_ok[OF run_close.IH run_close.hyps(3)]) (use run_close.prems sz in simp_all)
  then show ?case using sz by simp
next
  case (run_lost T S h)
  then show ?case using SetInflightAsLost_ok by blast
next
  case (run_alarm T S h callback now)
  then show ?case using OnAlarm_ok by blast
next
  case (run_dequeue T S h p h')
  have "sp_congestion h' = sp_congestion h"
    using run_dequeue.hyps(2) by (auto simp: DequeuePacketForRetransmission_def split: list.splits)
  then show ?case using run_dequeue ok_more[of "size S" "sp_congestion h" "Suc (size S)"] by simp
next
  case (run_duplicate T S h p)
  then show ?case by (simp add: DuplicatePacket_def)
next
  case (run_remove T S h num found h')
  have "sp_congestion h' = sp_congestion h"
    using run_remove.hyps(2) by (auto simp: RemovePacketByNumber_def Let_def case_prod_beta split: if_splits)
  then show ?case using run_remove ok_more[of "size S" "sp_congestion h" "size S + size (removed_packets h num)"] by simp
next
  case (run_stop_waiting T S h force swf h')
  have "sp_congestion h' = sp_congestion h"
    using run_stop_waiting.hyps(2) by (auto simp: sp_GetStopWaitingFrame_def Let_def split: prod.splits)
  then show ?case using run_stop_waiting by simp
qed

lemma may_send:
  assumes "sent_run sa c0 T S h" "ok 0 c0" "size S \<le> acks_max" "sp_bytesInFlight h \<le> window_min"
    "length (sp_retransmissionQueue h) + length (sp_packetHistory h) < MaxTrackedSentPackets"
  shows "SendingAllowed sa h"
  using ok_window[OF handler_ok[OF assms(1-3)]] assms(4,5) by (auto simp: SendingAllowed_def Let_def)

end

end
