(* ===== verification/Cubic_Sender.thy ===== *)
theory Cubic_Sender
  imports Congestion_Control
begin

text \<open>The congestion controller of a single path: hybrid slow start, proportional rate reduction, the CUBIC window function
  and the sender that combines them (\<^verbatim>\<open>congestion/hybrid_slow_start.go\<close>, \<^verbatim>\<open>congestion/prr_sender.go\<close>,
  \<^verbatim>\<open>congestion/cubic.go\<close>, \<^verbatim>\<open>congestion/cubic_sender.go\<close>). The sender is an instance of the interface that the sent packet handler
  uses.\<close>

section \<open>Floating-point numbers\<close>

text \<open>A \<^verbatim>\<open>float32\<close> is a mantissa and an exponent of two; every operation rounds its exact result to 24 significant bits. The
  quotient, of positive numbers, is computed to at least 64 bits and a sticky bit for the remainder, which rounds as the exact
  quotient does. The
  conversion to an integer truncates.\<close>

type_synonym float32 = "int \<times> int"

definition f_of_int :: "int \<Rightarrow> float32" where
  "f_of_int x = (round32 x, 0)"

fun f_add :: "float32 \<Rightarrow> float32 \<Rightarrow> float32" where
  "f_add (m, e) (n, d) = (let k = min e d in (round32 (m * 2 ^ nat (e - k) + n * 2 ^ nat (d - k)), k))"

fun f_sub :: "float32 \<Rightarrow> float32 \<Rightarrow> float32" where
  "f_sub (m, e) (n, d) = f_add (m, e) (- n, d)"

fun f_mul :: "float32 \<Rightarrow> float32 \<Rightarrow> float32" where
  "f_mul (m, e) (n, d) = (round32 (m * n), e + d)"

fun f_div :: "float32 \<Rightarrow> float32 \<Rightarrow> float32" where
  "f_div (m, e) (n, d) =
     (let s = intbits n + 64; k = m * 2 ^ s
      in (round32 (2 * (k div n) + (if k mod n = 0 then 0 else 1)), e - d - int s - 1))"

fun f_trunc :: "float32 \<Rightarrow> int" where
  "f_trunc (m, e) = (if e \<ge> 0 then m * 2 ^ nat e else quot m (2 ^ nat (- e)))"

definition packetNumber_of_float :: "float32 \<Rightarrow> PacketNumber" where
  "packetNumber_of_float x = word_of_int (f_trunc x)"

definition float_of_packetNumber :: "PacketNumber \<Rightarrow> float32" where
  "float_of_packetNumber x = f_of_int (uint x)"

section \<open>Hybrid slow start\<close>

definition hybridStartLowWindow :: ByteCount where "hybridStartLowWindow = 16"
definition hybridStartMinSamples :: u32 where "hybridStartMinSamples = 8"
definition hybridStartDelayMinThresholdUs :: int where "hybridStartDelayMinThresholdUs = 4000"
definition hybridStartDelayMaxThresholdUs :: int where "hybridStartDelayMaxThresholdUs = 16000"

record HybridSlowStart =
  hs_endPacketNumber :: PacketNumber
  hs_lastSentPacketNumber :: PacketNumber
  hs_started :: bool
  hs_currentMinRTT :: duration
  hs_rttSampleCount :: u32
  hs_hystartFound :: bool

definition zero_HybridSlowStart :: HybridSlowStart where
  "zero_HybridSlowStart = \<lparr>hs_endPacketNumber = 0, hs_lastSentPacketNumber = 0, hs_started = False, hs_currentMinRTT = 0,
     hs_rttSampleCount = 0, hs_hystartFound = False\<rparr>"

definition StartReceiveRound :: "HybridSlowStart \<Rightarrow> PacketNumber \<Rightarrow> HybridSlowStart" where
  "StartReceiveRound s lastSent =
     s\<lparr>hs_endPacketNumber := lastSent, hs_currentMinRTT := 0, hs_rttSampleCount := 0, hs_started := True\<rparr>"

definition IsEndOfRound :: "HybridSlowStart \<Rightarrow> PacketNumber \<Rightarrow> bool" where
  "IsEndOfRound s ack = (hs_endPacketNumber s < ack)"

text \<open>The right shift of the duration by 3 rounds down.\<close>

definition ShouldExitSlowStart ::
  "HybridSlowStart \<Rightarrow> duration \<Rightarrow> duration \<Rightarrow> ByteCount \<Rightarrow> bool \<times> HybridSlowStart" where
  "ShouldExitSlowStart s latestRTT minRTT congestionWindow =
     (let s = (if \<not> hs_started s then StartReceiveRound s (hs_lastSentPacketNumber s) else s)
      in if hs_hystartFound s then (True, s)
         else
           let s = s\<lparr>hs_rttSampleCount := hs_rttSampleCount s + 1\<rparr>;
               s = (if hs_rttSampleCount s \<le> hybridStartMinSamples
                    then if hs_currentMinRTT s = 0 \<or> hs_currentMinRTT s > latestRTT then s\<lparr>hs_currentMinRTT := latestRTT\<rparr> else s
                    else s);
               s = (if hs_rttSampleCount s = hybridStartMinSamples then
                      let minRTTincreaseThresholdUs = quot minRTT Microsecond div 8;
                          minRTTincreaseThresholdUs = MinInt64 minRTTincreaseThresholdUs hybridStartDelayMaxThresholdUs;
                          minRTTincreaseThreshold =
                            i64 (MaxInt64 minRTTincreaseThresholdUs hybridStartDelayMinThresholdUs * Microsecond)
                      in if hs_currentMinRTT s > i64 (minRTT + minRTTincreaseThreshold)
                         then s\<lparr>hs_hystartFound := True\<rparr> else s
                    else s)
           in (congestionWindow \<ge> hybridStartLowWindow \<and> hs_hystartFound s, s))"

definition hs_OnPacketSent :: "HybridSlowStart \<Rightarrow> PacketNumber \<Rightarrow> HybridSlowStart" where
  "hs_OnPacketSent s packetNumber = s\<lparr>hs_lastSentPacketNumber := packetNumber\<rparr>"

definition hs_OnPacketAcked :: "HybridSlowStart \<Rightarrow> PacketNumber \<Rightarrow> HybridSlowStart" where
  "hs_OnPacketAcked s ackedPacketNumber = (if IsEndOfRound s ackedPacketNumber then s\<lparr>hs_started := False\<rparr> else s)"

definition hs_Restart :: "HybridSlowStart \<Rightarrow> HybridSlowStart" where
  "hs_Restart s = s\<lparr>hs_started := False, hs_hystartFound := False\<rparr>"

section \<open>Proportional rate reduction\<close>

definition DefaultTCPMSS :: ByteCount where "DefaultTCPMSS = 1460"

record PrrSender =
  prr_bytesSentSinceLoss :: ByteCount
  prr_bytesDeliveredSinceLoss :: ByteCount
  prr_ackCountSinceLoss :: ByteCount
  prr_bytesInFlightBeforeLoss :: ByteCount

definition zero_PrrSender :: PrrSender where
  "zero_PrrSender = \<lparr>prr_bytesSentSinceLoss = 0, prr_bytesDeliveredSinceLoss = 0, prr_ackCountSinceLoss = 0,
     prr_bytesInFlightBeforeLoss = 0\<rparr>"

definition prr_OnPacketSent :: "PrrSender \<Rightarrow> ByteCount \<Rightarrow> PrrSender" where
  "prr_OnPacketSent p sentBytes = p\<lparr>prr_bytesSentSinceLoss := prr_bytesSentSinceLoss p + sentBytes\<rparr>"

definition prr_OnPacketLost :: "PrrSender \<Rightarrow> ByteCount \<Rightarrow> PrrSender" where
  "prr_OnPacketLost p bytesInFlight =
     p\<lparr>prr_bytesSentSinceLoss := 0, prr_bytesInFlightBeforeLoss := bytesInFlight, prr_bytesDeliveredSinceLoss := 0,
       prr_ackCountSinceLoss := 0\<rparr>"

definition prr_OnPacketAcked :: "PrrSender \<Rightarrow> ByteCount \<Rightarrow> PrrSender" where
  "prr_OnPacketAcked p ackedBytes =
     p\<lparr>prr_bytesDeliveredSinceLoss := prr_bytesDeliveredSinceLoss p + ackedBytes,
       prr_ackCountSinceLoss := prr_ackCountSinceLoss p + 1\<rparr>"

definition prr_TimeUntilSend :: "PrrSender \<Rightarrow> ByteCount \<Rightarrow> ByteCount \<Rightarrow> ByteCount \<Rightarrow> duration" where
  "prr_TimeUntilSend p congestionWindow bytesInFlight slowstartThreshold =
     (if prr_bytesSentSinceLoss p = 0 \<or> bytesInFlight < DefaultTCPMSS then 0
      else if congestionWindow > bytesInFlight then
        if prr_bytesDeliveredSinceLoss p + prr_ackCountSinceLoss p * DefaultTCPMSS \<le> prr_bytesSentSinceLoss p
        then InfDuration else 0
      else if prr_bytesDeliveredSinceLoss p * slowstartThreshold > prr_bytesSentSinceLoss p * prr_bytesInFlightBeforeLoss p
      then 0
      else InfDuration)"


section \<open>CUBIC\<close>

definition cubeFactor :: PacketNumber where "cubeFactor = word_of_int (2 ^ 40 div 410)"
definition beta :: float32 where "beta = (11744051, - 24)"
definition betaLastMax :: float32 where "betaLastMax = (14260634, - 24)"
definition maxCubicTimeInterval :: duration where "maxCubicTimeInterval = 30 * Millisecond"

text \<open>The integer part of the cube root, by its binary digits.\<close>

primrec cbrt_digits :: "nat \<Rightarrow> int \<Rightarrow> int \<Rightarrow> int" where
  "cbrt_digits 0 n r = r"
| "cbrt_digits (Suc k) n r = cbrt_digits k n (if (r + 2 ^ k) ^ 3 \<le> n then r + 2 ^ k else r)"

text \<open>\<^verbatim>\<open>uint32(math.Cbrt(float64(x)))\<close>: the integer part of the cube root of the number, rounded to 53 bits before. The root of
  a number below \<open>2 ^ 50\<close> is farther from the next integer than the error of the library function, so that its integer part is
  the exact one; the arguments are below this bound for windows below \<open>2 ^ 18\<close> packets, and the largest window of a path
  has 2500.\<close>

definition uint32_Cbrt :: "PacketNumber \<Rightarrow> u32" where
  "uint32_Cbrt x = word_of_int (cbrt_digits 22 (round64 (uint x)) 0)"

record Cubic =
  cu_numConnections :: int
  cu_epoch :: gotime
  cu_appLimitedStartTime :: gotime
  cu_lastUpdateTime :: gotime
  cu_lastCongestionWindow :: PacketNumber
  cu_lastMaxCongestionWindow :: PacketNumber
  cu_ackedPacketsCount :: PacketNumber
  cu_estimatedTCPcongestionWindow :: PacketNumber
  cu_originPointCongestionWindow :: PacketNumber
  cu_timeToOriginPoint :: u32
  cu_lastTargetCongestionWindow :: PacketNumber

definition defaultNumConnections :: int where "defaultNumConnections = 2"

definition cu_Reset :: "Cubic \<Rightarrow> Cubic" where
  "cu_Reset c =
     c\<lparr>cu_epoch := zero_time, cu_appLimitedStartTime := zero_time, cu_lastUpdateTime := zero_time,
       cu_lastCongestionWindow := 0, cu_lastMaxCongestionWindow := 0, cu_ackedPacketsCount := 0,
       cu_estimatedTCPcongestionWindow := 0, cu_originPointCongestionWindow := 0, cu_timeToOriginPoint := 0,
       cu_lastTargetCongestionWindow := 0\<rparr>"

definition NewCubic :: Cubic where
  "NewCubic =
     \<lparr>cu_numConnections = defaultNumConnections, cu_epoch = zero_time, cu_appLimitedStartTime = zero_time,
      cu_lastUpdateTime = zero_time, cu_lastCongestionWindow = 0, cu_lastMaxCongestionWindow = 0, cu_ackedPacketsCount = 0,
      cu_estimatedTCPcongestionWindow = 0, cu_originPointCongestionWindow = 0, cu_timeToOriginPoint = 0,
      cu_lastTargetCongestionWindow = 0\<rparr>"

text \<open>The backoff factor for a number of emulated connections, with the factor of one connection.\<close>

definition nConnectionBeta :: "float32 \<Rightarrow> int \<Rightarrow> float32" where
  "nConnectionBeta b numConnections =
     f_div (f_add (f_sub (f_of_int numConnections) (f_of_int 1)) b) (f_of_int numConnections)"

definition cu_beta :: "Cubic \<Rightarrow> float32" where
  "cu_beta c = nConnectionBeta beta (cu_numConnections c)"

definition cu_alpha :: "Cubic \<Rightarrow> float32" where
  "cu_alpha c =
     (let b = cu_beta c; n = f_of_int (cu_numConnections c)
      in f_div (f_mul (f_mul (f_mul (f_of_int 3) n) n) (f_sub (f_of_int 1) b)) (f_add (f_of_int 1) b))"

definition OnApplicationLimited :: "gotime \<Rightarrow> Cubic \<Rightarrow> Cubic" where
  "OnApplicationLimited now c =
     (if cu_appLimitedStartTime c = zero_time then c\<lparr>cu_appLimitedStartTime := now\<rparr> else c)"

definition CongestionWindowAfterPacketLoss :: "Cubic \<Rightarrow> PacketNumber \<Rightarrow> PacketNumber \<times> Cubic" where
  "CongestionWindowAfterPacketLoss c currentCongestionWindow =
     (let c = c\<lparr>cu_lastMaxCongestionWindow :=
            (if currentCongestionWindow < cu_lastMaxCongestionWindow c
             then packetNumber_of_float (f_mul betaLastMax (float_of_packetNumber currentCongestionWindow))
             else currentCongestionWindow),
            cu_epoch := zero_time\<rparr>
      in (packetNumber_of_float (f_mul (float_of_packetNumber currentCongestionWindow) (cu_beta c)), c))"

text \<open>The loop that updates the estimated window of TCP Reno. Nothing in the code bounds its number of iterations; \<open>None\<close>
  is a loop that does not end.\<close>

partial_function (option) estimateTCP ::
  "float32 \<Rightarrow> PacketNumber \<Rightarrow> PacketNumber \<Rightarrow> (PacketNumber \<times> PacketNumber) option" where
  "estimateTCP alpha estimatedTCPcongestionWindow ackedPacketsCount =
     (let requiredAckCount = packetNumber_of_float (f_div (float_of_packetNumber estimatedTCPcongestionWindow) alpha)
      in if ackedPacketsCount < requiredAckCount then Some (estimatedTCPcongestionWindow, ackedPacketsCount)
         else estimateTCP alpha (estimatedTCPcongestionWindow + 1) (ackedPacketsCount - requiredAckCount))"

declare estimateTCP.simps [code]

text \<open>The start of an epoch, or its shift by an application-limited period.\<close>

definition startEpoch :: "gotime \<Rightarrow> Cubic \<Rightarrow> PacketNumber \<Rightarrow> Cubic" where
  "startEpoch currentTime c currentCongestionWindow =
     (if cu_epoch c = zero_time then
        let c = c\<lparr>cu_epoch := currentTime, cu_ackedPacketsCount := 1,
                  cu_estimatedTCPcongestionWindow := currentCongestionWindow\<rparr>
        in if cu_lastMaxCongestionWindow c \<le> currentCongestionWindow
           then c\<lparr>cu_timeToOriginPoint := 0, cu_originPointCongestionWindow := currentCongestionWindow\<rparr>
           else c\<lparr>cu_timeToOriginPoint :=
                    uint32_Cbrt (cubeFactor * (cu_lastMaxCongestionWindow c - currentCongestionWindow)),
                  cu_originPointCongestionWindow := cu_lastMaxCongestionWindow c\<rparr>
      else if cu_appLimitedStartTime c \<noteq> zero_time then
        let shift = time_sub currentTime (cu_appLimitedStartTime c)
        in c\<lparr>cu_epoch := time_add (cu_epoch c) shift, cu_appLimitedStartTime := zero_time\<rparr>
      else c)"

text \<open>The cubic function, with the wrap-around of \<^verbatim>\<open>int64\<close>.\<close>

definition elapsedTime :: "gotime \<Rightarrow> Cubic \<Rightarrow> duration \<Rightarrow> int" where
  "elapsedTime currentTime c delayMin =
     quot (i64 (quot (time_sub (time_add currentTime delayMin) (cu_epoch c)) Microsecond * 2 ^ 10)) 1000000"

definition cubicTarget :: "gotime \<Rightarrow> Cubic \<Rightarrow> duration \<Rightarrow> PacketNumber" where
  "cubicTarget currentTime c delayMin =
     (let elapsed = elapsedTime currentTime c delayMin;
          offset = i64 (uint (cu_timeToOriginPoint c) - elapsed);
          offset = (if offset < 0 then i64 (- offset) else offset);
          deltaCongestionWindow = word_of_int (i64 (410 * offset * offset * offset) div 2 ^ 40)
      in if elapsed > uint (cu_timeToOriginPoint c)
         then cu_originPointCongestionWindow c + deltaCongestionWindow
         else cu_originPointCongestionWindow c - deltaCongestionWindow)"

definition CongestionWindowAfterAck ::
  "gotime \<Rightarrow> Cubic \<Rightarrow> PacketNumber \<Rightarrow> duration \<Rightarrow> (PacketNumber \<times> Cubic) option" where
  "CongestionWindowAfterAck currentTime c currentCongestionWindow delayMin =
     (let c = c\<lparr>cu_ackedPacketsCount := cu_ackedPacketsCount c + 1\<rparr>
      in if cu_lastCongestionWindow c = currentCongestionWindow \<and>
            time_sub currentTime (cu_lastUpdateTime c) \<le> maxCubicTimeInterval
         then Some (MaxPacketNumber (cu_lastTargetCongestionWindow c) (cu_estimatedTCPcongestionWindow c), c)
         else
           let c = c\<lparr>cu_lastCongestionWindow := currentCongestionWindow, cu_lastUpdateTime := currentTime\<rparr>;
               c = startEpoch currentTime c currentCongestionWindow;
               targetCongestionWindow = cubicTarget currentTime c delayMin
           in case estimateTCP (cu_alpha c) (cu_estimatedTCPcongestionWindow c) (cu_ackedPacketsCount c) of
                None \<Rightarrow> None
              | Some (estimated, acked) \<Rightarrow>
                  let c = c\<lparr>cu_estimatedTCPcongestionWindow := estimated, cu_ackedPacketsCount := acked,
                            cu_lastTargetCongestionWindow := targetCongestionWindow\<rparr>
                  in Some (if targetCongestionWindow < estimated then estimated else targetCongestionWindow, c))"

definition SetNumConnections :: "Cubic \<Rightarrow> int \<Rightarrow> Cubic" where
  "SetNumConnections c n = c\<lparr>cu_numConnections := n\<rparr>"


section \<open>The sender\<close>

definition maxBurstBytes :: ByteCount where "maxBurstBytes = 3 * DefaultTCPMSS"
definition defaultMinimumCongestionWindow :: PacketNumber where "defaultMinimumCongestionWindow = 2"
definition renoBeta :: float32 where "renoBeta = (11744051, - 24)"
definition InitialCongestionWindow :: PacketNumber where "InitialCongestionWindow = 32"
definition DefaultMaxCongestionWindow :: PacketNumber where "DefaultMaxCongestionWindow = 2500"

record connectionStats =
  slowstartPacketsLost :: PacketNumber
  slowstartBytesLost :: ByteCount

record cubicSender =
  cs_hybridSlowStart :: HybridSlowStart
  cs_prr :: PrrSender
  cs_stats :: connectionStats
  cs_cubic :: Cubic
  cs_reno :: bool
  cs_largestSentPacketNumber :: PacketNumber
  cs_largestAckedPacketNumber :: PacketNumber
  cs_largestSentAtLastCutback :: PacketNumber
  cs_congestionWindow :: PacketNumber
  cs_slowstartThreshold :: PacketNumber
  cs_lastCutbackExitedSlowstart :: bool
  cs_slowStartLargeReduction :: bool
  cs_minCongestionWindow :: PacketNumber
  cs_maxTCPCongestionWindow :: PacketNumber
  cs_numConnections :: int
  cs_congestionWindowCount :: ByteCount
  cs_initialCongestionWindow :: PacketNumber
  cs_initialMaxCongestionWindow :: PacketNumber

definition NewCubicSender :: "bool \<Rightarrow> PacketNumber \<Rightarrow> PacketNumber \<Rightarrow> cubicSender" where
  "NewCubicSender reno initialCongestionWindow initialMaxCongestionWindow =
     \<lparr>cs_hybridSlowStart = zero_HybridSlowStart, cs_prr = zero_PrrSender,
      cs_stats = \<lparr>slowstartPacketsLost = 0, slowstartBytesLost = 0\<rparr>, cs_cubic = NewCubic, cs_reno = reno,
      cs_largestSentPacketNumber = 0, cs_largestAckedPacketNumber = 0, cs_largestSentAtLastCutback = 0,
      cs_congestionWindow = initialCongestionWindow, cs_slowstartThreshold = initialMaxCongestionWindow,
      cs_lastCutbackExitedSlowstart = False, cs_slowStartLargeReduction = False,
      cs_minCongestionWindow = defaultMinimumCongestionWindow, cs_maxTCPCongestionWindow = initialMaxCongestionWindow,
      cs_numConnections = defaultNumConnections, cs_congestionWindowCount = 0,
      cs_initialCongestionWindow = initialCongestionWindow, cs_initialMaxCongestionWindow = initialMaxCongestionWindow\<rparr>"

definition cs_InRecovery :: "cubicSender \<Rightarrow> bool" where
  "cs_InRecovery c = (cs_largestAckedPacketNumber c \<le> cs_largestSentAtLastCutback c \<and> cs_largestAckedPacketNumber c \<noteq> 0)"

definition cs_GetCongestionWindow :: "cubicSender \<Rightarrow> ByteCount" where
  "cs_GetCongestionWindow c = cs_congestionWindow c * DefaultTCPMSS"

definition cs_GetSlowStartThreshold :: "cubicSender \<Rightarrow> ByteCount" where
  "cs_GetSlowStartThreshold c = cs_slowstartThreshold c * DefaultTCPMSS"

definition cs_InSlowStart :: "cubicSender \<Rightarrow> bool" where
  "cs_InSlowStart c = (cs_GetCongestionWindow c < cs_GetSlowStartThreshold c)"

definition cs_TimeUntilSend :: "cubicSender \<Rightarrow> ByteCount \<Rightarrow> duration" where
  "cs_TimeUntilSend c bytesInFlight =
     (if cs_InRecovery c
      then prr_TimeUntilSend (cs_prr c) (cs_GetCongestionWindow c) bytesInFlight (cs_GetSlowStartThreshold c)
      else if cs_GetCongestionWindow c > bytesInFlight then 0
      else InfDuration)"

definition cs_OnPacketSent :: "cubicSender \<Rightarrow> PacketNumber \<Rightarrow> ByteCount \<Rightarrow> bool \<Rightarrow> bool \<times> cubicSender" where
  "cs_OnPacketSent c packetNumber bytes isRetransmittable =
     (if \<not> isRetransmittable then (False, c)
      else
        let c = (if cs_InRecovery c then c\<lparr>cs_prr := prr_OnPacketSent (cs_prr c) bytes\<rparr> else c);
            c = c\<lparr>cs_largestSentPacketNumber := packetNumber\<rparr>;
            c = c\<lparr>cs_hybridSlowStart := hs_OnPacketSent (cs_hybridSlowStart c) packetNumber\<rparr>
        in (True, c))"

definition cs_ExitSlowstart :: "cubicSender \<Rightarrow> cubicSender" where
  "cs_ExitSlowstart c = c\<lparr>cs_slowstartThreshold := cs_congestionWindow c\<rparr>"

definition cs_MaybeExitSlowStart :: "RTTStats \<Rightarrow> cubicSender \<Rightarrow> cubicSender" where
  "cs_MaybeExitSlowStart rttStats c =
     (if cs_InSlowStart c then
        let (exit, hss) = ShouldExitSlowStart (cs_hybridSlowStart c) (rtt_latestRTT rttStats) (rtt_minRTT rttStats)
              (cs_GetCongestionWindow c div DefaultTCPMSS);
            c = c\<lparr>cs_hybridSlowStart := hss\<rparr>
        in if exit then cs_ExitSlowstart c else c
      else c)"

definition cs_isCwndLimited :: "cubicSender \<Rightarrow> ByteCount \<Rightarrow> bool" where
  "cs_isCwndLimited c bytesInFlight =
     (let congestionWindow = cs_GetCongestionWindow c
      in if bytesInFlight \<ge> congestionWindow then True
         else
           let availableBytes = congestionWindow - bytesInFlight;
               slowStartLimited = (cs_InSlowStart c \<and> bytesInFlight > congestionWindow div 2)
           in slowStartLimited \<or> availableBytes \<le> maxBurstBytes)"

definition cs_RenoBeta :: "cubicSender \<Rightarrow> float32" where
  "cs_RenoBeta c = nConnectionBeta renoBeta (cs_numConnections c)"

definition cs_maybeIncreaseCwnd :: "gotime \<Rightarrow> RTTStats \<Rightarrow> cubicSender \<Rightarrow> ByteCount \<Rightarrow> cubicSender option" where
  "cs_maybeIncreaseCwnd now rttStats c bytesInFlight =
     (if \<not> cs_isCwndLimited c bytesInFlight then Some (c\<lparr>cs_cubic := OnApplicationLimited now (cs_cubic c)\<rparr>)
      else if cs_congestionWindow c \<ge> cs_maxTCPCongestionWindow c then Some c
      else if cs_InSlowStart c then Some (c\<lparr>cs_congestionWindow := cs_congestionWindow c + 1\<rparr>)
      else if cs_reno c then
        let c = c\<lparr>cs_congestionWindowCount := cs_congestionWindowCount c + 1\<rparr>
        in Some (if cs_congestionWindowCount c * word_of_int (cs_numConnections c) \<ge> cs_congestionWindow c
                 then c\<lparr>cs_congestionWindow := cs_congestionWindow c + 1, cs_congestionWindowCount := 0\<rparr> else c)
      else
        case CongestionWindowAfterAck now (cs_cubic c) (cs_congestionWindow c) (rtt_minRTT rttStats) of
          None \<Rightarrow> None
        | Some (window, cubic) \<Rightarrow>
            Some (c\<lparr>cs_cubic := cubic, cs_congestionWindow := MinPacketNumber (cs_maxTCPCongestionWindow c) window\<rparr>))"

definition cs_OnPacketAcked ::
  "gotime \<Rightarrow> RTTStats \<Rightarrow> PacketNumber \<Rightarrow> ByteCount \<Rightarrow> ByteCount \<Rightarrow> cubicSender \<Rightarrow> cubicSender option" where
  "cs_OnPacketAcked now rttStats ackedPacketNumber ackedBytes bytesInFlight c =
     (let c = c\<lparr>cs_largestAckedPacketNumber := MaxPacketNumber ackedPacketNumber (cs_largestAckedPacketNumber c)\<rparr>
      in if cs_InRecovery c then Some (c\<lparr>cs_prr := prr_OnPacketAcked (cs_prr c) ackedBytes\<rparr>)
         else
           case cs_maybeIncreaseCwnd now rttStats c bytesInFlight of
             None \<Rightarrow> None
           | Some c \<Rightarrow>
               Some (if cs_InSlowStart c
                     then c\<lparr>cs_hybridSlowStart := hs_OnPacketAcked (cs_hybridSlowStart c) ackedPacketNumber\<rparr> else c))"

text \<open>A loss among the packets sent before the last reduction of the window.\<close>

definition cs_lostBeforeCutback :: "ByteCount \<Rightarrow> cubicSender \<Rightarrow> cubicSender" where
  "cs_lostBeforeCutback lostBytes c =
     (if cs_lastCutbackExitedSlowstart c then
        let c = c\<lparr>cs_stats := \<lparr>slowstartPacketsLost = slowstartPacketsLost (cs_stats c) + 1,
                              slowstartBytesLost = slowstartBytesLost (cs_stats c) + lostBytes\<rparr>\<rparr>
        in if cs_slowStartLargeReduction c then
             let c = (if slowstartPacketsLost (cs_stats c) = 1 \<or>
                         slowstartBytesLost (cs_stats c) div DefaultTCPMSS
                           > (slowstartBytesLost (cs_stats c) - lostBytes) div DefaultTCPMSS
                      then c\<lparr>cs_congestionWindow := MaxPacketNumber (cs_congestionWindow c - 1) (cs_minCongestionWindow c)\<rparr>
                      else c)
             in c\<lparr>cs_slowstartThreshold := cs_congestionWindow c\<rparr>
           else c
      else c)"

definition cs_OnPacketLost :: "PacketNumber \<Rightarrow> ByteCount \<Rightarrow> ByteCount \<Rightarrow> cubicSender \<Rightarrow> cubicSender" where
  "cs_OnPacketLost packetNumber lostBytes bytesInFlight c =
     (if packetNumber \<le> cs_largestSentAtLastCutback c then cs_lostBeforeCutback lostBytes c
      else
        let c = c\<lparr>cs_lastCutbackExitedSlowstart := cs_InSlowStart c\<rparr>;
            c = (if cs_InSlowStart c
                 then c\<lparr>cs_stats := (cs_stats c)\<lparr>slowstartPacketsLost := slowstartPacketsLost (cs_stats c) + 1\<rparr>\<rparr> else c);
            c = c\<lparr>cs_prr := prr_OnPacketLost (cs_prr c) bytesInFlight\<rparr>;
            c = (if cs_slowStartLargeReduction c \<and> cs_InSlowStart c
                 then c\<lparr>cs_congestionWindow := cs_congestionWindow c - 1\<rparr>
                 else if cs_reno c
                 then c\<lparr>cs_congestionWindow :=
                        packetNumber_of_float (f_mul (float_of_packetNumber (cs_congestionWindow c)) (cs_RenoBeta c))\<rparr>
                 else
                   let (window, cubic) = CongestionWindowAfterPacketLoss (cs_cubic c) (cs_congestionWindow c)
                   in c\<lparr>cs_cubic := cubic, cs_congestionWindow := window\<rparr>);
            c = (if cs_congestionWindow c < cs_minCongestionWindow c
                 then c\<lparr>cs_congestionWindow := cs_minCongestionWindow c\<rparr> else c)
        in c\<lparr>cs_slowstartThreshold := cs_congestionWindow c, cs_largestSentAtLastCutback := cs_largestSentPacketNumber c,
             cs_congestionWindowCount := 0\<rparr>)"

definition cs_SetNumEmulatedConnections :: "int \<Rightarrow> cubicSender \<Rightarrow> cubicSender" where
  "cs_SetNumEmulatedConnections n c =
     (let c = c\<lparr>cs_numConnections := max n 1\<rparr> in c\<lparr>cs_cubic := SetNumConnections (cs_cubic c) (cs_numConnections c)\<rparr>)"

definition cs_OnRetransmissionTimeout :: "bool \<Rightarrow> cubicSender \<Rightarrow> cubicSender" where
  "cs_OnRetransmissionTimeout packetsRetransmitted c =
     (let c = c\<lparr>cs_largestSentAtLastCutback := 0\<rparr>
      in if \<not> packetsRetransmitted then c
         else c\<lparr>cs_hybridSlowStart := hs_Restart (cs_hybridSlowStart c), cs_cubic := cu_Reset (cs_cubic c),
                cs_slowstartThreshold := cs_congestionWindow c div 2, cs_congestionWindow := cs_minCongestionWindow c\<rparr>)"

definition cs_OnConnectionMigration :: "cubicSender \<Rightarrow> cubicSender" where
  "cs_OnConnectionMigration c =
     c\<lparr>cs_hybridSlowStart := hs_Restart (cs_hybridSlowStart c), cs_prr := zero_PrrSender, cs_largestSentPacketNumber := 0,
       cs_largestAckedPacketNumber := 0, cs_largestSentAtLastCutback := 0, cs_lastCutbackExitedSlowstart := False,
       cs_cubic := cu_Reset (cs_cubic c), cs_congestionWindowCount := 0,
       cs_congestionWindow := cs_initialCongestionWindow c, cs_slowstartThreshold := cs_initialMaxCongestionWindow c,
       cs_maxTCPCongestionWindow := cs_initialMaxCongestionWindow c\<rparr>"

definition cs_SetSlowStartLargeReduction :: "bool \<Rightarrow> cubicSender \<Rightarrow> cubicSender" where
  "cs_SetSlowStartLargeReduction enabled c = c\<lparr>cs_slowStartLargeReduction := enabled\<rparr>"

definition cs_RetransmissionDelay :: "RTTStats \<Rightarrow> duration" where
  "cs_RetransmissionDelay rttStats =
     (if rtt_smoothedRTT rttStats = 0 then 0
      else i64 (rtt_smoothedRTT rttStats + i64 (rtt_meanDeviation rttStats * 4)))"

definition BandwidthFromDelta :: "ByteCount \<Rightarrow> duration \<Rightarrow> u64" where
  "BandwidthFromDelta bytes d = bytes * 1000000000 div word_of_int d * 8"

definition cs_BandwidthEstimate :: "RTTStats \<Rightarrow> cubicSender \<Rightarrow> u64" where
  "cs_BandwidthEstimate rttStats c =
     (if rtt_smoothedRTT rttStats = 0 then 0 else BandwidthFromDelta (cs_GetCongestionWindow c) (rtt_smoothedRTT rttStats))"

text \<open>The sender as the congestion controller of the sent packet handler. An acknowledgement whose processing would not end
  leaves the sender unchanged here; it is shown below that there is none.\<close>

definition cubic_algorithm :: "cubicSender SendAlgorithm" where
  "cubic_algorithm =
     \<lparr>OnPacketSent = \<lambda>sentTime bytesInFlight packetNumber bytes isRetransmittable c.
        snd (cs_OnPacketSent c packetNumber bytes isRetransmittable),
      GetCongestionWindow = cs_GetCongestionWindow,
      MaybeExitSlowStart = cs_MaybeExitSlowStart,
      OnPacketAcked = \<lambda>now rttStats packetNumber bytes bytesInFlight c.
        case cs_OnPacketAcked now rttStats packetNumber bytes bytesInFlight c of Some c' \<Rightarrow> c' | None \<Rightarrow> c,
      OnPacketLost = cs_OnPacketLost,
      OnRetransmissionTimeout = cs_OnRetransmissionTimeout,
      RetransmissionDelay = \<lambda>rttStats c. cs_RetransmissionDelay rttStats,
      SmoothedRTT = \<lambda>rttStats c. rtt_smoothedRTT rttStats\<rparr>"

section \<open>Rounding\<close>

lemma intbits_bounds: "0 < n \<Longrightarrow> 2 ^ (intbits n - 1) \<le> n \<and> n < 2 ^ intbits n \<and> 0 < intbits n"
proof (induction n rule: intbits.induct)
  case (1 n)
  show ?case
  proof (cases "n = 1")
    case False
    with 1 have "2 ^ (intbits (n div 2) - 1) \<le> n div 2" "n div 2 < 2 ^ intbits (n div 2)" "0 < intbits (n div 2)" by auto
    moreover have "intbits n = Suc (intbits (n div 2))" using "1.prems" by (subst intbits.simps) simp
    moreover have "(2::int) ^ intbits (n div 2) = 2 * 2 ^ (intbits (n div 2) - 1)"
      using \<open>0 < intbits (n div 2)\<close> by (simp add: power_eq_if)
    moreover have "2 * (n div 2) \<le> n" "n < 2 * (n div 2) + 2" by auto
    ultimately show ?thesis by simp
  qed (simp add: intbits.simps)
qed

lemma roundSig_0 [simp]: "roundSig p 0 = 0" "roundPos p 0 = 0"
  by (simp_all add: roundSig_def roundPos_def)

lemma roundPos_error: "0 < n \<Longrightarrow> 2 ^ p * \<bar>roundPos p n - n\<bar> \<le> n"
proof -
  assume n: "0 < n"
  define e where "e = intbits n - p"
  define m where "m = n div 2 ^ e"
  define r where "r = n mod 2 ^ e"
  have nm: "n = m * 2 ^ e + r" "0 \<le> r" "r < 2 ^ e" by (simp_all add: m_def r_def div_mult_mod_eq)
  have R: "roundPos p n = (if 2 * r > 2 ^ e \<or> 2 * r = 2 ^ e \<and> odd m then m + 1 else m) * 2 ^ e"
    by (simp add: roundPos_def Let_def e_def m_def r_def)
  show ?thesis
  proof (cases "e = 0")
    case True
    then have "r = 0" using nm by simp
    then show ?thesis using R nm n True by simp
  next
    case False
    then have "intbits n - 1 = p + (e - 1)" "e = Suc (e - 1)" by (simp_all add: e_def)
    then have "(2::int) ^ (intbits n - 1) = 2 ^ p * 2 ^ (e - 1)" by (metis power_add)
    then have "2 ^ p * (2::int) ^ (e - 1) \<le> n" using intbits_bounds[OF n] by simp
    have "2 * \<bar>roundPos p n - n\<bar> \<le> 2 ^ e" using R nm by (auto simp: algebra_simps)
    moreover have "(2::int) ^ e = 2 * 2 ^ (e - 1)" using False by (simp add: power_eq_if)
    ultimately have "\<bar>roundPos p n - n\<bar> \<le> 2 ^ (e - 1)" by (simp only: mult_le_cancel_left_pos zero_less_numeral)
    then have "2 ^ p * \<bar>roundPos p n - n\<bar> \<le> 2 ^ p * 2 ^ (e - 1)" by simp
    with \<open>2 ^ p * (2::int) ^ (e - 1) \<le> n\<close> show ?thesis by linarith
  qed
qed

lemma roundPos_pow:
  assumes "0 < n" "0 < p"
  shows "2 ^ (intbits n - 1) \<le> roundPos p n" "roundPos p n \<le> 2 ^ intbits n"
proof -
  define e where "e = intbits n - p"
  define m where "m = n div 2 ^ e"
  note B = intbits_bounds[OF assms(1)]
  have R: "m * 2 ^ e \<le> roundPos p n" "roundPos p n \<le> (m + 1) * 2 ^ e"
    by (simp_all add: roundPos_def Let_def e_def m_def algebra_simps)
  have "e \<le> intbits n - 1" using assms(2) B by (simp add: e_def)
  then have k: "(2::int) ^ (intbits n - 1) = 2 ^ (intbits n - 1 - e) * 2 ^ e" "(2::int) ^ intbits n = 2 ^ (intbits n - e) * 2 ^ e"
    by (simp_all flip: power_add)
  have "2 ^ (intbits n - 1 - e) \<le> m" unfolding m_def
    using zdiv_mono1[of "2 ^ (intbits n - 1 - e) * 2 ^ e" n "2 ^ e"] B k(1) by simp
  then have "2 ^ (intbits n - 1 - e) * 2 ^ e \<le> m * 2 ^ e" by (intro mult_right_mono) simp_all
  then show "2 ^ (intbits n - 1) \<le> roundPos p n" unfolding k(1) using R(1) by linarith
  have "0 \<le> n mod 2 ^ e" by simp
  then have "m * 2 ^ e \<le> n" unfolding m_def using div_mult_mod_eq[of n "2 ^ e"] by linarith
  then have "m * 2 ^ e < 2 ^ (intbits n - e) * 2 ^ e" using B k(2) by linarith
  then have "m < 2 ^ (intbits n - e)" by simp
  then have "(m + 1) * 2 ^ e \<le> 2 ^ (intbits n - e) * 2 ^ e" by (intro mult_right_mono) simp_all
  then show "roundPos p n \<le> 2 ^ intbits n" unfolding k(2) using R(2) by linarith
qed

lemma roundSig_ge_pow:
  assumes "2 ^ j \<le> n" "0 < p"
  shows "2 ^ j \<le> roundSig p n"
proof -
  have n: "0 < n" using assms(1) zero_less_power[of "2::int" j] by linarith
  have "(2::int) ^ j < 2 ^ intbits n" using intbits_bounds[OF n] assms(1) by linarith
  then have "j \<le> intbits n - 1" using power_strict_increasing_iff[of "2::int"] by simp
  then have "(2::int) ^ j \<le> 2 ^ (intbits n - 1)" by (intro power_increasing) simp_all
  also have "\<dots> \<le> roundSig p n" using roundPos_pow(1)[OF n assms(2)] n by (simp add: roundSig_def)
  finally show ?thesis .
qed

lemma roundSig_nonneg: "0 \<le> n \<Longrightarrow> 0 < p \<Longrightarrow> 0 \<le> roundSig p n"
  using order_trans[OF zero_le_power roundPos_pow(1)[of n p]] by (cases "n = 0") (simp_all add: roundSig_def)

lemma roundSig_error: "0 \<le> n \<Longrightarrow> 2 ^ p * (roundSig p n - n) \<le> n"
proof (cases "n = 0")
  case False
  assume "0 \<le> n"
  with False have "2 ^ p * \<bar>roundPos p n - n\<bar> \<le> n" by (intro roundPos_error) simp
  moreover have "2 ^ p * (roundPos p n - n) \<le> 2 ^ p * \<bar>roundPos p n - n\<bar>" by (intro mult_left_mono) simp_all
  ultimately have "2 ^ p * (roundPos p n - n) \<le> n" by (rule order_trans[rotated])
  then show ?thesis using \<open>0 \<le> n\<close> by (simp add: roundSig_def)
qed simp


section \<open>The factors for two emulated connections\<close>

lemma beta_2: "nConnectionBeta beta 2 = (2104498125814727503199076352, - 91)"
  and renoBeta_2: "nConnectionBeta renoBeta 2 = (2104498125814727503199076352, - 91)"
  by code_simp+

lemma cu_alpha_2: "cu_numConnections c = 2 \<Longrightarrow> cu_alpha c = (177750169410714952525499130637744388350725324800, - 157)"
proof -
  assume "cu_numConnections c = 2"
  then have "cu_alpha c = cu_alpha NewCubic" by (simp add: cu_alpha_def cu_beta_def NewCubic_def defaultNumConnections_def)
  also have "\<dots> = (177750169410714952525499130637744388350725324800, - 157)" by code_simp
  finally show ?thesis .
qed

text \<open>A window is reduced by a factor of about 0.85.\<close>

lemma backoff_bound:
  assumes "uint w < 2 ^ 24"
  shows "uint (packetNumber_of_float (f_mul (float_of_packetNumber w) (2104498125814727503199076352, - 91))) \<le> uint w"
proof -
  let ?m = "2104498125814727503199076352 :: int"
  have "round32 (uint w) = uint w" using assms by (intro roundSig_exact) simp
  then have eq: "f_trunc (f_mul (float_of_packetNumber w) (?m, - 91)) = round32 (uint w * ?m) div 2 ^ 91"
    using roundSig_nonneg[of "uint w * ?m" 24]
    by (simp add: float_of_packetNumber_def f_of_int_def quot_nonneg)
  have "2 ^ 24 * (round32 (uint w * ?m) - uint w * ?m) \<le> uint w * ?m" by (intro roundSig_error) simp
  then have "round32 (uint w * ?m) \<le> 2104498251252590722861236224 * uint w" by simp
  also have "\<dots> \<le> 2 ^ 91 * uint w" by (intro mult_right_mono) simp_all
  finally have "round32 (uint w * ?m) \<le> uint w * 2 ^ 91" by (simp only: mult.commute)
  then have "round32 (uint w * ?m) div 2 ^ 91 \<le> uint w" using zdiv_mono1[of _ "uint w * 2 ^ 91" "2 ^ 91"] by simp
  moreover have "0 \<le> round32 (uint w * ?m) div 2 ^ 91"
    using roundSig_nonneg[of "uint w * ?m" 24] by (simp add: pos_imp_zdiv_nonneg_iff)
  ultimately show ?thesis unfolding packetNumber_of_float_def eq using assms
    by (simp add: uint_word_of_int_eq take_bit_int_eq_self)
qed

text \<open>The number of acknowledgements that the estimate of a window requires.\<close>

definition requiredAcks :: "PacketNumber \<Rightarrow> PacketNumber" where
  "requiredAcks w = packetNumber_of_float (f_div (float_of_packetNumber w) (177750169410714952525499130637744388350725324800, - 157))"

lemma intbits_alpha: "intbits 177750169410714952525499130637744388350725324800 = 157"
  by code_simp

lemma roundSig_le_pow:
  assumes "0 \<le> n" "n < 2 ^ j" "0 < p"
  shows "roundSig p n \<le> 2 ^ j"
proof (cases "n = 0")
  case False
  then have n: "0 < n" using assms(1) by simp
  have "roundPos p n \<le> 2 ^ intbits n" by (rule roundPos_pow(2)[OF n assms(3)])
  also have "\<dots> \<le> 2 ^ j" using intbits_le[OF assms(2)] by (intro power_increasing) simp_all
  finally show ?thesis using n by (simp add: roundSig_def)
qed simp

lemma requiredAcks_pos:
  assumes "1 \<le> uint w" "uint w < 2 ^ 62"
  shows "0 < requiredAcks w"
proof -
  let ?a = "177750169410714952525499130637744388350725324800 :: int"
  define r where "r = round32 (uint w)"
  define k where "k = r * 2 ^ 221"
  define q where "q = 2 * (k div ?a) + (if k mod ?a = 0 then 0 else 1)"
  have r: "1 \<le> r" "r \<le> 2 ^ 62" unfolding r_def
    using roundSig_ge_pow[of 0 "uint w" 24] roundSig_le_pow[of "uint w" 62 24] assms by simp_all
  have eq: "f_trunc (f_div (float_of_packetNumber w) (?a, - 157)) = quot (round32 q) (2 ^ 65)"
    by (simp add: float_of_packetNumber_def f_of_int_def intbits_alpha Let_def q_def k_def r_def)
  have "2 ^ 64 * ?a \<le> k" unfolding k_def using r(1) by simp
  then have "2 ^ 64 \<le> k div ?a" using zdiv_mono1[of "2 ^ 64 * ?a" k ?a] by simp
  then have "2 ^ 65 \<le> q" unfolding q_def by simp
  then have lo: "2 ^ 65 \<le> round32 q" by (intro roundSig_ge_pow) simp_all
  have "k < 2 ^ 127 * ?a" unfolding k_def using r(2) by simp
  then have "k div ?a < 2 ^ 127" using zdiv_mono1 by (simp add: div_less_iff_less_mult)
  then have "q < 2 ^ 128" unfolding q_def by simp
  then have hi: "round32 q \<le> 2 ^ 128" using \<open>2 ^ 65 \<le> q\<close> by (intro roundSig_le_pow) simp_all
  have "1 \<le> round32 q div 2 ^ 65" using zdiv_mono1[OF lo, of "2 ^ 65"] by simp
  moreover have "round32 q div 2 ^ 65 \<le> 2 ^ 63" using zdiv_mono1[OF hi, of "2 ^ 65"] by simp
  ultimately have "uint (requiredAcks w) = round32 q div 2 ^ 65"
    using lo unfolding requiredAcks_def packetNumber_of_float_def eq
    by (simp add: uint_word_of_int_eq take_bit_int_eq_self quot_nonneg)
  then show ?thesis using \<open>1 \<le> round32 q div 2 ^ 65\<close> by (simp add: word_less_def)
qed


text \<open>The loop ends, since every iteration consumes acknowledgements.\<close>

lemma estimateTCP_ends:
  assumes "1 \<le> uint est" "uint est + uint acked < 2 ^ 62"
  shows "\<exists>est' acked'. estimateTCP (177750169410714952525499130637744388350725324800, - 157) est acked = Some (est', acked') \<and>
    uint est \<le> uint est' \<and> uint est' + uint acked' \<le> uint est + uint acked"
  using assms
proof (induction "unat acked" arbitrary: est acked rule: less_induct)
  case less
  show ?case
  proof (cases "acked < requiredAcks est")
    case True
    then show ?thesis by (subst estimateTCP.simps) (simp add: requiredAcks_def)
  next
    case False
    have est: "uint est < 2 ^ 62" "0 \<le> uint acked" using less.prems(2) uint_ge_0[of acked] by linarith+
    have pos: "0 < requiredAcks est" using requiredAcks_pos[OF less.prems(1) est(1)] .
    have le: "requiredAcks est \<le> acked" using False by simp
    then have acked': "uint (acked - requiredAcks est) = uint acked - uint (requiredAcks est)"
      by (simp add: uint_minus_simple_alt word_le_def)
    have p: "0 < uint (requiredAcks est)" using pos by (simp add: word_less_def)
    have u1: "uint (est + 1) = uint est + 1" using est(1) by (simp add: uint_plus_simple_iff no_olen_add uint_word_ariths)
    have "uint (acked - requiredAcks est) < uint acked" using acked' p by simp
    then have "unat (acked - requiredAcks est) < unat acked" by (simp add: word_less_def[symmetric] word_less_nat_alt)
    from less.hyps[OF this, of "est + 1"] obtain est' a' where
      "estimateTCP (177750169410714952525499130637744388350725324800, - 157) (est + 1) (acked - requiredAcks est) = Some (est', a')"
      "uint est + 1 \<le> uint est'" "uint est' + uint a' \<le> uint est + 1 + (uint acked - uint (requiredAcks est))"
      using u1 acked' p less.prems by auto
    moreover have "estimateTCP (177750169410714952525499130637744388350725324800, - 157) est acked =
        estimateTCP (177750169410714952525499130637744388350725324800, - 157) (est + 1) (acked - requiredAcks est)"
      using False by (subst estimateTCP.simps) (simp add: requiredAcks_def)
    ultimately show ?thesis using p by auto
  qed
qed

section \<open>The window of the sender\<close>

definition cu_ok :: "nat \<Rightarrow> Cubic \<Rightarrow> bool" where
  "cu_ok n c \<longleftrightarrow> cu_numConnections c = 2 \<and>
     uint (cu_estimatedTCPcongestionWindow c) + uint (cu_ackedPacketsCount c) \<le> 2 ^ 20 + int n \<and>
     (cu_epoch c \<noteq> zero_time \<or> cu_lastCongestionWindow c \<noteq> 0 \<longrightarrow> 2 \<le> uint (cu_estimatedTCPcongestionWindow c))"

definition cubic_ok :: "nat \<Rightarrow> cubicSender \<Rightarrow> bool" where
  "cubic_ok n c \<longleftrightarrow> cs_minCongestionWindow c = 2 \<and> 2 \<le> uint (cs_congestionWindow c) \<and>
     cs_congestionWindow c \<le> cs_initialMaxCongestionWindow c \<and> uint (cs_initialMaxCongestionWindow c) < 2 ^ 20 \<and>
     cs_maxTCPCongestionWindow c = cs_initialMaxCongestionWindow c \<and> 2 \<le> uint (cs_initialCongestionWindow c) \<and>
     cs_initialCongestionWindow c \<le> cs_initialMaxCongestionWindow c \<and> cs_numConnections c = 2 \<and> cu_ok n (cs_cubic c)"

lemma cu_ok_more: "cu_ok n c \<Longrightarrow> n \<le> m \<Longrightarrow> cu_ok m c"
  by (simp add: cu_ok_def)

lemma cu_ok_limited: "cu_ok n c \<Longrightarrow> cu_ok n (OnApplicationLimited now c)"
  by (simp add: cu_ok_def OnApplicationLimited_def)

lemma cu_ok_reset: "cu_ok n c \<Longrightarrow> cu_ok n (cu_Reset c)"
  by (simp add: cu_ok_def cu_Reset_def)

lemma cu_ok_lost: "cu_ok n c \<Longrightarrow> cu_ok n (snd (CongestionWindowAfterPacketLoss c w))"
  by (simp add: cu_ok_def CongestionWindowAfterPacketLoss_def Let_def)

lemma startEpoch_ok:
  assumes "cu_ok n c" "2 \<le> uint w" "uint w < 2 ^ 20" "0 < n"
  shows "cu_ok n ((startEpoch now (c\<lparr>cu_lastCongestionWindow := w, cu_lastUpdateTime := t\<rparr>) w))"
    "2 \<le> uint (cu_estimatedTCPcongestionWindow (startEpoch now (c\<lparr>cu_lastCongestionWindow := w, cu_lastUpdateTime := t\<rparr>) w))"
  using assms unfolding startEpoch_def cu_ok_def by (auto simp: Let_def)

lemma uint_inc: "uint (x :: u64) + 1 < 2 ^ 64 \<Longrightarrow> uint (x + 1) = uint x + 1"
  by (simp add: uint_word_ariths)

lemma uint_max: "uint (max a b) = max (uint a) (uint b)"
  by (simp add: max_def word_le_def)

lemma CongestionWindowAfterAck_ok:
  assumes ok: "cu_ok n c" and n: "n < 2 ^ 40" and w: "2 \<le> uint w" "uint w < 2 ^ 20"
  shows "\<exists>w' c'. CongestionWindowAfterAck now c w d = Some (w', c') \<and> cu_ok (Suc n) c' \<and> 2 \<le> uint w'"
proof -
  define c1 where "c1 = c\<lparr>cu_ackedPacketsCount := cu_ackedPacketsCount c + 1\<rparr>"
  have n': "int n < 2 ^ 40" using n by (metis of_nat_less_iff of_nat_numeral of_nat_power)
  have "uint (cu_ackedPacketsCount c) \<le> 2 ^ 20 + int n"
    using ok uint_ge_0[of "cu_estimatedTCPcongestionWindow c"] unfolding cu_ok_def by linarith
  then have "uint (cu_ackedPacketsCount c + 1) = uint (cu_ackedPacketsCount c) + 1" using n' by (intro uint_inc) simp
  then have c1: "cu_ok (Suc n) c1" using ok by (simp add: cu_ok_def c1_def)
  show ?thesis
  proof (cases "cu_lastCongestionWindow c1 = w \<and> time_sub now (cu_lastUpdateTime c1) \<le> maxCubicTimeInterval")
    case True
    then have "cu_lastCongestionWindow c1 \<noteq> 0" using w by auto
    then have "2 \<le> uint (cu_estimatedTCPcongestionWindow c1)" using c1 by (simp add: cu_ok_def)
    then have "2 \<le> uint (MaxPacketNumber (cu_lastTargetCongestionWindow c1) (cu_estimatedTCPcongestionWindow c1))"
      by (simp add: uint_max)
    then show ?thesis using True c1 by (simp add: CongestionWindowAfterAck_def c1_def[symmetric] Let_def)
  next
    case False
    define c2 where "c2 = startEpoch now (c1\<lparr>cu_lastCongestionWindow := w, cu_lastUpdateTime := now\<rparr>) w"
    have c2: "cu_ok (Suc n) c2" "2 \<le> uint (cu_estimatedTCPcongestionWindow c2)"
      unfolding c2_def by (rule startEpoch_ok[OF c1 w], simp)+
    have "uint (cu_estimatedTCPcongestionWindow c2) + uint (cu_ackedPacketsCount c2) < 2 ^ 62"
      using c2(1) n' by (simp add: cu_ok_def)
    with estimateTCP_ends[of "cu_estimatedTCPcongestionWindow c2" "cu_ackedPacketsCount c2"] c2(2)
    obtain est acked where e: "estimateTCP (cu_alpha c2) (cu_estimatedTCPcongestionWindow c2) (cu_ackedPacketsCount c2) = Some (est, acked)"
      and b: "uint (cu_estimatedTCPcongestionWindow c2) \<le> uint est"
        "uint est + uint acked \<le> uint (cu_estimatedTCPcongestionWindow c2) + uint (cu_ackedPacketsCount c2)"
      using cu_alpha_2[of c2] c2(1) by (auto simp: cu_ok_def)
    let ?t = "cubicTarget now c2 d"
    let ?c = "c2\<lparr>cu_estimatedTCPcongestionWindow := est, cu_ackedPacketsCount := acked, cu_lastTargetCongestionWindow := ?t\<rparr>"
    have "CongestionWindowAfterAck now c w d = Some (if ?t < est then est else ?t, ?c)"
      using e unfolding CongestionWindowAfterAck_def Let_def c1_def[symmetric] if_not_P[OF False] c2_def[symmetric] by simp
    moreover have "cu_ok (Suc n) ?c" using c2 b by (auto simp: cu_ok_def)
    moreover have "2 \<le> uint (if ?t < est then est else ?t)" using b(1) c2(2) by (auto simp: word_less_def)
    ultimately show ?thesis by blast
  qed
qed


lemma uint_dec: "1 \<le> uint (x :: u64) \<Longrightarrow> uint (x - 1) = uint x - 1"
  using uint_minus_simple_alt[of 1 x] by (simp add: word_le_def)

lemma cubic_ok_sent: "cubic_ok n c \<Longrightarrow> cubic_ok n (snd (cs_OnPacketSent c pn len r))"
  by (auto simp: cubic_ok_def cs_OnPacketSent_def Let_def)

lemma cubic_ok_exit: "cubic_ok n c \<Longrightarrow> cubic_ok n (cs_MaybeExitSlowStart r c)"
  by (auto simp: cubic_ok_def cs_MaybeExitSlowStart_def cs_ExitSlowstart_def Let_def split: prod.splits)

lemma cubic_ok_timeout: "cubic_ok n c \<Longrightarrow> cubic_ok n (cs_OnRetransmissionTimeout r c)"
  by (auto simp: cubic_ok_def cs_OnRetransmissionTimeout_def Let_def cu_ok_reset word_le_def)

lemma cubic_ok_increase:
  assumes ok: "cubic_ok n c" and n: "n < 2 ^ 40"
  shows "\<exists>c'. cs_maybeIncreaseCwnd now r c b = Some c' \<and> cubic_ok (Suc n) c'"
proof -
  let ?w = "cs_congestionWindow c"
  have w: "2 \<le> uint ?w" "uint ?w < 2 ^ 20" "uint ?w \<le> uint (cs_maxTCPCongestionWindow c)"
    using ok by (auto simp: cubic_ok_def word_le_def)
  have ok': "cubic_ok (Suc n) c" using ok by (auto simp: cubic_ok_def intro: cu_ok_more)
  have inc: "uint (?w + 1) = uint ?w + 1" using w by (intro uint_inc) simp
  consider (idle) "\<not> cs_isCwndLimited c b" | (full) "cs_isCwndLimited c b" "?w \<ge> cs_maxTCPCongestionWindow c"
    | (slow) "cs_isCwndLimited c b" "\<not> ?w \<ge> cs_maxTCPCongestionWindow c" "cs_InSlowStart c \<or> cs_reno c"
    | (cubic) "cs_isCwndLimited c b" "\<not> ?w \<ge> cs_maxTCPCongestionWindow c" "\<not> cs_InSlowStart c" "\<not> cs_reno c" by blast
  then show ?thesis
  proof cases
    case idle
    then show ?thesis using ok' by (simp add: cs_maybeIncreaseCwnd_def cubic_ok_def cu_ok_limited)
  next
    case full
    then show ?thesis using ok' by (simp add: cs_maybeIncreaseCwnd_def)
  next
    case slow
    then show ?thesis using ok' inc by (auto simp: cs_maybeIncreaseCwnd_def cubic_ok_def Let_def word_le_def)
  next
    case cubic
    obtain w' u where "CongestionWindowAfterAck now (cs_cubic c) ?w (rtt_minRTT r) = Some (w', u)" "cu_ok (Suc n) u" "2 \<le> uint w'"
      using CongestionWindowAfterAck_ok[OF _ n w(1,2), of "cs_cubic c" now "rtt_minRTT r"] ok by (auto simp: cubic_ok_def)
    moreover have "2 \<le> uint (min (cs_maxTCPCongestionWindow c) w')" using \<open>2 \<le> uint w'\<close> w by (simp add: min_def)
    ultimately show ?thesis using cubic ok' by (simp add: cs_maybeIncreaseCwnd_def cubic_ok_def)
  qed
qed

lemma cubic_ok_acked:
  assumes ok: "cubic_ok n c" and n: "n < 2 ^ 40"
  shows "\<exists>c'. cs_OnPacketAcked now r pn len b c = Some c' \<and> cubic_ok (Suc n) c'"
proof -
  define c1 where "c1 = c\<lparr>cs_largestAckedPacketNumber := MaxPacketNumber pn (cs_largestAckedPacketNumber c)\<rparr>"
  have c1: "cubic_ok n c1" using ok by (simp add: cubic_ok_def c1_def)
  have more: "cubic_ok (Suc n) c1" using c1 by (auto simp: cubic_ok_def intro: cu_ok_more)
  obtain c2 where "cs_maybeIncreaseCwnd now r c1 b = Some c2" "cubic_ok (Suc n) c2" using cubic_ok_increase[OF c1 n] by blast
  then show ?thesis using more unfolding cs_OnPacketAcked_def Let_def c1_def[symmetric] by (simp add: cubic_ok_def)
qed

lemma cubic_ok_lost: "cubic_ok n c \<Longrightarrow> cubic_ok n (cs_OnPacketLost pn len b c)"
proof (cases "pn \<le> cs_largestSentAtLastCutback c")
  case True
  assume ok: "cubic_ok n c"
  then have d: "uint (cs_congestionWindow c - 1) = uint (cs_congestionWindow c) - 1"
    by (intro uint_dec) (simp add: cubic_ok_def)
  show ?thesis using True ok d
    by (auto simp: cs_OnPacketLost_def cs_lostBeforeCutback_def cubic_ok_def Let_def word_le_def uint_max)
next
  case False
  assume ok: "cubic_ok n c"
  let ?w = "cs_congestionWindow c"
  have w: "2 \<le> uint ?w" "uint ?w < 2 ^ 20" "uint ?w \<le> uint (cs_maxTCPCongestionWindow c)"
    using ok by (auto simp: cubic_ok_def word_le_def)
  define w' where "w' = (if cs_slowStartLargeReduction c \<and> cs_InSlowStart c then ?w - 1
    else packetNumber_of_float (f_mul (float_of_packetNumber ?w) (2104498125814727503199076352, - 91)))"
  define cu' where "cu' = (if cs_slowStartLargeReduction c \<and> cs_InSlowStart c \<or> cs_reno c then cs_cubic c
    else snd (CongestionWindowAfterPacketLoss (cs_cubic c) ?w))"
  have cu': "cu_ok n cu'" using ok cu_ok_lost by (simp add: cubic_ok_def cu'_def)
  have "uint w' \<le> uint ?w" unfolding w'_def using backoff_bound[of ?w] uint_dec[of ?w] w by auto
  have c': "cs_congestionWindow (cs_OnPacketLost pn len b c) = (if w' < 2 then 2 else w')"
    "cs_cubic (cs_OnPacketLost pn len b c) = cu'"
    "cs_minCongestionWindow (cs_OnPacketLost pn len b c) = 2"
    "cs_maxTCPCongestionWindow (cs_OnPacketLost pn len b c) = cs_maxTCPCongestionWindow c"
    "cs_numConnections (cs_OnPacketLost pn len b c) = 2"
    "cs_initialMaxCongestionWindow (cs_OnPacketLost pn len b c) = cs_initialMaxCongestionWindow c"
    "cs_initialCongestionWindow (cs_OnPacketLost pn len b c) = cs_initialCongestionWindow c"
    using False ok unfolding cs_OnPacketLost_def Let_def w'_def cu'_def cubic_ok_def cu_ok_def
    by (simp_all add: cs_InSlowStart_def cs_GetCongestionWindow_def cs_GetSlowStartThreshold_def cs_RenoBeta_def renoBeta_2
      CongestionWindowAfterPacketLoss_def Let_def cu_beta_def beta_2)
  have "uint (cs_maxTCPCongestionWindow c) < 2 ^ 20" "cs_maxTCPCongestionWindow c = cs_initialMaxCongestionWindow c"
    "2 \<le> uint (cs_initialCongestionWindow c)" "cs_initialCongestionWindow c \<le> cs_initialMaxCongestionWindow c"
    using ok by (simp_all add: cubic_ok_def)
  with c' show ?thesis using cu' \<open>uint w' \<le> uint ?w\<close> w unfolding cubic_ok_def by (auto simp: word_le_def word_less_def)
qed

lemma cubic_ok_window: "cubic_ok n c \<Longrightarrow> 2920 \<le> cs_GetCongestionWindow c"
proof -
  assume "cubic_ok n c"
  then have w: "2 \<le> uint (cs_congestionWindow c)" "uint (cs_congestionWindow c) < 2 ^ 20" by (auto simp: cubic_ok_def word_le_def)
  then have "uint (cs_congestionWindow c * DefaultTCPMSS) = uint (cs_congestionWindow c) * 1460"
    by (simp add: DefaultTCPMSS_def uint_word_ariths)
  then show ?thesis using w(1) by (simp add: cs_GetCongestionWindow_def word_le_def)
qed

interpretation cubic: congestion_controller cubic_algorithm cubic_ok "2 ^ 40" 2920
proof unfold_locales
  fix n c now b pn len r retransmitted and rttStats :: RTTStats
  assume ok: "cubic_ok n c"
  show "cubic_ok n (OnPacketSent cubic_algorithm now b pn len r c)" "cubic_ok n (MaybeExitSlowStart cubic_algorithm rttStats c)"
    "cubic_ok n (OnPacketLost cubic_algorithm pn len b c)" "cubic_ok n (OnRetransmissionTimeout cubic_algorithm retransmitted c)"
    "2920 \<le> GetCongestionWindow cubic_algorithm c"
    by (simp_all add: cubic_algorithm_def cubic_ok_sent[OF ok] cubic_ok_exit[OF ok] cubic_ok_lost[OF ok]
      cubic_ok_timeout[OF ok] cubic_ok_window[OF ok])
  show "cubic_ok m c" if "n \<le> m" for m using ok that by (auto simp: cubic_ok_def intro: cu_ok_more)
  assume "n < 2 ^ 40"
  then obtain c' where "cs_OnPacketAcked now rttStats pn len b c = Some c'" "cubic_ok (Suc n) c'" using cubic_ok_acked[OF ok] by blast
  then show "cubic_ok (Suc n) (OnPacketAcked cubic_algorithm now rttStats pn len b c)" by (simp add: cubic_algorithm_def)
qed

section \<open>Runs of the sender\<close>

text \<open>A run of a sender that was created with the initial window \<open>i\<close> and the largest window \<open>m\<close>. \<open>n\<close> is the number of
  acknowledgements. The number of emulated connections is the default; no code changes it.\<close>

inductive cubic_run :: "PacketNumber \<Rightarrow> PacketNumber \<Rightarrow> nat \<Rightarrow> cubicSender \<Rightarrow> bool" for i m where
  cubic_new: "cubic_run i m 0 (NewCubicSender reno i m)"
| cubic_sent: "cubic_run i m n c \<Longrightarrow> cubic_run i m n (snd (cs_OnPacketSent c pn len isRetransmittable))"
| cubic_exit: "cubic_run i m n c \<Longrightarrow> cubic_run i m n (cs_MaybeExitSlowStart rttStats c)"
| cubic_acked: "cubic_run i m n c \<Longrightarrow> cs_OnPacketAcked now rttStats pn len b c = Some c' \<Longrightarrow> cubic_run i m (Suc n) c'"
| cubic_lost: "cubic_run i m n c \<Longrightarrow> cubic_run i m n (cs_OnPacketLost pn len b c)"
| cubic_timeout: "cubic_run i m n c \<Longrightarrow> cubic_run i m n (cs_OnRetransmissionTimeout retransmitted c)"
| cubic_migration: "cubic_run i m n c \<Longrightarrow> cubic_run i m n (cs_OnConnectionMigration c)"
| cubic_reduction: "cubic_run i m n c \<Longrightarrow> cubic_run i m n (cs_SetSlowStartLargeReduction enabled c)"

lemma cubic_ok_new: "2 \<le> uint i \<Longrightarrow> i \<le> m \<Longrightarrow> uint m < 2 ^ 20 \<Longrightarrow> cubic_ok 0 (NewCubicSender reno i m)"
  by (simp add: cubic_ok_def NewCubicSender_def defaultMinimumCongestionWindow_def defaultNumConnections_def cu_ok_def NewCubic_def)

lemma cubic_ok_migration: "cubic_ok n c \<Longrightarrow> cubic_ok n (cs_OnConnectionMigration c)"
  by (simp add: cubic_ok_def cs_OnConnectionMigration_def cu_ok_reset)

lemma cubic_ok_reduction: "cubic_ok n c \<Longrightarrow> cubic_ok n (cs_SetSlowStartLargeReduction enabled c)"
  by (simp add: cubic_ok_def cs_SetSlowStartLargeReduction_def)

text \<open>No operation changes the largest window.\<close>

lemma cs_initialMax [simp]:
  "cs_initialMaxCongestionWindow (NewCubicSender reno i m) = m"
  "cs_initialMaxCongestionWindow (snd (cs_OnPacketSent c pn len isRetransmittable)) = cs_initialMaxCongestionWindow c"
  "cs_initialMaxCongestionWindow (cs_MaybeExitSlowStart rttStats c) = cs_initialMaxCongestionWindow c"
  "cs_initialMaxCongestionWindow (cs_OnPacketLost pn len b c) = cs_initialMaxCongestionWindow c"
  "cs_initialMaxCongestionWindow (cs_OnRetransmissionTimeout retransmitted c) = cs_initialMaxCongestionWindow c"
  "cs_initialMaxCongestionWindow (cs_OnConnectionMigration c) = cs_initialMaxCongestionWindow c"
  "cs_initialMaxCongestionWindow (cs_SetSlowStartLargeReduction enabled c) = cs_initialMaxCongestionWindow c"
  by (simp_all add: NewCubicSender_def cs_OnPacketSent_def cs_MaybeExitSlowStart_def cs_ExitSlowstart_def cs_OnPacketLost_def
    cs_lostBeforeCutback_def cs_OnRetransmissionTimeout_def cs_OnConnectionMigration_def cs_SetSlowStartLargeReduction_def
    Let_def case_prod_beta)

lemma cs_initialMax_acked:
  "cs_OnPacketAcked now rttStats pn len b c = Some c' \<Longrightarrow> cs_initialMaxCongestionWindow c' = cs_initialMaxCongestionWindow c"
  by (auto simp: cs_OnPacketAcked_def cs_maybeIncreaseCwnd_def Let_def split: if_splits option.splits)

lemma cubic_run_ok:
  "cubic_run i m n c \<Longrightarrow> 2 \<le> uint i \<Longrightarrow> i \<le> m \<Longrightarrow> uint m < 2 ^ 20 \<Longrightarrow> n \<le> 2 ^ 40
   \<Longrightarrow> cubic_ok n c \<and> cs_initialMaxCongestionWindow c = m"
proof (induction rule: cubic_run.induct)
  case (cubic_acked n c now rttStats pn len b c')
  then have "cubic_ok n c" "n < 2 ^ 40" by simp_all
  from cubic_ok_acked[OF this, of now rttStats pn len b] cubic_acked show ?case by (auto simp: cs_initialMax_acked)
qed (simp_all add: cubic_ok_new cubic_ok_sent cubic_ok_exit cubic_ok_lost cubic_ok_timeout cubic_ok_migration cubic_ok_reduction)

section \<open>The reduction of the window\<close>

text \<open>A number of 24 bits that lies below a positive number lies below its rounded value.\<close>

lemma roundPos_ge:
  assumes "0 < n" "a * 2 ^ k \<le> n" "n < 2 ^ (k + p)"
  shows "a * 2 ^ k \<le> roundPos p n"
proof -
  define e where "e = intbits n - p"
  have "e \<le> k" using intbits_le[of n "k + p"] assms(3) by (simp add: e_def)
  then have k: "(2::int) ^ k = 2 ^ (k - e) * 2 ^ e" by (simp flip: power_add)
  have "a * 2 ^ (k - e) \<le> n div 2 ^ e"
    using zdiv_mono1[of "(a * 2 ^ (k - e)) * 2 ^ e" n "2 ^ e"] assms(2) k by (simp add: mult.assoc)
  then have "a * 2 ^ (k - e) * 2 ^ e \<le> n div 2 ^ e * 2 ^ e" by (intro mult_right_mono) simp_all
  also have "\<dots> \<le> roundPos p n" by (simp add: roundPos_def Let_def e_def algebra_simps)
  finally show ?thesis by (simp add: k mult.assoc)
qed

text \<open>The floating-point product is the exact one.\<close>

lemma backoff_exact:
  assumes "uint w < 2 ^ 19"
  shows "uint (packetNumber_of_float (f_mul (float_of_packetNumber w) (2104498125814727503199076352, - 91))) = 17 * uint w div 20"
proof (cases "w = 0")
  case False
  let ?m = "2104498125814727503199076352 :: int" and ?N = "17 * uint w div 20"
  have w: "0 < uint w" using False uint_ge_0[of w] by (metis order_le_less uint_0_iff)
  have "round32 (uint w) = uint w" using assms by (intro roundSig_exact) simp
  then have eq: "f_trunc (f_mul (float_of_packetNumber w) (?m, - 91)) = round32 (uint w * ?m) div 2 ^ 91"
    using roundSig_nonneg[of "uint w * ?m" 24]
    by (simp add: float_of_packetNumber_def f_of_int_def quot_nonneg)
  have N: "20 * ?N \<le> 17 * uint w" "17 * uint w + 1 \<le> 20 * (?N + 1)" by simp_all
  have "?N * 2 ^ 91 \<le> uint w * ?m" using N(1) w by simp
  moreover have "uint w * ?m < 2 ^ (91 + 24)" using assms by simp
  ultimately have lo: "?N * 2 ^ 91 \<le> round32 (uint w * ?m)"
    using roundPos_ge[of "uint w * ?m" ?N 91 24] w by (simp add: roundSig_def)
  have "2 ^ 24 * (round32 (uint w * ?m) - uint w * ?m) \<le> uint w * ?m" by (intro roundSig_error) simp
  then have hi: "round32 (uint w * ?m) < (?N + 1) * 2 ^ 91" using N(2) assms by simp
  have "round32 (uint w * ?m) div 2 ^ 91 = ?N"
    using lo hi by (intro int_div_pos_eq[where r = "round32 (uint w * ?m) - ?N * 2 ^ 91"]) (simp_all add: algebra_simps)
  then show ?thesis unfolding packetNumber_of_float_def eq using assms w
    by (simp add: uint_word_of_int_eq take_bit_int_eq_self)
qed (simp add: float_of_packetNumber_def f_of_int_def packetNumber_of_float_def quot_def)

section \<open>The cubic function\<close>










section \<open>Properties\<close>

text \<open>C35. The processing of an acknowledgement by the sender returns. The loop that follows the window of TCP Reno has no bound in
  the code; it ends since every iteration consumes acknowledgements, as long as the window is positive. This holds after every run
  with fewer than \<open>2 ^ 40\<close> acknowledgements of a sender whose initial window has at least two packets, is not larger than
  the largest window, and that is below \<open>2 ^ 20\<close> packets; and the window of the result is within its bounds again.\<close>

theorem cubic_acknowledgement_returns:
  assumes "cubic_run i m n c" "2 \<le> uint i" "i \<le> m" "uint m < 2 ^ 20" "n < 2 ^ 40"
  shows "\<exists>c'. cs_OnPacketAcked now rttStats pn len b c = Some c' \<and> 2 \<le> cs_congestionWindow c' \<and> cs_congestionWindow c' \<le> m"
proof -
  have "cubic_ok n c" "cs_initialMaxCongestionWindow c = m" using cubic_run_ok[OF assms(1-4)] assms(5) by simp_all
  from cubic_ok_acked[OF this(1) assms(5), of now rttStats pn len b] this(2) show ?thesis
    by (auto simp: cubic_ok_def word_le_def cs_initialMax_acked)
qed

theorem cubic_acknowledgement_returns_witness:
  "\<exists>c'. cs_OnPacketAcked 5 NewRTTStats 1 100 40000 (cs_OnPacketLost 1 100 40000 (NewCubicSender False 32 2500)) = Some c'
     \<and> 2 \<le> cs_congestionWindow c' \<and> cs_congestionWindow c' \<le> 2500"
  using cubic_acknowledgement_returns[OF cubic_lost[OF cubic_new]] by simp

text \<open>C36. The congestion window has at least two packets and at most the largest window, after every run of a sender with fewer than
  \<open>2 ^ 40\<close> acknowledgements, whatever is sent, acknowledged, lost and timed out; its size in bytes does not wrap around.
  The initial and the largest window are as above.\<close>

theorem cubic_window_bounds:
  assumes "cubic_run i m n c" "2 \<le> uint i" "i \<le> m" "uint m < 2 ^ 20" "n \<le> 2 ^ 40"
  shows "2 \<le> cs_congestionWindow c \<and> cs_congestionWindow c \<le> m
    \<and> unat (cs_GetCongestionWindow c) = 1460 * unat (cs_congestionWindow c)"
proof -
  have ok: "cubic_ok n c" "cs_initialMaxCongestionWindow c = m" using cubic_run_ok[OF assms] by simp_all
  then have w: "uint (cs_congestionWindow c) < 2 ^ 20" by (auto simp: cubic_ok_def word_le_def)
  then have u: "uint (cs_GetCongestionWindow c) = 1460 * uint (cs_congestionWindow c)"
    by (simp add: cs_GetCongestionWindow_def DefaultTCPMSS_def uint_word_ariths)
  have "int (unat (cs_GetCongestionWindow c)) = int (1460 * unat (cs_congestionWindow c))"
    unfolding of_nat_mult using u by simp
  then have "unat (cs_GetCongestionWindow c) = 1460 * unat (cs_congestionWindow c)" by (rule of_nat_eq_iff[THEN iffD1])
  moreover have "2 \<le> cs_congestionWindow c" "cs_congestionWindow c \<le> m" using ok by (simp_all add: cubic_ok_def word_le_def)
  ultimately show ?thesis by blast
qed

theorem cubic_window_bounds_witness:
  "2 \<le> cs_congestionWindow (cs_OnRetransmissionTimeout True (NewCubicSender False 32 2500))
   \<and> cs_congestionWindow (cs_OnRetransmissionTimeout True (NewCubicSender False 32 2500)) \<le> 2500"
  using cubic_window_bounds[OF cubic_timeout[OF cubic_new]] by simp

text \<open>C37. A loss event reduces the window to 17/20, rounded down, but not below two packets: the product of 32-bit floating-point
  numbers is the exact one for windows below \<open>2 ^ 19\<close> packets. The slow start threshold becomes the new window. The loss of
  packets that were sent before belongs to the same event and does not change the window again. This is with Reno and with
  CUBIC, unless the large reduction of slow start is enabled.\<close>

theorem loss_event_reduces_window:
  assumes "cubic_run i m n c" "2 \<le> uint i" "i \<le> m" "uint m < 2 ^ 19" "n \<le> 2 ^ 40"
    and "\<not> cs_slowStartLargeReduction c" "cs_largestSentAtLastCutback c < pn"
  shows "let c' = cs_OnPacketLost pn len b c in
      uint (cs_congestionWindow c') = max 2 (17 * uint (cs_congestionWindow c) div 20)
    \<and> cs_slowstartThreshold c' = cs_congestionWindow c'
    \<and> (\<forall>pn' len' b'. pn' \<le> cs_largestSentPacketNumber c \<longrightarrow>
         cs_congestionWindow (cs_OnPacketLost pn' len' b' c') = cs_congestionWindow c')"
proof -
  have ok: "cubic_ok n c" "cs_initialMaxCongestionWindow c = m" using cubic_run_ok[OF assms(1-3)] assms(4,5) by simp_all
  then have w: "uint (cs_congestionWindow c) < 2 ^ 19" using assms(4) by (auto simp: cubic_ok_def word_le_def)
  define c' where "c' = cs_OnPacketLost pn len b c"
  define w' where "w' = packetNumber_of_float (f_mul (float_of_packetNumber (cs_congestionWindow c)) (2104498125814727503199076352, - 91))"
  have "\<not> pn \<le> cs_largestSentAtLastCutback c" using assms(7) by simp
  then have c': "cs_congestionWindow c' = (if w' < 2 then 2 else w')" "cs_slowstartThreshold c' = cs_congestionWindow c'"
    "cs_largestSentAtLastCutback c' = cs_largestSentPacketNumber c" "\<not> cs_slowStartLargeReduction c'"
    using assms(6) ok(1) unfolding c'_def cs_OnPacketLost_def Let_def w'_def cubic_ok_def cu_ok_def
    by (simp_all add: cs_RenoBeta_def renoBeta_2 CongestionWindowAfterPacketLoss_def Let_def cu_beta_def beta_2)
  have "uint (cs_congestionWindow c') = max 2 (17 * uint (cs_congestionWindow c) div 20)"
    unfolding c'(1) backoff_exact[OF w, symmetric] w'_def[symmetric] by (auto simp: word_less_def)
  moreover have "cs_congestionWindow (cs_OnPacketLost pn' len' b' c') = cs_congestionWindow c'"
    if "pn' \<le> cs_largestSentPacketNumber c" for pn' len' b'
    using that c'(3,4) by (simp add: cs_OnPacketLost_def cs_lostBeforeCutback_def Let_def)
  ultimately show ?thesis using c'(2) unfolding c'_def[symmetric] by simp
qed

theorem loss_event_reduces_window_witness:
  "uint (cs_congestionWindow (cs_OnPacketLost 1 100 40000 (NewCubicSender False 32 2500))) = 27"
proof -
  have "cs_congestionWindow (NewCubicSender False 32 2500) = 32" "\<not> cs_slowStartLargeReduction (NewCubicSender False 32 2500)"
    "cs_largestSentAtLastCutback (NewCubicSender False 32 2500) < 1" by (simp_all add: NewCubicSender_def)
  then show ?thesis using loss_event_reduces_window[OF cubic_new, of 32 2500 False 1 100 40000] by (simp add: Let_def)
qed



end
