(* ===== verification/Spec2Isabelle.thy ===== *)
theory Spec2Isabelle
  imports Stream_Sorter Flow_Control Cubic_Sender
begin

text \<open>
  A verification library for the multipath QUIC implementation under
  \<^verbatim>\<open>src/mpquic-go/src/github/lucas-clemente/quic-go\<close>; file names below are relative to it.

  \<^bold>\<open>The program.\<close> A session exchanges UDP packets on one or several paths. A packet has a public header, whose packet number is
  truncated, and encrypted frames. On the way in, the unpacker decrypts a packet and parses its frames; the received packet handler of
  the path remembers its number and builds ACK frames; stream frames go to the sorter of their stream, and the flow control manager checks that the
  peer stays within its windows. On the way out, the packer writes frames into packets within the flow control windows, and the sent
  packet handler of the path keeps the packets until they are acknowledged, finds losses with the round-trip statistics, and asks the
  congestion controller whether the path may send.

  \<^bold>\<open>The theories.\<close> Every operation is a function with the name it has in the code, prefixed where names clash (\<open>rp_\<close>, \<open>sp_\<close>, \<open>fm_\<close>, \<open>so_\<close>, \<open>cs_\<close> for the
  methods of a type). State is a record that is passed and returned, and errors and panics are values of a sum type.
  \<^item> \<open>Quic_Prelude\<close>: the types, results with the errors and \<^verbatim>\<open>Panic\<close>, times and durations in nanoseconds with the wrap-around of
    \<^verbatim>\<open>int64\<close>, and shared lemmas on words and lists.
  \<^item> \<open>Byte_Order\<close> (\<^verbatim>\<open>internal/utils\<close>): readers and writers of both byte orders, which are the two instances of the locale \<open>byte_order\<close>, and the
    16-bit float of ACK delays.
  \<^item> \<open>Protocol_Numbers\<close> (\<^verbatim>\<open>internal/protocol/packet_number.go\<close>, \<^verbatim>\<open>version.go\<close>, \<^verbatim>\<open>packet_number_generator.go\<close>): choice of the length of a packet
    number, its inference, and the generator that skips numbers.
  \<^item> \<open>Wire_Frames\<close>, \<open>Stream_Frame\<close>, \<open>Ack_Blocks\<close>, \<open>Ack_Frame\<close> (\<^verbatim>\<open>internal/wire\<close>): structure, writer, length and parser of every frame. All
    of them are instances of the locale \<open>frame_codec\<close>: what is written is read back, and parsers consume input.
  \<^item> \<open>Public_Header\<close> and \<open>Packet_Unpacker\<close> (\<^verbatim>\<open>internal/wire/public_header.go\<close>, \<^verbatim>\<open>version_negotiation.go\<close>, \<^verbatim>\<open>packet_unpacker.go\<close>): headers, the
    dispatch on type bytes, and the loop over the frames, composed with the codecs.
  \<^item> \<open>Received_Packets\<close> (\<^verbatim>\<open>ackhandler/received_packet_*.go\<close>, \<^verbatim>\<open>stop_waiting_manager.go\<close>): the history of intervals, an instance of the
    locale \<open>packet_history\<close> with sets of numbers as its abstract state, and the handler that decides when to acknowledge.
  \<^item> \<open>Stream_Sorter\<close> (\<^verbatim>\<open>stream_frame_sorter.go\<close>): the reassembly of a stream from frames that overlap and arrive in any order.
  \<^item> \<open>Rtt_Stats\<close> (\<^verbatim>\<open>congestion/rtt_stats.go\<close>): minima over windows and the smoothed round-trip time, with the rounding of \<^verbatim>\<open>float32\<close>.
  \<^item> \<open>Connection_Parameters\<close> and \<open>Flow_Control\<close> (\<^verbatim>\<open>internal/handshake/connection_parameters_manager.go\<close>, \<^verbatim>\<open>internal/flowcontrol\<close>):
    negotiation, the controllers of streams and of the connection, and window updates; the locale \<open>counter\<close> is the accounting that
    the counters of bytes sent, retransmitted and read share.
  \<^item> \<open>Sent_Packets\<close> (\<^verbatim>\<open>ackhandler/sent_packet_handler.go\<close>, \<^verbatim>\<open>packet.go\<close>): packets in flight, loss detection, alarms and the retransmission queue,
    for any congestion controller behind \<^verbatim>\<open>congestion/interface.go\<close>.
  \<^item> \<open>Congestion_Control\<close> and \<open>Cubic_Sender\<close> (\<^verbatim>\<open>congestion/\<close>): the contract of a controller as the locale \<open>congestion_controller\<close>, and
    hybrid slow start, proportional rate reduction, CUBIC and the sender, which is shown to meet the contract.
  \<^item> This theory: the properties across components.

  \<^bold>\<open>What is shown.\<close> Parsing: no bytes make the parsers panic, what is written is read back, what is accepted is
  well-formed, and the exact inputs on which writers and parsers disagree or fail. Numbers: the truncated packet number is
  recovered under stated conditions on the traffic, float rounding of delays is bounded, and a fresh generator
  never skips. Receiving: an ACK frame reports exactly the recorded packets and is sent in time, and the sorter
  delivers the stream without loss, duplication or reordering, except that a FIN bit can come early. Sending:
  no tracked packet is forgotten, an ACK settles exactly the packets it covers and queues exactly the lost ones, and a retransmission alarm
  makes progress. Flow control: windows are respected, accounted for and reopened, and follow the negotiation. Round-trip
  times: minima and smoothed values are those of an exact computation. Congestion: the CUBIC sender ends its computations,
  keeps its window within bounds, reduces it by a fixed factor once per loss event, follows the cubic function,
  and lets a nearly idle path send. Across the wire: what the receiver has recorded is what the sender takes as acknowledged.

  \<^bold>\<open>Runs and the obligations of the session.\<close> The invariants are about all states that are reached by the inductive relations
  \<open>handler_run\<close>, \<open>sorter_run\<close>, \<open>rtt_run\<close>, \<open>flow_run\<close>, \<open>sent_run\<close> and \<open>cubic_run\<close>, whose rules are the operations in any order and with any
  arguments. What the session owes to a component is a premise of the rule: \<open>flow_run\<close> sends no more than \<^verbatim>\<open>SendWindowSize\<close> returns, reads only
  what was received and stops at the first reported violation; \<open>handler_run\<close> is in time order, and a lower limit is below the
  largest number received; \<open>sorter_run\<close> gets frames that carry parts of one stream, and ends when there are too many gaps; \<open>sent_run\<close> gets ACK frames from the parser. Updates and frames of the peer
  are arbitrary otherwise.

  \<^bold>\<open>Bounds.\<close> Machine integers have their width and wrap around. Where a property needs a counter not to wrap, the bound is a
  hypothesis: windows below \<open>2 ^ 62\<close> bytes in flow control, streams shorter than \<open>2 ^ 64 - 1\<close> bytes, fewer than
  \<open>2 ^ 40\<close> acknowledgements and windows below \<open>2 ^ 20\<close> packets for the CUBIC sender (2500 is the largest in use), and round-trip times below \<open>2 ^ 21\<close>
  microseconds where the \<^verbatim>\<open>float32\<close> computation is exact. Loops are structural recursion or have a termination proof; the one loop of CUBIC without a bound
  in the code is a partial function that is shown to return. No fuel is used.

  \<^bold>\<open>Modelling choices.\<close> The generated linked lists are lists, maps in iteration order are association lists, clocks and random bytes are
  arguments, and callbacks are arguments or results. The AEAD of the unpacker is a parameter. The operations of \<^verbatim>\<open>float32\<close> round the exact
  result to 24 bits, ties to even.

  \<^bold>\<open>Not modelled.\<close> The OLIA controller, which shares a map of all senders of a session; streams, the stream map and the framer,
  paths, scheduler, sockets, session, client and server, which are goroutines around channels, timers and sockets; the
  cryptographic primitives and the handshakes built on them, with the public reset; HTTP over QUIC, logging, and the programs that use the library
  (traffic generator, video client, web server). Of the packer only the loop that writes the frames is modelled.
\<close>

section \<open>The congestion controller of a path\<close>

text \<open>C39. A path with at most two full packets in flight may send: after every run of the sent packet handler with the
  CUBIC sender it creates, of an initial window of 32 and a largest window of 2500 packets, sending is allowed when at most 2920 bytes are in
  flight and fewer than 5000 packets are tracked. This holds as long as at most \<open>2 ^ 40\<close> packets have been settled.\<close>

theorem idle_path_may_send:
  assumes "sent_run cubic_algorithm (NewCubicSender False InitialCongestionWindow DefaultMaxCongestionWindow) tracked settled h"
    and "size settled \<le> 2 ^ 40" "sp_bytesInFlight h \<le> 2920"
    and "length (sp_retransmissionQueue h) + length (sp_packetHistory h) < MaxTrackedSentPackets"
  shows "SendingAllowed cubic_algorithm h"
  by (rule cubic.may_send[OF assms(1) _ assms(2-4)], rule cubic_ok_new)
    (simp_all add: InitialCongestionWindow_def DefaultMaxCongestionWindow_def)

theorem idle_path_may_send_witness:
  "SendingAllowed cubic_algorithm (snd (snd (SentPacket cubic_algorithm (1000 * Millisecond)
     (NewSentPacketHandler NewRTTStats (NewCubicSender False InitialCongestionWindow DefaultMaxCongestionWindow)) (ex_packet 1))))"
proof -
  let ?r = "SentPacket cubic_algorithm (1000 * Millisecond)
     (NewSentPacketHandler NewRTTStats (NewCubicSender False InitialCongestionWindow DefaultMaxCongestionWindow)) (ex_packet 1)"
  have r: "?r = (fst ?r, fst (snd ?r), snd (snd ?r))" by simp
  have v: "sp_bytesInFlight (snd (snd ?r)) \<le> 2920" "length (sp_retransmissionQueue (snd (snd ?r))) = 0"
    "length (sp_packetHistory (snd (snd ?r))) = 1" by code_simp+
  show ?thesis
    by (rule idle_path_may_send[OF sent_run.run_sent[OF sent_run.run_new r] _ v(1)], simp, simp only: v(2,3) MaxTrackedSentPackets_def)
qed

section \<open>Acknowledgements from the receiver to the sender\<close>

text \<open>The frame that arrives acknowledges a part of what the frame that was sent does, and the largest packet.\<close>

lemma AckFrame_valid_accepted:
  "AckFrame_valid f v \<Longrightarrow> blocks_accepted (ack_LargestAcked f) (ack_LowestAcked f) (ack_AckRanges f)"
  by (auto simp: AckFrame_valid_def blocks_valid_def blocks_accepted_def split: list.splits)

lemma AckFrame_canon_acks:
  assumes v: "AckFrame_valid f v" and p: "ParseAckFrame b v = Inr (AckFrame_canon now f, rest)"
  shows "ack_AcksPacket (AckFrame_canon now f) n \<Longrightarrow> ack_AcksPacket f n"
    "ack_LargestAcked (AckFrame_canon now f) = ack_LargestAcked f"
    "ack_AcksPacket (AckFrame_canon now f) (ack_LargestAcked f)"
    "ack_AckRanges (AckFrame_canon now f) = ack_AckRanges f \<Longrightarrow> ack_AcksPacket (AckFrame_canon now f) n = ack_AcksPacket f n"
proof -
  note acc = AckFrame_valid_accepted[OF v] AckFrame_accepted(3)[OF p]
  show L: "ack_LargestAcked (AckFrame_canon now f) = ack_LargestAcked f" by (simp add: AckFrame_canon_def case_prod_beta)
  have iff: "ack_AcksPacket f n \<longleftrightarrow> (if ack_AckRanges f = [] then n \<in> {ack_LowestAcked f..ack_LargestAcked f}
      else \<exists>r \<in> set (ack_AckRanges f). n \<in> range_set r)"
    "ack_AcksPacket (AckFrame_canon now f) n \<longleftrightarrow> (if ack_AckRanges (AckFrame_canon now f) = []
      then n \<in> {ack_LowestAcked (AckFrame_canon now f)..ack_LargestAcked f}
      else \<exists>r \<in> set (ack_AckRanges (AckFrame_canon now f)). n \<in> range_set r)" for n
    using acks_packet_iff[OF acc(1)] acks_packet_iff[OF acc(2)] L by (simp_all add: ack_AcksPacket_def)
  show "ack_AcksPacket (AckFrame_canon now f) (ack_LargestAcked f)"
    unfolding iff(2) using acc(2) unfolding L
    by (auto simp: blocks_accepted_def range_set_def split: list.splits dest: separated_head)
  have empty: "ack_LowestAcked (AckFrame_canon now f) = ack_LowestAcked f" if "ack_AckRanges f = []"
    using that by (simp add: AckFrame_canon_def blocks_canon_def)
  have sub: "set (ack_AckRanges (AckFrame_canon now f)) \<subseteq> set (ack_AckRanges f)"
    "ack_AckRanges (AckFrame_canon now f) = [] \<longleftrightarrow> ack_AckRanges f = []"
    using set_writable by (auto simp: AckFrame_canon_def blocks_canon_def Let_def split: list.splits)
  show "ack_AcksPacket f n" if "ack_AcksPacket (AckFrame_canon now f) n"
    using that sub empty unfolding iff by (auto split: if_splits)
  show "ack_AcksPacket (AckFrame_canon now f) n = ack_AcksPacket f n"
    if "ack_AckRanges (AckFrame_canon now f) = ack_AckRanges f"
    using that empty unfolding iff by auto
qed

lemma GetAckFrame_reports:
  assumes "handler_run t rh R" "rp_GetAckFrame now rh = Inr (Some f, rh')"
  shows "unat (ack_LargestAcked f) = Max R" "unat (ack_LargestAcked f) \<in> R" "ack_AcksPacket f p \<longleftrightarrow> unat p \<in> R"
proof -
  have inv: "handler_inv t rh R" by (rule handler_run_inv[OF assms(1)])
  have due: "ack_due now rh" using no_ack_due[of now rh] assms(2) by (cases "ack_due now rh") auto
  have g: "ack_LargestAcked f = rp_largestObserved rh" "R \<noteq> {}" "\<forall>p. ack_AcksPacket f p \<longleftrightarrow> unat p \<in> R"
    using ack_due_frame[OF inv due] assms(2) by auto
  have "unat (rp_largestObserved rh) \<in> R" "\<forall>n \<in> R. n \<le> unat (rp_largestObserved rh)"
    using inv g(2) by (auto simp: handler_inv_def split: if_splits)
  moreover from this have "Max R = unat (rp_largestObserved rh)"
    by (intro Max_eqI) (auto intro: finite_subset[of _ "{..unat (rp_largestObserved rh)}"])
  ultimately show "unat (ack_LargestAcked f) = Max R" "unat (ack_LargestAcked f) \<in> R" "ack_AcksPacket f p \<longleftrightarrow> unat p \<in> R"
    using g by simp_all
qed

text \<open>C40. Acknowledgements from end to end. A receiver in any state that it reaches builds an ACK for the set \<open>R\<close> of packets it has
  received and not given up; the frame can be carried (\<open>AckFrame_valid\<close>: the first gap is short enough and the numbers have 48 bits). It is
  written, sent and parsed, and handed to a sender in any state that it reaches, which has sent all packets of \<open>R\<close>, has skipped none
  of them, has not got a later ACK and misses the largest of them. Then the sender takes the ACK without an error: it
  acknowledges only packets of \<open>R\<close>, among them the largest if it is in flight, and all packets of \<open>R\<close> in flight when all ranges fit into
  the frame.\<close>

theorem acknowledgement_end_to_end:
  assumes receiver: "handler_run t rh R" "rp_GetAckFrame now rh = Inr (Some f, rh')" "AckFrame_valid f v"
    and sender: "sent_run sa c0 tracked settled h" "\<forall>n \<in> R. n \<le> unat (sp_lastSentPacketNumber h)"
      "\<forall>p \<in> set (sp_skippedPackets h). unat p \<notin> R" "sp_largestReceivedPacketWithAck h < wpn"
      "unat (largestInOrderAcked h) < Max R"
  shows "\<exists>bs g f' nums h'. AckFrame_Write now' f v = Inr (bs, g) \<and> ParseAckFrame (bs @ rest) v = Inr (f', rest)
    \<and> ReceivedAck sa now'' h f' wpn rcvTime = (None, nums, h')
    \<and> (\<forall>p \<in> set nums. unat p \<in> R)
    \<and> (\<forall>p \<in> set (map pk_PacketNumber (sp_packetHistory h)). unat p = Max R \<longrightarrow> p \<in> set nums)
    \<and> (ack_AckRanges f' = ack_AckRanges f \<longrightarrow>
         nums = filter (\<lambda>p. unat p \<in> R) (map pk_PacketNumber (sp_packetHistory h)))"
proof -
  let ?f = "AckFrame_canon now' f" and ?in_flight = "map pk_PacketNumber (sp_packetHistory h)"
  have f: "unat (ack_LargestAcked f) = Max R" "unat (ack_LargestAcked f) \<in> R" "\<And>p. ack_AcksPacket f p \<longleftrightarrow> unat p \<in> R"
    using GetAckFrame_reports[OF receiver(1,2)] by auto
  obtain bs g where w: "AckFrame_Write now' f v = Inr (ack_typeByte f # bs, g)"
    and parse: "ParseAckFrame (ack_typeByte f # bs @ rest) v = Inr (?f, rest)"
    using AckFrame_written[OF receiver(3)] by blast
  note canon = AckFrame_canon_acks[OF receiver(3) parse]
  have guards: "ack_LargestAcked ?f \<le> sp_lastSentPacketNumber h" "largestInOrderAcked h < ack_LargestAcked ?f"
    "\<not> skippedPacketsAcked h ?f"
    using sender f canon(1) unfolding canon(2) by (auto simp: word_le_nat_alt word_less_nat_alt skippedPacketsAcked_def list_ex_iff)
  obtain h' where r: "ReceivedAck sa now'' h ?f wpn rcvTime = (None, filter (ack_AcksPacket ?f) ?in_flight, h')"
  proof (rule ReceivedAck_effect[OF conjunct1[OF sent_run_invariant[OF sender(1)]] AckFrame_accepted(3)[OF parse]
        guards(1) sender(4) guards(2,3), of sa now'' rcvTime])
    fix h' assume "ReceivedAck sa now'' h ?f wpn rcvTime =
        (None, map pk_PacketNumber (filter (\<lambda>p. ack_AcksPacket ?f (pk_PacketNumber p)) (sp_packetHistory h)), h')"
    then show thesis by (intro that) (simp add: filter_map comp_def)
  qed
  have "p \<in> set (filter (ack_AcksPacket ?f) ?in_flight)" if "p \<in> set ?in_flight" "unat p = Max R" for p
  proof -
    have "p = ack_LargestAcked f" using that(2) f(1) by (simp add: word_unat_eq_iff)
    then show ?thesis using that(1) canon(3) by simp
  qed
  moreover have "filter (ack_AcksPacket ?f) ?in_flight = filter (\<lambda>p. unat p \<in> R) ?in_flight"
    if "ack_AckRanges ?f = ack_AckRanges f" using canon(4)[OF that] f(3) by (intro filter_cong) simp_all
  moreover have "\<forall>p \<in> set (filter (ack_AcksPacket ?f) ?in_flight). unat p \<in> R" using canon(1) f(3) by auto
  ultimately show ?thesis using w parse r
    by (intro exI[of _ "ack_typeByte f # bs"] exI[of _ g] exI[of _ ?f] exI[of _ "filter (ack_AcksPacket ?f) ?in_flight"] exI[of _ h'])
      simp
qed

theorem acknowledgement_end_to_end_witness:
  "let rh = snd (rp_ReceivedPacket 10 (NewReceivedPacketHandler 39) 1 True 0) in
   \<exists>f rh' bs g f' nums h'. rp_GetAckFrame 20 rh = Inr (Some f, rh') \<and> AckFrame_Write 30 f 39 = Inr (bs, g)
     \<and> ParseAckFrame bs 39 = Inr (f', []) \<and> ReceivedAck fixed_window 50 ex_sent f' 1 40 = (None, nums, h') \<and> set nums = {1}"
proof -
  let ?rh = "snd (rp_ReceivedPacket 10 (NewReceivedPacketHandler 39) 1 True 0)"
  have e: "fst (rp_ReceivedPacket 10 (NewReceivedPacketHandler 39) 1 True 0) = None" by code_simp
  then have "rp_ReceivedPacket 10 (NewReceivedPacketHandler 39) 1 True 0 = (None, ?rh)" by (metis prod.collapse)
  from handler_run.run_receive[OF handler_run.run_new[of 0 39] _ this] have run: "handler_run 10 ?rh {1}"
    by (simp add: NewReceivedPacketHandler_def)
  obtain f rh' where f: "rp_GetAckFrame 20 ?rh = Inr (Some f, rh')" "AckFrame_valid f 39"
  proof -
    have "(case rp_GetAckFrame 20 ?rh of Inr (Some f, rh') \<Rightarrow> ack_LargestAcked f = 1 \<and> ack_LowestAcked f = 1 \<and> ack_AckRanges f = [] | _ \<Rightarrow> False)"
      by code_simp
    then show thesis using that by (auto simp: AckFrame_valid_def blocks_valid_def split: sum.splits option.splits prod.splits)
  qed
  have "\<forall>n \<in> {1}. n \<le> unat (sp_lastSentPacketNumber ex_sent)" "\<forall>p \<in> set (sp_skippedPackets ex_sent). unat p \<notin> {1}"
    "sp_largestReceivedPacketWithAck ex_sent < 1" "unat (largestInOrderAcked ex_sent) < Max {1}"
    by (simp_all add: ex_sent_history)
  from acknowledgement_end_to_end[OF run f ex_sent_run this, of 30 "[]" 50 40] obtain bs g f' nums h' where
    r: "AckFrame_Write 30 f 39 = Inr (bs, g)" "ParseAckFrame (bs @ []) 39 = Inr (f', [])"
      "ReceivedAck fixed_window 50 ex_sent f' 1 40 = (None, nums, h')" "\<forall>p \<in> set nums. unat p \<in> {1}"
    and m: "\<forall>p \<in> set (map pk_PacketNumber (sp_packetHistory ex_sent)). unat p = Max {1} \<longrightarrow> p \<in> set nums" by blast
  have "1 \<in> set nums" using m by (simp add: ex_sent_history ex_packet_def)
  moreover have "p = 1" if "p \<in> set nums" for p using r(4) that by (simp add: word_unat_eq_iff)
  ultimately have "set nums = {1}" by blast
  then show ?thesis unfolding Let_def using f r(1-3) by auto
qed

end
